(* ===== verification/Prelude.thy ===== *)
theory Prelude
  imports Main "HOL-Library.Word" "HOL-Library.Product_Lexorder" "HOL-Library.List_Lexorder"
    "HOL-Library.Sublist"
begin

text \<open>
  Shared vocabulary of the development: the machine integer types of the Rust code, the
  standard-library operations the code uses on them (big- and little-endian bytes,
  saturating and checked addition, slices), sorting in descending order with removal of
  duplicates, and the generic lemmas on byte strings and sorted lists that the component
  theories rely on.
\<close>

section \<open>Types and collections\<close>

type_synonym u8 = "8 word"
type_synonym u16 = "16 word"
type_synonym u32 = "32 word"
type_synonym u64 = "64 word"

text \<open>Signed integers are kept as the word with the same bits; \<open>sint\<close> reads their value.\<close>

type_synonym i32 = "32 word"
type_synonym i64 = "64 word"

type_synonym bytes = "u8 list"

text \<open>\<open>NodeId\<close> of \<open>marekvs-core\<close> and the record version \<open>(hlc, origin)\<close>.\<close>

type_synonym node_id = u16
type_synonym version = "u64 \<times> node_id"

text \<open>\<open>codec\<close>: facts by which encoders and decoders cancel.\<close>

named_theorems codec

section \<open>Fixed-width integers as bytes\<close>

text \<open>\<open>to_be_bytes\<close> of the standard library, at any width.\<close>

fun be_nat :: "nat \<Rightarrow> nat \<Rightarrow> bytes" where
  "be_nat 0 v = []"
| "be_nat (Suc n) v = be_nat n (v div 256) @ [of_nat (v mod 256)]"

definition nat_be :: "bytes \<Rightarrow> nat" where
  "nat_be bs = foldl (\<lambda>a b. a * 256 + unat b) 0 bs"

definition be16 :: "u16 \<Rightarrow> bytes" where "be16 w = be_nat 2 (unat w)"
definition be32 :: "u32 \<Rightarrow> bytes" where "be32 w = be_nat 4 (unat w)"
definition be64 :: "u64 \<Rightarrow> bytes" where "be64 w = be_nat 8 (unat w)"

definition of_be16 :: "bytes \<Rightarrow> u16" where "of_be16 bs = of_nat (nat_be bs)"
definition of_be32 :: "bytes \<Rightarrow> u32" where "of_be32 bs = of_nat (nat_be bs)"
definition of_be64 :: "bytes \<Rightarrow> u64" where "of_be64 bs = of_nat (nat_be bs)"

definition le32 :: "u32 \<Rightarrow> bytes" where "le32 w = rev (be32 w)"
definition of_le32 :: "bytes \<Rightarrow> u32" where "of_le32 bs = of_be32 (rev bs)"
definition le16 :: "u16 \<Rightarrow> bytes" where "le16 w = rev (be16 w)"

lemma unat_bound:
  "unat (a :: u8) < 256" "unat (b :: u16) < 65536" "unat (c :: u32) < 4294967296"
  "unat (d :: u64) < 18446744073709551616"
  using unsigned_less [of a, where ?'a = nat] unsigned_less [of b, where ?'a = nat]
    unsigned_less [of c, where ?'a = nat] unsigned_less [of d, where ?'a = nat] by simp_all

lemma length_be_nat [simp]: "length (be_nat n v) = n"
  by (induction n arbitrary: v) auto

lemma length_be [simp]:
  "length (be16 a) = 2" "length (be32 b) = 4" "length (be64 c) = 8"
  "length (le32 b) = 4" "length (le16 a) = 2"
  by (simp_all add: be16_def be32_def be64_def le32_def le16_def)

lemma nat_be_snoc: "nat_be (bs @ [b]) = nat_be bs * 256 + unat b"
  by (simp add: nat_be_def)

lemma nat_be_be_nat: "nat_be (be_nat n v) = v mod 256 ^ n"
proof (induction n arbitrary: v)
  case 0
  then show ?case by (simp add: nat_be_def)
next
  case (Suc n)
  have "nat_be (be_nat (Suc n) v) = (v div 256) mod 256 ^ n * 256 + v mod 256"
    by (simp add: nat_be_snoc Suc unat_of_nat take_bit_nat_eq_self)
  also have "\<dots> = v mod (256 * 256 ^ n)"
    by (simp add: mod_mult2_eq ac_simps)
  finally show ?case by simp
qed

lemma of_be_be [simp, codec]:
  "of_be16 (be16 a) = a" "of_be32 (be32 b) = b" "of_be64 (be64 c) = c" "of_le32 (le32 b) = b"
  using unat_bound(2) [of a] unat_bound(3) [of b] unat_bound(4) [of c]
  by (simp_all add: of_be16_def be16_def of_be32_def be32_def of_be64_def be64_def of_le32_def
      le32_def nat_be_be_nat)

lemma nat_be_bound: "nat_be bs < 256 ^ length bs"
proof (induction bs rule: rev_induct)
  case Nil
  then show ?case by (simp add: nat_be_def)
next
  case (snoc b bs)
  have "unat b < 256" by (rule unat_bound)
  with snoc show ?case by (simp add: nat_be_snoc)
qed

lemma be_nat_nat_be: "be_nat (length bs) (nat_be bs) = bs"
proof (induction bs rule: rev_induct)
  case Nil
  then show ?case by simp
next
  case (snoc b bs)
  have "unat b < 256" by (rule unat_bound)
  then have "(nat_be bs * 256 + unat b) div 256 = nat_be bs"
    and "(nat_be bs * 256 + unat b) mod 256 = unat b" by simp_all
  with snoc show ?case by (simp add: nat_be_snoc)
qed

text \<open>Decoding is injective as well: bytes of the right length are the encoding of what they decode to.\<close>

lemma be_of_be [codec]:
  "length bs = 2 \<Longrightarrow> be16 (of_be16 bs) = bs"
  "length bs = 4 \<Longrightarrow> be32 (of_be32 bs) = bs"
  "length bs = 8 \<Longrightarrow> be64 (of_be64 bs) = bs"
  using nat_be_bound [of bs] be_nat_nat_be [of bs]
  by (simp_all add: be16_def of_be16_def be32_def of_be32_def be64_def of_be64_def unat_of_nat
      take_bit_nat_eq_self)

lemma be_inject [simp]:
  "be16 a = be16 a' \<longleftrightarrow> a = a'" "be32 b = be32 b' \<longleftrightarrow> b = b'" "be64 c = be64 c' \<longleftrightarrow> c = c'"
  by (metis of_be_be(1)) (metis of_be_be(2), metis of_be_be(3))

text \<open>
  Big-endian bytes compare like the numbers they encode; \<open><\<close> on byte strings is the
  lexicographic order of \<open>memcmp\<close>.
\<close>

lemma less_append_same_length:
  fixes xs ys :: "'a::linorder list"
  shows "length xs = length ys \<Longrightarrow> xs @ us < ys @ vs \<longleftrightarrow> xs < ys \<or> xs = ys \<and> us < vs"
  by (induction xs ys rule: list_induct2) auto

lemma be_nat_less_iff:
  "a < 256 ^ n \<Longrightarrow> b < 256 ^ n \<Longrightarrow> be_nat n a < be_nat n b \<longleftrightarrow> a < b"
proof (induction n arbitrary: a b)
  case 0
  then show ?case by simp
next
  case (Suc n)
  have bounds: "a div 256 < 256 ^ n" "b div 256 < 256 ^ n"
    using Suc.prems by (simp_all add: less_mult_imp_div_less mult.commute)
  have eq: "be_nat n (a div 256) = be_nat n (b div 256) \<longleftrightarrow> a div 256 = b div 256"
    using bounds nat_be_be_nat by (metis mod_less)
  have last: "(of_nat (a mod 256) :: u8) < of_nat (b mod 256) \<longleftrightarrow> a mod 256 < b mod 256"
    by (simp add: word_less_nat_alt unat_of_nat take_bit_nat_eq_self)
  have split: "a < b \<longleftrightarrow> a div 256 < b div 256 \<or> a div 256 = b div 256 \<and> a mod 256 < b mod 256"
    using div_mult_mod_eq [of a 256] div_mult_mod_eq [of b 256]
      mod_less_divisor [of 256 a] mod_less_divisor [of 256 b] by linarith
  show ?case
    using Suc.IH [OF bounds] eq last split by (simp add: less_append_same_length)
qed

lemma be_less_iff [simp]:
  "be16 a < be16 a' \<longleftrightarrow> a < a'" "be64 c < be64 c' \<longleftrightarrow> c < c'"
  using unat_bound(2) [of a] unat_bound(2) [of a'] unat_bound(4) [of c] unat_bound(4) [of c']
  by (simp_all add: be16_def be64_def be_nat_less_iff word_less_nat_alt)

section \<open>Slices and integer arithmetic of the standard library\<close>

definition slice :: "nat \<Rightarrow> nat \<Rightarrow> 'a list \<Rightarrow> 'a list" where
  "slice p n xs = take n (drop p xs)"

lemma slice_split: "p + n \<le> length xs \<Longrightarrow> drop p xs = slice p n xs @ drop (p + n) xs"
  by (metis append_take_drop_id drop_drop slice_def add.commute)

lemma length_slice: "p + n \<le> length xs \<Longrightarrow> length (slice p n xs) = n"
  by (simp add: slice_def)

definition u64_max :: u64 where "u64_max = - 1"

definition checked_add64 :: "u64 \<Rightarrow> u64 \<Rightarrow> u64 option" where
  "checked_add64 a b = (if unat a + unat b < 2 ^ 64 then Some (a + b) else None)"

definition saturating_add64 :: "u64 \<Rightarrow> u64 \<Rightarrow> u64" where
  "saturating_add64 a b = (if unat a + unat b < 2 ^ 64 then a + b else u64_max)"

lemma unat_u64_max: "unat u64_max = 2 ^ 64 - 1"
  by (simp add: u64_max_def unsigned_minus_1_eq_mask mask_eq_exp_minus_1)

lemma unat_add64: "unat a + unat b < 2 ^ 64 \<Longrightarrow> unat (a + b :: u64) = unat a + unat b"
  by (simp add: unat_word_ariths)

lemma checked_add64_Some [simp]:
  "checked_add64 a b = Some c \<longleftrightarrow> unat a + unat b < 2 ^ 64 \<and> c = a + b"
  by (auto simp: checked_add64_def)

lemma unat_saturating_add64: "unat (saturating_add64 a b) = min (unat a + unat b) (2 ^ 64 - 1)"
  by (simp add: saturating_add64_def unat_add64 unat_u64_max)

section \<open>Positions\<close>

text \<open>\<open>Iterator::position\<close>: the index of the first element with the property.\<close>

fun position :: "('a \<Rightarrow> bool) \<Rightarrow> 'a list \<Rightarrow> nat option" where
  "position P [] = None"
| "position P (x # xs) = (if P x then Some 0 else map_option Suc (position P xs))"

lemma position_append [simp]:
  "position P (xs @ ys) =
     (case position P xs of Some i \<Rightarrow> Some i | None \<Rightarrow> map_option (\<lambda>i. length xs + i) (position P ys))"
  by (cases "position P ys"; induction xs) (auto split: option.splits)

lemma position_None_iff: "position P xs = None \<longleftrightarrow> (\<forall>x\<in>set xs. \<not> P x)"
  by (induction xs) auto

lemma position_SomeD: "position P xs = Some i \<Longrightarrow> i < length xs \<and> P (xs ! i) \<and> (\<forall>j<i. \<not> P (xs ! j))"
proof (induction xs arbitrary: i)
  case (Cons x xs)
  then show ?case by (cases i) (auto split: if_splits simp: All_less_Suc2)
qed simp

lemma in_map_filter: "y \<in> set (List.map_filter f xs) \<longleftrightarrow> (\<exists>x\<in>set xs. f x = Some y)"
  by (induction xs) (auto simp: List.map_filter_simps split: option.split)

end
