(* ===== verification/Partition.thy ===== *)
theory Partition
  imports Prelude
begin

text \<open>
  \<open>marekvs-core/src/lib.rs\<close>: the table-driven CRC-16 (XMODEM) of Redis Cluster, hash tags,
  and the map from user keys to the 16384 slots and the 4096 partitions.
\<close>

unbundle bit_operations_syntax

section \<open>Definitions\<close>

type_synonym pid = u16

text \<open>One turn of the inner loop that fills the table.\<close>

definition crc_shift :: "u16 \<Rightarrow> u16" where
  "crc_shift crc = (if crc AND 0x8000 \<noteq> 0 then push_bit 1 crc XOR 0x1021 else push_bit 1 crc)"

definition CRC16_TAB :: "u16 list" where
  "CRC16_TAB = map (\<lambda>i. (crc_shift ^^ 8) (push_bit 8 (of_nat i))) [0..<256]"

definition crc16 :: "bytes \<Rightarrow> u16" where
  "crc16 data = foldl (\<lambda>crc b.
     push_bit 8 crc XOR CRC16_TAB ! unat ((drop_bit 8 crc XOR ucast b) AND 0xFF)) 0 data"

definition OPEN_BRACE :: u8 where "OPEN_BRACE = 123"
definition CLOSE_BRACE :: u8 where "CLOSE_BRACE = 125"

definition hash_slice :: "bytes \<Rightarrow> bytes" where
  "hash_slice key =
     (case position (\<lambda>b. b = OPEN_BRACE) key of
        Some open' \<Rightarrow>
          (case position (\<lambda>b. b = CLOSE_BRACE) (drop (open' + 1) key) of
             Some close_rel \<Rightarrow> if close_rel > 0 then slice (open' + 1) close_rel key else key
           | None \<Rightarrow> key)
      | None \<Rightarrow> key)"

definition slot_of :: "bytes \<Rightarrow> u16" where
  "slot_of userkey = crc16 (hash_slice userkey) mod 16384"

definition pid_of :: "bytes \<Rightarrow> pid" where
  "pid_of userkey = drop_bit 2 (slot_of userkey)"

text \<open>
  The reference: the bit-serial CRC with polynomial \<open>0x1021\<close> and initial value 0. Every byte is
  XORed into the high half of the register, which is then shifted eight times.
\<close>

definition crc16_serial :: "bytes \<Rightarrow> u16" where
  "crc16_serial data = foldl (\<lambda>crc b. (crc_shift ^^ 8) (crc XOR push_bit 8 (ucast b))) 0 data"

section \<open>The table computes the bit-serial CRC\<close>

lemma top_bit: "x AND 0x8000 \<noteq> 0 \<longleftrightarrow> bit x 15" for x :: u16
  using and_exp_eq_0_iff_not_bit [of x 15] by simp

lemma crc_shift_linear: "crc_shift (a XOR b) = crc_shift a XOR crc_shift b"
  by (simp add: crc_shift_def top_bit bit_xor_iff push_bit_xor xor.assoc xor.left_commute xor.commute)

lemma crc_shifts_linear: "(crc_shift ^^ n) (a XOR b) = (crc_shift ^^ n) a XOR (crc_shift ^^ n) b"
  by (induction n) (simp_all add: crc_shift_linear)

text \<open>Eight shifts of a register whose high half is empty push the low half up and feed nothing back.\<close>

lemma crc_shifts_low: "(crc_shift ^^ 8) (take_bit 8 a) = push_bit 8 a"
proof -
  have step: "crc_shift (push_bit n (take_bit 8 a)) = push_bit (Suc n) (take_bit 8 a)" if "n < 8" for n
  proof -
    have "\<not> 15 - n < 8" using that by simp
    then show ?thesis by (simp add: crc_shift_def top_bit bit_simps)
  qed
  have "n \<le> 8 \<Longrightarrow> (crc_shift ^^ n) (take_bit 8 a) = push_bit n (take_bit 8 a)" for n
    by (induction n) (simp_all add: step del: push_bit_Suc)
  also have "push_bit 8 (take_bit 8 a) = push_bit 8 a"
    by (rule bit_word_eqI) (auto simp: bit_simps)
  finally show ?thesis by simp
qed

lemma tab_nth: "i < 256 \<Longrightarrow> CRC16_TAB ! i = (crc_shift ^^ 8) (push_bit 8 (of_nat i))"
  by (simp add: CRC16_TAB_def)

lemma crc_byte:
  "(crc_shift ^^ 8) (crc XOR push_bit 8 (ucast b)) =
   push_bit 8 crc XOR CRC16_TAB ! unat ((drop_bit 8 crc XOR ucast (b :: u8)) AND 0xFF)"
proof -
  let ?i = "(drop_bit 8 crc XOR ucast b) AND 0xFF :: u16"
  have mask: "(0xFF :: u16) = mask 8" by (simp add: mask_eq_exp_minus_1)
  have "?i < 256"
    using and_mask_less_size [of 8 "drop_bit 8 crc XOR ucast b"] by (simp add: mask word_size)
  then have "unat ?i < 256" by (simp add: word_less_nat_alt)
  moreover have "crc XOR push_bit 8 (ucast b) = take_bit 8 crc XOR push_bit 8 ?i"
    unfolding mask by (rule bit_word_eqI) (auto simp: bit_simps)
  ultimately show ?thesis by (simp add: crc_shifts_linear crc_shifts_low tab_nth)
qed

lemma crc16_tab_serial: "crc16 data = crc16_serial data"
  by (simp add: crc16_def crc16_serial_def crc_byte)

text \<open>C26: the CRC that keys are routed by is the bit-serial CRC-16/XMODEM: indexing the precomputed table
  once per byte gives what shifting the register bit by bit gives, on every input.\<close>

theorem crc16_eq_serial: "crc16 data = crc16_serial data"
  by (rule crc16_tab_serial)

section \<open>Slots, partitions and hash tags\<close>

lemma slot_of_bound: "slot_of k < 16384"
  by (simp add: slot_of_def word_less_nat_alt unat_mod)

lemma unat_pid_of: "unat (pid_of k) = unat (slot_of k) div 4"
  by (simp add: pid_of_def drop_bit_eq_div unat_div)

lemma pid_of_bound: "unat (pid_of k) < 4096"
  using slot_of_bound [of k] by (simp add: unat_pid_of word_less_nat_alt less_mult_imp_div_less)

text \<open>What \<open>hash_slice\<close> selects: the first brace opens the tag and the first closing brace after it ends it.\<close>

lemma hash_slice_tag:
  assumes "OPEN_BRACE \<notin> set pre" "CLOSE_BRACE \<notin> set tag" "tag \<noteq> []"
  shows "hash_slice (pre @ OPEN_BRACE # tag @ CLOSE_BRACE # post) = tag"
proof -
  have "position (\<lambda>b. b = OPEN_BRACE) pre = None" "position (\<lambda>b. b = CLOSE_BRACE) tag = None"
    using assms by (auto simp: position_None_iff)
  then show ?thesis using assms(3) by (simp add: hash_slice_def slice_def)
qed

lemma hash_slice_no_tag:
  assumes "OPEN_BRACE \<notin> set key"
  shows "hash_slice key = key"
proof -
  have "position (\<lambda>b. b = OPEN_BRACE) key = None" using assms by (auto simp: position_None_iff)
  then show ?thesis by (simp add: hash_slice_def)
qed

lemma hash_slice_empty_tag:
  assumes "OPEN_BRACE \<notin> set pre"
  shows "hash_slice (pre @ OPEN_BRACE # CLOSE_BRACE # post) = pre @ OPEN_BRACE # CLOSE_BRACE # post"
proof -
  have "position (\<lambda>b. b = OPEN_BRACE) pre = None" using assms by (auto simp: position_None_iff)
  then show ?thesis by (simp add: hash_slice_def)
qed

text \<open>Keys with the same hash tag share their partition, whatever surrounds the tag; partitions are
  below 4096, and the partition of a key is the one that holds its slot, four slots to a partition.\<close>

theorem hash_tag_colocates:
  assumes "OPEN_BRACE \<notin> set pre" "OPEN_BRACE \<notin> set pre'" "CLOSE_BRACE \<notin> set tag" "tag \<noteq> []"
  shows "pid_of (pre @ OPEN_BRACE # tag @ CLOSE_BRACE # post) =
           pid_of (pre' @ OPEN_BRACE # tag @ CLOSE_BRACE # post') \<and>
         unat (pid_of k) < 4096 \<and> unat (slot_of k) div 4 = unat (pid_of k)"
  using assms pid_of_bound unat_pid_of by (simp add: hash_slice_tag pid_of_def slot_of_def)

theorem hash_tag_colocates_witness:
  "pid_of [97, OPEN_BRACE, 117, CLOSE_BRACE] = pid_of [OPEN_BRACE, 117, CLOSE_BRACE, 98]"
  using hash_tag_colocates [of "[97]" "[]" "[117]" "[]" "[98]"]
  by (simp add: OPEN_BRACE_def CLOSE_BRACE_def)

end
