(* ===== verification/Hlc.thy ===== *)
theory Hlc
  imports Prelude
begin

text \<open>
  \<open>marekvs-core/src/hlc.rs\<close>: the hybrid logical clock. The reading of the system clock is an
  argument of every operation (\<open>wall_ms\<close>); the atomic cell is the state that is passed along.
\<close>

unbundle bit_operations_syntax

section \<open>Definitions\<close>

definition MAX_CLOCK_DRIFT_MS :: u64 where "MAX_CLOCK_DRIFT_MS = 5000"

definition hlc_pack :: "u64 \<Rightarrow> u16 \<Rightarrow> u64" where
  "hlc_pack phys_ms logical = push_bit 16 phys_ms OR ucast logical"

definition hlc_phys_ms :: "u64 \<Rightarrow> u64" where
  "hlc_phys_ms h = drop_bit 16 h"

definition hlc_new :: "u64 \<Rightarrow> u64" where
  "hlc_new wall_ms = hlc_pack wall_ms 0"

text \<open>\<open>Hlc::now\<close>: the new state and the timestamp returned.\<close>

definition hlc_now :: "u64 \<Rightarrow> u64 \<Rightarrow> u64 \<times> u64" where
  "hlc_now wall_ms prev =
     (let wall = hlc_pack wall_ms 0
      in (max (prev + 1) wall, max (prev + 1) wall))"

text \<open>\<open>Hlc::observe\<close>: the new state and the clamped remote timestamp.\<close>

definition hlc_observe :: "u64 \<Rightarrow> u64 \<Rightarrow> u64 \<Rightarrow> u64 \<times> u64" where
  "hlc_observe wall_ms remote prev =
     (let limit = hlc_pack (wall_ms + MAX_CLOCK_DRIFT_MS) 0;
          remote' = min remote limit
      in (max prev remote' + 1, remote'))"

definition is_drifted :: "u64 \<Rightarrow> u64 \<Rightarrow> bool" where
  "is_drifted wall_ms remote = (hlc_phys_ms remote > wall_ms + MAX_CLOCK_DRIFT_MS)"

text \<open>
  A history of one clock: local events and received timestamps in any order, each with the wall
  clock reading at that moment. The readings are arbitrary: the system clock may jump back.
\<close>

datatype hlc_event = Local u64 | Receive u64 u64

fun hlc_step :: "hlc_event \<Rightarrow> u64 \<Rightarrow> u64 \<times> u64" where
  "hlc_step (Local wall) prev = hlc_now wall prev"
| "hlc_step (Receive wall remote) prev = hlc_observe wall remote prev"

fun hlc_run :: "hlc_event list \<Rightarrow> u64 \<Rightarrow> (hlc_event \<times> u64) list" where
  "hlc_run [] prev = []"
| "hlc_run (e # es) prev = (let (st, t) = hlc_step e prev in (e, t) # hlc_run es st)"

fun wall_of :: "hlc_event \<Rightarrow> u64" where
  "wall_of (Local w) = w"
| "wall_of (Receive w r) = w"

fun is_local :: "hlc_event \<Rightarrow> bool" where
  "is_local (Local w) = True"
| "is_local (Receive w r) = False"

section \<open>Arithmetic of the packing\<close>

lemma unat_hlc_pack: "unat w < 2 ^ 48 \<Longrightarrow> unat (hlc_pack w 0) = unat w * 65536"
  by (simp add: hlc_pack_def push_bit_eq_mult unat_word_ariths)

lemma unat_hlc_phys_ms: "unat (hlc_phys_ms h) = unat h div 65536"
  by (simp add: hlc_phys_ms_def drop_bit_eq_div unat_div)

lemma unat_Suc64: "unat a < 2 ^ 64 - 1 \<Longrightarrow> unat (a + 1 :: u64) = unat a + 1"
  using unat_add64 [of a 1] by simp

lemma unat_drift: "unat w < 2 ^ 47 \<Longrightarrow> unat (w + MAX_CLOCK_DRIFT_MS) = unat w + 5000"
  using unat_add64 [of w 5000] by (simp add: MAX_CLOCK_DRIFT_MS_def)

lemma unat_max: "unat (max a b) = max (unat a) (unat b)"
  by (simp add: max_def word_le_nat_alt)

lemma unat_min: "unat (min a b) = min (unat a) (unat b)"
  by (simp add: min_def word_le_nat_alt)

section \<open>One step\<close>

text \<open>The highest value a wall clock reading can contribute, through \<open>now\<close> or through the clamp.\<close>

definition wall_limit :: "u64 \<Rightarrow> nat" where
  "wall_limit wall = (unat wall + 5000) * 65536"

lemma hlc_step_progress:
  assumes "hlc_step e prev = (st, t)" "unat prev < 2 ^ 64 - 1" "unat (wall_of e) < 2 ^ 47"
  shows "unat prev < unat st" "unat t \<le> unat st" "is_local e \<Longrightarrow> t = st"
    "unat st \<le> max (unat prev) (wall_limit (wall_of e)) + 1"
  using assms
  by (cases e; auto simp: hlc_now_def hlc_observe_def Let_def unat_max unat_min unat_Suc64 unat_hlc_pack
      unat_drift wall_limit_def)+

section \<open>Histories\<close>

text \<open>
  A history is within range when the wall clock readings fit 47 bits (they do until the year 6429)
  and it is too short to count the 64-bit register up to its end.
\<close>

definition in_range :: "hlc_event list \<Rightarrow> u64 \<Rightarrow> bool" where
  "in_range es prev \<longleftrightarrow>
     (\<forall>e\<in>set es. unat (wall_of e) < 2 ^ 47 - 5000) \<and> unat prev + length es < 2 ^ 64 - 1 \<and>
     2 ^ 63 + length es < (2::nat) ^ 64 - 1"

lemma wall_limit_range: "unat w < 2 ^ 47 - 5000 \<Longrightarrow> wall_limit w < 2 ^ 63"
  by (simp add: wall_limit_def)

lemma in_range_Cons:
  assumes "in_range (e # es) prev" "hlc_step e prev = (st, t)"
  shows "in_range es st" "unat prev < unat st" "unat t \<le> unat st" "is_local e \<Longrightarrow> t = st"
    "unat st \<le> max (unat prev) (wall_limit (wall_of e)) + 1"
proof -
  have pre: "unat prev < 2 ^ 64 - 1" "unat (wall_of e) < 2 ^ 47" "wall_limit (wall_of e) < 2 ^ 63"
    using assms(1) wall_limit_range [of "wall_of e"] by (auto simp: in_range_def)
  note step = hlc_step_progress [OF assms(2) pre(1,2)]
  show "unat prev < unat st" "unat t \<le> unat st" "is_local e \<Longrightarrow> t = st"
    "unat st \<le> max (unat prev) (wall_limit (wall_of e)) + 1" by (fact step)+
  with pre(3) show "in_range es st" using assms(1) by (auto simp: in_range_def)
qed

lemma hlc_run_above:
  "in_range es prev \<Longrightarrow> (e, t) \<in> set (hlc_run es prev) \<Longrightarrow> is_local e \<Longrightarrow> unat prev < unat t"
proof (induction es arbitrary: prev)
  case (Cons e' es)
  obtain st t' where st: "hlc_step e' prev = (st, t')" by fastforce
  note step = in_range_Cons [OF Cons.prems(1) st]
  from Cons.prems(2) st consider "e = e'" "t = t'" | "(e, t) \<in> set (hlc_run es st)" by auto
  then show ?case
  proof cases
    case 1
    with step Cons.prems(3) show ?thesis by auto
  next
    case 2
    with Cons.IH [OF step(1)] Cons.prems(3) step(2) show ?thesis by fastforce
  qed
qed simp

lemma hlc_run_sorted:
  "in_range es prev \<Longrightarrow> sorted_wrt (\<lambda>(_, t) (e', t'). is_local e' \<longrightarrow> t < t') (hlc_run es prev)"
proof (induction es arbitrary: prev)
  case (Cons e es)
  obtain st t where st: "hlc_step e prev = (st, t)" by fastforce
  note step = in_range_Cons [OF Cons.prems st]
  have "t < t'" if "(e', t') \<in> set (hlc_run es st)" "is_local e'" for e' t'
    using hlc_run_above [OF step(1) that] step(3) by (simp add: word_less_nat_alt)
  with Cons.IH [OF step(1)] st show ?case by auto
qed simp

lemma hlc_run_bound:
  assumes "in_range es prev" "\<And>e. e \<in> set es \<Longrightarrow> unat (wall_of e) \<le> w" "(e, t) \<in> set (hlc_run es prev)"
  shows "unat t \<le> max (unat prev) ((w + 5000) * 65536) + length es"
  using assms
proof (induction es arbitrary: prev)
  case (Cons e' es)
  obtain st t' where st: "hlc_step e' prev = (st, t')" by fastforce
  note step = in_range_Cons [OF Cons.prems(1) st]
  have w: "unat st \<le> max (unat prev) ((w + 5000) * 65536) + 1"
    using step(5) Cons.prems(2) [of e'] by (auto simp: wall_limit_def max_def split: if_splits)
  from Cons.prems(3) st consider "t = t'" | "(e, t) \<in> set (hlc_run es st)" by auto
  then show ?case
  proof cases
    case 1
    with step(3) w show ?thesis by simp
  next
    case 2
    with Cons.IH [OF step(1)] Cons.prems(2) have "unat t \<le> max (unat st) ((w + 5000) * 65536) + length es" by simp
    with w show ?thesis by simp
  qed
qed simp

text \<open>C10: timestamps of one node never repeat or run backwards. In any history of local events and received
  timestamps, with wall clock readings that may jump back at will, every local event gets a
  timestamp above every timestamp returned before it, whether by a local event or by the receipt of a
  remote one.\<close>

theorem hlc_monotonic:
  assumes "in_range es prev"
  shows "sorted_wrt (\<lambda>(_, t) (e', t'). is_local e' \<longrightarrow> t < t') (hlc_run es prev)"
  using assms by (rule hlc_run_sorted)

theorem hlc_monotonic_witness:
  "sorted_wrt (\<lambda>(_, t) (e', t'). is_local e' \<longrightarrow> t < t')
     (hlc_run [Local 1000, Receive 900 0x7FFFFFFFFFFFFFFF, Local 800] 0)"
  by (rule hlc_monotonic) (simp add: in_range_def)

text \<open>C24: a peer with a skewed clock cannot drag this one along. Whatever remote timestamps arrive, no
  timestamp exceeds the highest local wall clock reading by more than the drift limit, but for one tick of
  the logical counter per event.\<close>

theorem hlc_skew_bounded:
  assumes "in_range es prev" "\<And>e. e \<in> set es \<Longrightarrow> unat (wall_of e) \<le> w" "(e, t) \<in> set (hlc_run es prev)"
  shows "unat t \<le> max (unat prev) ((w + 5000) * 65536) + length es"
  using assms by (rule hlc_run_bound)

theorem hlc_skew_bounded_witness:
  "unat (snd (hd (hlc_run [Receive 900 0x7FFFFFFFFFFFFFFF] 0))) \<le> (900 + 5000) * 65536 + 1"
  using hlc_skew_bounded [of "[Receive 900 0x7FFFFFFFFFFFFFFF]" 0 900
      "Receive 900 0x7FFFFFFFFFFFFFFF" "snd (hd (hlc_run [Receive 900 0x7FFFFFFFFFFFFFFF] 0))"]
  by (simp add: in_range_def split: prod.splits)

text \<open>When \<open>observe\<close> alters a remote timestamp. Beyond the timestamps that \<open>is_drifted\<close> reports there is one
  more case: a timestamp whose physical part is exactly at the drift limit loses its logical part.\<close>

theorem observe_clamps_iff:
  assumes "unat wall < 2 ^ 47"
  shows "snd (hlc_observe wall remote prev) \<noteq> remote \<longleftrightarrow>
    is_drifted wall remote \<or>
    hlc_phys_ms remote = wall + MAX_CLOCK_DRIFT_MS \<and> remote \<noteq> hlc_pack (wall + MAX_CLOCK_DRIFT_MS) 0"
proof -
  let ?l = "wall + MAX_CLOCK_DRIFT_MS"
  have l: "unat (hlc_pack ?l 0) = unat ?l * 65536" 
    using unat_drift [OF assms] assms by (simp add: unat_hlc_pack)
  have "snd (hlc_observe wall remote prev) \<noteq> remote \<longleftrightarrow> unat ?l * 65536 < unat remote"
    unfolding l [symmetric] hlc_observe_def Let_def snd_conv min_def word_less_nat_alt [symmetric] by auto
  also have "\<dots> \<longleftrightarrow> unat ?l < unat remote div 65536 \<or> unat ?l = unat remote div 65536 \<and> unat remote \<noteq> unat ?l * 65536"
    using div_mult_mod_eq [of "unat remote" 65536] mod_less_divisor [of 65536 "unat remote"] by linarith
  finally show ?thesis
    by (auto simp: is_drifted_def word_less_nat_alt unat_hlc_phys_ms l word_unat_eq_iff)
qed

theorem observe_clamps_iff_witness:
  "snd (hlc_observe 0 (hlc_pack 5000 7) 0) \<noteq> hlc_pack 5000 7 \<and> \<not> is_drifted 0 (hlc_pack 5000 7)"
  using observe_clamps_iff [of 0 "hlc_pack 5000 7" 0]
  by (simp add: hlc_pack_def MAX_CLOCK_DRIFT_MS_def is_drifted_def hlc_phys_ms_def)

end
