(* ===== verification/Envelope.thy ===== *)
theory Envelope
  imports Prelude
begin

text \<open>
  \<open>marekvs-core/src/envelope.rs\<close>: the 19-byte envelope in front of every stored value, the
  record types packed into its flags byte, and the common prefix of collection heads.
\<close>

unbundle bit_operations_syntax

section \<open>Record types\<close>

datatype record_type = RT_String | RT_HashField | RT_SetMember | RT_ZsetMember | RT_List
  | RT_StreamEntry | RT_Counter | RT_HllRegister | RT_CounterField

text \<open>The \<open>#[repr(u8)]\<close> discriminants.\<close>

fun rtype_code :: "record_type \<Rightarrow> u8" where
  "rtype_code RT_String = 0"
| "rtype_code RT_HashField = 1"
| "rtype_code RT_SetMember = 2"
| "rtype_code RT_ZsetMember = 3"
| "rtype_code RT_List = 4"
| "rtype_code RT_StreamEntry = 5"
| "rtype_code RT_Counter = 6"
| "rtype_code RT_HllRegister = 7"
| "rtype_code RT_CounterField = 8"

definition from_bits :: "u8 \<Rightarrow> record_type" where
  "from_bits b =
     (if b = 1 then RT_HashField
      else if b = 2 then RT_SetMember
      else if b = 3 then RT_ZsetMember
      else if b = 4 then RT_List
      else if b = 5 then RT_StreamEntry
      else if b = 6 then RT_Counter
      else if b = 7 then RT_HllRegister
      else if b = 8 then RT_CounterField
      else RT_String)"

definition is_or_element :: "record_type \<Rightarrow> bool" where
  "is_or_element rt =
     (rt = RT_HashField \<or> rt = RT_SetMember \<or> rt = RT_ZsetMember \<or> rt = RT_CounterField)"

section \<open>The envelope\<close>

definition ENVELOPE_LEN :: nat where "ENVELOPE_LEN = 19"
definition TOMBSTONE :: u8 where "TOMBSTONE = 1"
definition COLLECTION_HEAD :: u8 where "COLLECTION_HEAD = 2"

record envelope =
  flags :: u8
  hlc :: u64
  origin :: node_id
  ttl_deadline_ms :: u64

definition envelope_new :: "record_type \<Rightarrow> u64 \<Rightarrow> node_id \<Rightarrow> envelope" where
  "envelope_new rt h o' =
     \<lparr>flags = push_bit 2 (rtype_code rt), hlc = h, origin = o', ttl_deadline_ms = 0\<rparr>"

definition envelope_tombstone :: "record_type \<Rightarrow> u64 \<Rightarrow> node_id \<Rightarrow> envelope" where
  "envelope_tombstone rt h o' =
     \<lparr>flags = push_bit 2 (rtype_code rt) OR TOMBSTONE, hlc = h, origin = o', ttl_deadline_ms = 0\<rparr>"

definition envelope_head :: "u64 \<Rightarrow> node_id \<Rightarrow> envelope" where
  "envelope_head h o' = \<lparr>flags = COLLECTION_HEAD, hlc = h, origin = o', ttl_deadline_ms = 0\<rparr>"

definition with_ttl :: "envelope \<Rightarrow> u64 \<Rightarrow> envelope" where
  "with_ttl e deadline_ms = e\<lparr>ttl_deadline_ms := deadline_ms\<rparr>"

definition is_tombstone :: "envelope \<Rightarrow> bool" where
  "is_tombstone e = (flags e AND TOMBSTONE \<noteq> 0)"

definition is_head :: "envelope \<Rightarrow> bool" where
  "is_head e = (flags e AND COLLECTION_HEAD \<noteq> 0)"

definition rtype :: "envelope \<Rightarrow> record_type" where
  "rtype e = from_bits (drop_bit 2 (flags e) AND 15)"

definition env_version :: "envelope \<Rightarrow> version" where
  "env_version e = (hlc e, origin e)"

definition is_expired :: "envelope \<Rightarrow> u64 \<Rightarrow> bool" where
  "is_expired e now_ms = (ttl_deadline_ms e \<noteq> 0 \<and> ttl_deadline_ms e \<le> now_ms)"

definition expiry_hlc :: "envelope \<Rightarrow> u64" where
  "expiry_hlc e = push_bit 16 (ttl_deadline_ms e)"

definition encode_to :: "envelope \<Rightarrow> bytes \<Rightarrow> bytes" where
  "encode_to e out = out @ [flags e] @ be64 (hlc e) @ be16 (origin e) @ be64 (ttl_deadline_ms e)"

definition encode_with :: "envelope \<Rightarrow> bytes \<Rightarrow> bytes" where
  "encode_with e payload = encode_to e [] @ payload"

definition envelope_decode :: "bytes \<Rightarrow> (envelope \<times> bytes) option" where
  "envelope_decode value =
     (if length value < ENVELOPE_LEN then None
      else Some (\<lparr>flags = value ! 0,
                  hlc = of_be64 (slice 1 8 value),
                  origin = of_be16 (slice 9 2 value),
                  ttl_deadline_ms = of_be64 (slice 11 8 value)\<rparr>,
                 drop ENVELOPE_LEN value))"

section \<open>Collection heads\<close>

definition CTYPE_HASH :: u8 where "CTYPE_HASH = 1"
definition CTYPE_SET :: u8 where "CTYPE_SET = 2"
definition CTYPE_ZSET :: u8 where "CTYPE_ZSET = 3"
definition CTYPE_STREAM :: u8 where "CTYPE_STREAM = 4"
definition CTYPE_LIST :: u8 where "CTYPE_LIST = 5"
definition CTYPE_HLL :: u8 where "CTYPE_HLL = 6"
definition CTYPE_BUDGET :: u8 where "CTYPE_BUDGET = 7"
definition CTYPE_JSON :: u8 where "CTYPE_JSON = 8"
definition CTYPE_PROTO :: u8 where "CTYPE_PROTO = 9"

definition head_encode :: "u8 \<Rightarrow> u64 \<Rightarrow> bytes" where
  "head_encode ctype del_hlc = [ctype] @ be64 del_hlc"

definition head_decode :: "bytes \<Rightarrow> (u8 \<times> u64) option" where
  "head_decode payload =
     (if length payload < 9 then None
      else Some (payload ! 0, of_be64 (slice 1 8 payload)))"

section \<open>Round trips\<close>

lemma from_bits_code [simp]: "from_bits (rtype_code rt) = rt"
  by (cases rt) (simp_all add: from_bits_def)

lemma rtype_code_le: "rtype_code rt \<le> 8"
  by (cases rt) simp_all

lemma rtype_code_inject: "rtype_code a = rtype_code b \<longleftrightarrow> a = b"
  by (metis from_bits_code)

lemma flag_bits [simp]:
  "drop_bit 2 (push_bit 2 (rtype_code rt)) AND 15 = rtype_code rt"
  "drop_bit 2 (push_bit 2 (rtype_code rt) OR TOMBSTONE) AND 15 = rtype_code rt"
  "push_bit 2 (rtype_code rt) AND TOMBSTONE = 0"
  "(push_bit 2 (rtype_code rt) OR TOMBSTONE) AND TOMBSTONE = TOMBSTONE"
  "push_bit 2 (rtype_code rt) AND COLLECTION_HEAD = 0"
  "(push_bit 2 (rtype_code rt) OR TOMBSTONE) AND COLLECTION_HEAD = 0"
  by (cases rt; simp add: TOMBSTONE_def COLLECTION_HEAD_def)+

lemma length_encode_with [simp]: "length (encode_with e p) = 19 + length p"
  by (simp add: encode_with_def encode_to_def)

lemma envelope_decode_encode [simp, codec]: "envelope_decode (encode_with e p) = Some (e, p)"
  by (simp add: envelope_decode_def encode_with_def encode_to_def ENVELOPE_LEN_def slice_def)

lemma encode_with_inject [simp]: "encode_with e p = encode_with e' p' \<longleftrightarrow> e = e' \<and> p = p'"
  by (metis envelope_decode_encode option.inject prod.inject)

lemma head_decode_encode [simp, codec]: "head_decode (head_encode c d @ tail) = Some (c, d)"
  by (simp add: head_decode_def head_encode_def slice_def)

lemma encode_decode_envelope [codec]:
  assumes "envelope_decode v = Some (e, p)"
  shows "encode_with e p = v"
proof -
  have len: "19 \<le> length v" using assms by (auto simp: envelope_decode_def ENVELOPE_LEN_def split: if_splits)
  then have "v = (v ! 0) # drop 1 v" by (metis Cons_nth_drop_Suc One_nat_def drop0 gr_zeroI le_zero_eq zero_neq_numeral)
  also have "drop 1 v = slice 1 8 v @ slice 9 2 v @ slice 11 8 v @ drop 19 v"
    using len slice_split [of 1 8 v] slice_split [of 9 2 v] slice_split [of 11 8 v] by simp
  finally show ?thesis
    using assms len be_of_be(3) [OF length_slice [of 1 8 v]] be_of_be(1) [OF length_slice [of 9 2 v]]
      be_of_be(3) [OF length_slice [of 11 8 v]]
    by (auto simp: envelope_decode_def encode_with_def encode_to_def ENVELOPE_LEN_def split: if_splits)
qed

lemmas envelope_defs = envelope_new_def envelope_tombstone_def envelope_head_def with_ttl_def
  is_tombstone_def is_head_def rtype_def env_version_def

end
