(* ===== verification/Varint.thy ===== *)
theory Varint
  imports Prelude
begin

text \<open>
  Variable-length integers, seven bits to a byte, low bits first. \<open>merge.rs\<close>, \<open>ikey.rs\<close>, \<open>json.rs\<close>,
  \<open>pdoc.rs\<close> and \<open>protohead.rs\<close> of \<open>marekvs-core\<close> hold copies of the same two functions.
\<close>

unbundle bit_operations_syntax

section \<open>Definitions\<close>

function put_varint :: "u64 \<Rightarrow> bytes" where
  "put_varint v =
     (let b = ucast (v AND 0x7F) :: u8; v' = drop_bit 7 v
      in if v' = 0 then [b] else (b OR 0x80) # put_varint v')"
  by pat_completeness auto

termination put_varint
proof (relation "measure unat")
  fix v v' :: u64
  assume "v' = drop_bit 7 v" "v' \<noteq> 0"
  then have "unat v' = unat v div 128" by (simp add: drop_bit_eq_div unat_div)
  moreover have "0 < unat v'" using \<open>v' \<noteq> 0\<close> by (simp only: unat_gt_0 not_False_eq_True)
  ultimately show "(v', v) \<in> measure unat" by simp
qed simp

declare put_varint.simps [simp del]

text \<open>The loop of \<open>get_varint\<close> over the bytes that are left, at index \<open>i\<close>.\<close>

fun get_varint_from :: "bytes \<Rightarrow> nat \<Rightarrow> u64 \<Rightarrow> nat \<Rightarrow> (u64 \<times> nat) option" where
  "get_varint_from [] i v shift = None"
| "get_varint_from (b # bs) i v shift =
     (let v' = v OR push_bit shift (ucast (b AND 0x7F))
      in if b AND 0x80 = 0 then Some (v', i + 1)
         else if shift + 7 > 63 then None
         else get_varint_from bs (i + 1) v' (shift + 7))"

definition get_varint :: "bytes \<Rightarrow> (u64 \<times> nat) option" where
  "get_varint buf = get_varint_from buf 0 0 0"

section \<open>Round trip\<close>

lemma masks: "(0x7F :: u64) = mask 7" "(0x7F :: u8) = mask 7"
  by (simp_all add: mask_eq_exp_minus_1)

lemma bit_0x80: "bit (0x80 :: u8) n \<longleftrightarrow> n = 7"
  using bit_exp_iff [of 7 n, where 'a = u8] by auto

lemma low_byte:
  fixes v :: u64
  shows "ucast (v AND 0x7F) AND (0x80 :: u8) = 0"
    "(ucast (v AND 0x7F) OR 0x80) AND (0x80 :: u8) \<noteq> 0"
    "ucast ((ucast (v AND 0x7F) :: u8) AND 0x7F) = v AND 0x7F"
    "ucast ((ucast (v AND 0x7F) OR 0x80 :: u8) AND 0x7F) = v AND 0x7F"
proof -
  show "ucast (v AND 0x7F) AND (0x80 :: u8) = 0"
  proof (rule bit_word_eqI)
    fix n
    show "bit (ucast (v AND 0x7F) AND (0x80 :: u8)) n = bit (0 :: u8) n"
      unfolding bit_and_iff bit_0x80 masks by (auto simp: bit_simps)
  qed
  have "bit ((ucast (v AND 0x7F) OR 0x80) AND (0x80 :: u8)) 7"
    unfolding masks by (simp add: bit_simps bit_0x80)
  then show "(ucast (v AND 0x7F) OR 0x80) AND (0x80 :: u8) \<noteq> 0" by (metis bit_0_eq bot_apply bot_bool_def)
  show low: "ucast ((ucast (v AND 0x7F) :: u8) AND 0x7F) = v AND 0x7F"
    unfolding masks by (rule bit_word_eqI) (auto simp: bit_simps)
  have "(x OR 0x80) AND 0x7F = x AND (0x7F :: u8)" for x
  proof (rule bit_word_eqI)
    fix n
    show "bit ((x OR 0x80) AND 0x7F) n = bit (x AND (0x7F :: u8)) n"
      unfolding bit_and_iff bit_or_iff bit_0x80 masks by (auto simp: bit_simps)
  qed
  with low show "ucast ((ucast (v AND 0x7F) OR 0x80 :: u8) AND 0x7F) = v AND 0x7F" by (simp only:)
qed

lemma recombine:
  fixes v :: u64
  shows "push_bit s (v AND 0x7F) OR push_bit (s + 7) (drop_bit 7 v) = push_bit s v"
proof (rule bit_word_eqI)
  fix n
  assume n: "n < LENGTH(64)"
  show "bit (push_bit s (v AND 0x7F) OR push_bit (s + 7) (drop_bit 7 v)) n = bit (push_bit s v) n"
  proof (cases "s + 7 \<le> n")
    case True
    then have "7 + (n - (s + 7)) = n - s" by simp
    with True n show ?thesis unfolding masks by (auto simp: bit_simps)
  next
    case False
    with n show ?thesis unfolding masks by (auto simp: bit_simps)
  qed
qed

lemma get_varint_from_put:
  "s \<le> 63 \<Longrightarrow> unat v < 2 ^ (64 - s) \<Longrightarrow>
   get_varint_from (put_varint v @ tail) i acc s = Some (acc OR push_bit s v, i + length (put_varint v))"
proof (induction v arbitrary: i acc s rule: put_varint.induct)
  case (1 v)
  show ?case
  proof (cases "drop_bit 7 v = 0")
    case True
    then have "push_bit s (v AND 0x7F) = push_bit s v" using recombine [of s v] by simp
    with True show ?thesis
      by (subst (1 2) put_varint.simps) (simp add: low_byte)
  next
    case False
    then have "128 \<le> unat v"
      by (simp add: drop_bit_eq_div word_unat_eq_iff unat_div)
    with "1.prems" have "(2 :: nat) ^ 7 < 2 ^ (64 - s)" by simp
    then have s: "s + 7 \<le> 63" using power_less_imp_less_exp [of "2 :: nat" 7 "64 - s"] by simp
    have "unat (drop_bit 7 v) < 2 ^ (64 - (s + 7))"
    proof -
      have "64 - s = 64 - (s + 7) + 7" using s by simp
      then have "(2 :: nat) ^ (64 - s) = 2 ^ (64 - (s + 7)) * 2 ^ 7" by (metis power_add)
      with "1.prems"(2) show ?thesis
        by (simp add: drop_bit_eq_div unat_div less_mult_imp_div_less)
    qed
    note IH = "1.IH" [OF refl refl False s this]
    have put: "put_varint v = (ucast (v AND 0x7F) OR 0x80) # put_varint (drop_bit 7 v)"
      using False by (subst put_varint.simps) simp
    show ?thesis unfolding put using s
      by (simp add: low_byte IH or.assoc recombine del: push_bit_and)
  qed
qed

lemma get_put_varint [simp, codec]: "get_varint (put_varint v @ tail) = Some (v, length (put_varint v))"
  using get_varint_from_put [of 0 v tail 0 0] unat_bound(4) [of v] by (simp add: get_varint_def)

lemma get_put_varint_Nil [simp]: "get_varint (put_varint v) = Some (v, length (put_varint v))"
  using get_put_varint [of v "[]"] by simp

lemma put_varint_prefix_free:
  assumes "put_varint v @ xs = put_varint w @ ys"
  shows "v = w" "xs = ys"
proof -
  show "v = w" using get_put_varint [of v xs] get_put_varint [of w ys] assms by simp
  with assms show "xs = ys" by simp
qed

lemma put_varint_not_Nil [simp]: "put_varint v \<noteq> []"
  by (subst put_varint.simps) (simp add: Let_def)

end
