(* ===== verification/Sorted_Lists.thy ===== *)
theory Sorted_Lists
  imports Prelude
begin

text \<open>
  Descending sorts, \<open>Vec::dedup_by\<close> and \<open>Vec::truncate\<close> as the merge code uses them, and the
  fact the convergence proofs turn on: after sorting and removing duplicates a list is
  determined by its set of elements.
\<close>

section \<open>Sorting in descending order of a key\<close>

fun insert_desc :: "('a \<Rightarrow> 'k::linorder) \<Rightarrow> 'a \<Rightarrow> 'a list \<Rightarrow> 'a list" where
  "insert_desc k x [] = [x]"
| "insert_desc k x (y # ys) = (if k y \<le> k x then x # y # ys else y # insert_desc k x ys)"

definition sort_desc :: "('a \<Rightarrow> 'k::linorder) \<Rightarrow> 'a list \<Rightarrow> 'a list" where
  "sort_desc k xs = foldr (insert_desc k) xs []"

text \<open>\<open>dedup_by\<close> keeps the first element of every run with equal keys.\<close>

fun dedup_by :: "('a \<Rightarrow> 'k) \<Rightarrow> 'a list \<Rightarrow> 'a list" where
  "dedup_by k [] = []"
| "dedup_by k [x] = [x]"
| "dedup_by k (x # y # xs) = (if k x = k y then dedup_by k (x # xs) else x # dedup_by k (y # xs))"

definition canon :: "('a \<Rightarrow> 'k::linorder) \<Rightarrow> 'a list \<Rightarrow> 'a list" where
  "canon k xs = dedup_by k (sort_desc k xs)"

abbreviation desc :: "('a \<Rightarrow> 'k::linorder) \<Rightarrow> 'a list \<Rightarrow> bool" where
  "desc k \<equiv> sorted_wrt (\<lambda>a b. k b \<le> k a)"

abbreviation strictly_desc :: "('a \<Rightarrow> 'k::linorder) \<Rightarrow> 'a list \<Rightarrow> bool" where
  "strictly_desc k \<equiv> sorted_wrt (\<lambda>a b. k b < k a)"

lemma set_insert_desc [simp]: "set (insert_desc k x xs) = insert x (set xs)"
  by (induction xs) auto

lemma set_sort_desc [simp]: "set (sort_desc k xs) = set xs"
  by (induction xs) (simp_all add: sort_desc_def)

lemma length_insert_desc [simp]: "length (insert_desc k x xs) = Suc (length xs)"
  by (induction xs) auto

lemma length_sort_desc [simp]: "length (sort_desc k xs) = length xs"
  by (induction xs) (simp_all add: sort_desc_def)

lemma desc_insert_desc: "desc k xs \<Longrightarrow> desc k (insert_desc k x xs)"
  by (induction xs) (auto dest: order_trans)

lemma desc_sort_desc: "desc k (sort_desc k xs)"
  by (induction xs) (simp_all add: sort_desc_def desc_insert_desc)

lemma sort_desc_id: "desc k xs \<Longrightarrow> sort_desc k xs = xs"
proof (induction xs)
  case Nil
  then show ?case by (simp add: sort_desc_def)
next
  case (Cons x xs)
  then have "sort_desc k (x # xs) = insert_desc k x xs" by (simp add: sort_desc_def)
  with Cons.prems show ?case by (cases xs) auto
qed

lemma set_dedup_by_subset: "set (dedup_by k xs) \<subseteq> set xs"
  by (induction k xs rule: dedup_by.induct) auto

lemma keys_dedup_by: "k ` set (dedup_by k xs) = k ` set xs"
  by (induction k xs rule: dedup_by.induct) auto

lemma length_dedup_by: "length (dedup_by k xs) \<le> length xs"
  by (induction k xs rule: dedup_by.induct) auto

lemma strictly_desc_dedup_by: "desc k xs \<Longrightarrow> strictly_desc k (dedup_by k xs)"
proof (induction k xs rule: dedup_by.induct)
  case (3 k x y xs)
  show ?case
  proof (cases "k x = k y")
    case True
    with 3 show ?thesis by simp
  next
    case False
    have "\<forall>z \<in> set (y # xs). k z < k x"
      using 3(3) False by (auto simp: less_le)
    then have "\<forall>z \<in> set (dedup_by k (y # xs)). k z < k x"
      using set_dedup_by_subset by fastforce
    with 3 False show ?thesis by simp
  qed
qed simp_all

lemma dedup_by_id: "strictly_desc k xs \<Longrightarrow> dedup_by k xs = xs"
  by (induction k xs rule: dedup_by.induct) auto

lemma set_dedup_by: "inj_on k (set xs) \<Longrightarrow> set (dedup_by k xs) = set xs"
proof
  assume inj: "inj_on k (set xs)"
  show "set xs \<subseteq> set (dedup_by k xs)"
  proof
    fix x
    assume x: "x \<in> set xs"
    then have "k x \<in> k ` set (dedup_by k xs)" by (simp add: keys_dedup_by)
    then obtain y where "y \<in> set (dedup_by k xs)" "k x = k y" by blast
    with inj x set_dedup_by_subset [of k xs] show "x \<in> set (dedup_by k xs)"
      by (metis inj_onD subsetD)
  qed
qed (rule set_dedup_by_subset)

section \<open>Canonical lists\<close>

lemma strictly_desc_imp_desc: "strictly_desc k xs \<Longrightarrow> desc k xs"
  by (induction xs) (auto intro: less_imp_le)

lemma strictly_desc_distinct: "strictly_desc k xs \<Longrightarrow> distinct xs"
  by (induction xs) auto

lemma strictly_desc_inj: "strictly_desc k xs \<Longrightarrow> inj_on k (set xs)"
proof (induction xs)
  case (Cons x xs)
  then have "k x \<notin> k ` set xs" by force
  with Cons show ?case by (simp, blast)
qed simp

lemma strictly_desc_filter: "strictly_desc k xs \<Longrightarrow> strictly_desc k (filter P xs)"
  by (rule sorted_wrt_filter)

lemma strictly_desc_take: "strictly_desc k xs \<Longrightarrow> strictly_desc k (take n xs)"
  by (rule sorted_wrt_take)

lemma strictly_desc_unique:
  "strictly_desc k xs \<Longrightarrow> strictly_desc k ys \<Longrightarrow> set xs = set ys \<Longrightarrow> xs = ys"
proof (induction xs arbitrary: ys)
  case Nil
  then show ?case by simp
next
  case (Cons x xs)
  then obtain y ys' where ys: "ys = y # ys'" by (cases ys) auto
  have "x = y"
  proof (rule ccontr)
    assume "x \<noteq> y"
    with Cons.prems(3) ys have "x \<in> set ys'" "y \<in> set xs" by auto
    with Cons.prems ys have "k x < k y" "k y < k x" by auto
    then show False by simp
  qed
  with Cons.prems ys have "set xs = set ys'"
    by (auto dest!: strictly_desc_distinct)
  with Cons ys \<open>x = y\<close> show ?case by simp
qed

lemma strictly_desc_canon: "strictly_desc k (canon k xs)"
  by (simp add: canon_def strictly_desc_dedup_by desc_sort_desc)

lemma set_canon: "inj_on k (set xs) \<Longrightarrow> set (canon k xs) = set xs"
  by (simp add: canon_def set_dedup_by)

lemma set_canon_subset: "set (canon k xs) \<subseteq> set xs"
  using set_dedup_by_subset [of k "sort_desc k xs"] by (simp add: canon_def)

lemma canon_id: "strictly_desc k xs \<Longrightarrow> canon k xs = xs"
  by (simp add: canon_def sort_desc_id strictly_desc_imp_desc dedup_by_id)

lemma canon_cong: "inj_on k (set xs) \<Longrightarrow> set xs = set ys \<Longrightarrow> canon k xs = canon k ys"
  by (rule strictly_desc_unique [of k]) (simp_all add: strictly_desc_canon set_canon)

lemma length_canon: "inj_on k (set xs) \<Longrightarrow> length (canon k xs) = card (set xs)"
  using distinct_card [OF strictly_desc_distinct [OF strictly_desc_canon [of k xs]]]
  by (simp add: set_canon)

lemmas canon_simps = strictly_desc_canon set_canon canon_id length_canon

end
