(* ===== verification/Vectors.thy ===== *)
theory Vectors
  imports Prelude
begin

text \<open>
  Vectors that the code keeps sorted by a key and searches with \<open>binary_search_by_key\<close> (counter slots,
  per-node tables), and byte strings made of records of a fixed width.
\<close>

section \<open>Vectors sorted by a key\<close>

text \<open>\<open>binary_search_by_key\<close> on a vector that is sorted by the key: where the key is, or where it belongs.\<close>

datatype search_result = Found nat | Missing nat

definition binary_search_by_key :: "'k::linorder \<Rightarrow> ('a \<Rightarrow> 'k) \<Rightarrow> 'a list \<Rightarrow> search_result" where
  "binary_search_by_key x k xs =
     (let i = length (takeWhile (\<lambda>a. k a < x) xs)
      in if i < length xs \<and> k (xs ! i) = x then Found i else Missing i)"

definition insert_at :: "nat \<Rightarrow> 'a \<Rightarrow> 'a list \<Rightarrow> 'a list" where
  "insert_at i x xs = take i xs @ x # drop i xs"

abbreviation asc_keys :: "('k::linorder \<times> 'v) list \<Rightarrow> bool" where
  "asc_keys \<equiv> sorted_wrt (\<lambda>a b. fst a < fst b)"

lemma binary_search_cases:
  assumes "asc_keys xs"
  obtains (found) pre v post where "xs = pre @ (x, v) # post" "\<forall>a\<in>set pre. fst a < x" "\<forall>a\<in>set post. x < fst a"
      "binary_search_by_key x fst xs = Found (length pre)"
    | (missing) pre post where "xs = pre @ post" "\<forall>a\<in>set pre. fst a < x" "\<forall>a\<in>set post. x < fst a"
      "binary_search_by_key x fst xs = Missing (length pre)"
proof -
  define pre where "pre = takeWhile (\<lambda>a. fst a < x) xs"
  define rest where "rest = dropWhile (\<lambda>a. fst a < x) xs"
  have xs: "xs = pre @ rest" by (simp add: pre_def rest_def)
  have pre: "\<forall>a\<in>set pre. fst a < x" by (auto simp: pre_def dest: set_takeWhileD)
  have search: "binary_search_by_key x fst xs =
      (if length pre < length xs \<and> fst (xs ! length pre) = x then Found (length pre) else Missing (length pre))"
    by (simp add: binary_search_by_key_def pre_def Let_def)
  show thesis
  proof (cases rest)
    case Nil
    then show ?thesis using missing [of pre "[]"] xs pre search by simp
  next
    case (Cons a post)
    have ge: "x \<le> fst a" using Cons unfolding rest_def by (auto simp: dropWhile_eq_Cons_conv not_less)
    have post: "\<forall>b\<in>set post. fst a < fst b" using assms xs Cons by (simp add: sorted_wrt_append)
    show ?thesis
    proof (cases "fst a = x")
      case True
      then show ?thesis using found [of pre "snd a" post] xs pre search Cons post by auto
    next
      case False
      then have "\<forall>b\<in>set rest. x < fst b" using Cons ge post by auto
      then show ?thesis using missing [of pre rest] xs pre search Cons False by simp
    qed
  qed
qed

lemma asc_keys_distinct: "asc_keys xs \<Longrightarrow> distinct (map fst xs)"
  by (induction xs) auto

lemma sorted_wrt_unique_asc:
  "asc_keys xs \<Longrightarrow> asc_keys ys \<Longrightarrow> set xs = set ys \<Longrightarrow> xs = ys"
proof (induction xs arbitrary: ys)
  case (Cons x xs)
  then obtain y ys' where ys: "ys = y # ys'" by (cases ys) auto
  have "x = y"
  proof (rule ccontr)
    assume "x \<noteq> y"
    with Cons.prems(3) ys have "x \<in> set ys'" "y \<in> set xs" by auto
    with Cons.prems ys have "fst x < fst y" "fst y < fst x" by auto
    then show False by simp
  qed
  moreover have "x \<notin> set xs" "y \<notin> set ys'" using Cons.prems ys by auto
  ultimately have "set xs = set ys'" using Cons.prems(3) ys by auto
  with Cons ys \<open>x = y\<close> show ?case by simp
qed simp

lemma asc_keys_unique:
  assumes "asc_keys xs" "asc_keys ys" "map_of xs = map_of ys"
  shows "xs = ys"
proof -
  have "set xs = set ys"
  proof (rule set_eqI)
    fix p show "p \<in> set xs \<longleftrightarrow> p \<in> set ys"
      using map_of_eq_Some_iff [OF asc_keys_distinct [OF assms(1)], of "fst p" "snd p"]
        map_of_eq_Some_iff [OF asc_keys_distinct [OF assms(2)], of "fst p" "snd p"] assms(3) by simp
  qed
  then show ?thesis using assms(1,2) by (rule sorted_wrt_unique_asc [rotated 2])
qed

text \<open>What an update in place and an insertion at the searched position do to the map that the vector is.\<close>

lemma upsert_found:
  assumes "asc_keys xs" "binary_search_by_key x fst xs = Found i"
  shows "asc_keys (xs[i := (x, v)])" "map_of (xs[i := (x, v)]) = (map_of xs)(x \<mapsto> v)"
    "i < length xs" "map_of xs x = Some (snd (xs ! i))" "fst (xs ! i) = x"
proof -
  obtain pre w post where xs: "xs = pre @ (x, w) # post" and i: "i = length pre"
    and lt: "\<forall>a\<in>set pre. fst a < x" "\<forall>a\<in>set post. x < fst a"
    by (rule binary_search_cases [OF assms(1), of x]) (use assms(2) in auto)
  have "x \<notin> fst ` set pre" "x \<notin> fst ` set post" using lt by auto
  then have none: "map_of pre x = None" "map_of post x = None" by (simp_all add: map_of_eq_None_iff)
  show "asc_keys (xs[i := (x, v)])" using assms(1) by (auto simp: xs i sorted_wrt_append)
  show "map_of (xs[i := (x, v)]) = (map_of xs)(x \<mapsto> v)"
    using none by (auto simp: xs i fun_eq_iff map_add_def split: option.splits)
  show "i < length xs" "map_of xs x = Some (snd (xs ! i))" "fst (xs ! i) = x"
    using none by (simp_all add: xs i map_add_def)
qed

lemma upsert_missing:
  assumes "asc_keys xs" "binary_search_by_key x fst xs = Missing i"
  shows "asc_keys (insert_at i (x, v) xs)" "map_of (insert_at i (x, v) xs) = (map_of xs)(x \<mapsto> v)"
    "map_of xs x = None" "i \<le> length xs"
proof -
  obtain pre post where xs: "xs = pre @ post" and i: "i = length pre"
    and lt: "\<forall>a\<in>set pre. fst a < x" "\<forall>a\<in>set post. x < fst a"
    by (rule binary_search_cases [OF assms(1), of x]) (use assms(2) in auto)
  have "x \<notin> fst ` set pre" "x \<notin> fst ` set post" using lt by auto
  then have none: "map_of pre x = None" "map_of post x = None" by (simp_all add: map_of_eq_None_iff)
  show "asc_keys (insert_at i (x, v) xs)"
    using assms(1) lt by (auto simp: xs i insert_at_def sorted_wrt_append)
  show "map_of (insert_at i (x, v) xs) = (map_of xs)(x \<mapsto> v)"
    using none by (auto simp: xs i insert_at_def fun_eq_iff map_add_def split: option.splits)
  show "map_of xs x = None" "i \<le> length xs" using none by (simp_all add: xs i)
qed

section \<open>Records of a fixed width\<close>

lemma slice_drop: "slice (p + q) n xs = slice q n (drop p xs)"
  by (simp add: slice_def add.commute)

lemma drop_fixed_records:
  assumes "\<And>x. x \<in> set xs \<Longrightarrow> length (f x) = w" "i < length xs"
  shows "drop (i * w) (concat (map f xs) @ tail) = f (xs ! i) @ concat (map f (drop (Suc i) xs)) @ tail"
  using assms
proof (induction xs arbitrary: i)
  case (Cons x xs)
  show ?case
  proof (cases i)
    case (Suc j)
    with Cons show ?thesis by simp
  qed simp
qed simp

lemma length_fixed_records: "(\<And>x. x \<in> set xs \<Longrightarrow> length (f x) = w) \<Longrightarrow> length (concat (map f xs)) = w * length xs"
  by (induction xs) auto

text \<open>A table of records of width \<open>w\<close> behind a header, read by position: the first \<open>n\<close> records come back.\<close>

lemma read_records:
  assumes shift: "\<And>bs p q. rd bs (p + q) = rd (drop p bs) q"
    and rd: "\<And>x t. rd (f x @ t) 0 = x" and w: "\<And>x. length (f x) = w" and n: "n \<le> length xs"
  shows "map (\<lambda>i. rd (hdr @ concat (map f xs) @ tail) (length hdr + i * w)) [0..<n] = take n xs"
proof (rule nth_equalityI)
  fix i
  assume "i < length (map (\<lambda>i. rd (hdr @ concat (map f xs) @ tail) (length hdr + i * w)) [0..<n])"
  with n have i: "i < n" "i < length xs" by simp_all
  have "rd (hdr @ concat (map f xs) @ tail) (length hdr + i * w) = rd (drop (i * w) (concat (map f xs) @ tail)) 0"
    using shift [of "hdr @ concat (map f xs) @ tail" "length hdr + i * w" 0] by simp
  also have "\<dots> = xs ! i"
    using i(2) w by (subst drop_fixed_records [where w = w]) (simp_all add: rd)
  finally show "map (\<lambda>i. rd (hdr @ concat (map f xs) @ tail) (length hdr + i * w)) [0..<n] ! i = take n xs ! i"
    using i by simp
qed (use n in simp)

end
