(* ===== verification/Convergence.thy ===== *)
theory Convergence
  imports Prelude
begin

text \<open>
  The interface between replication and the record types. Replication hands two copies of a
  record to a merge function and stores the result; it promises nothing about the order,
  the grouping or the number of deliveries. A record type keeps its side of the contract
  when its merge is a join on a set of records that may meet: closed, commutative,
  associative and idempotent there. Everything replication relies on follows once, here.
\<close>

locale convergent_merge =
  fixes merge :: "'a \<Rightarrow> 'a \<Rightarrow> 'a" and carrier :: "'a set"
  assumes closed: "x \<in> carrier \<Longrightarrow> y \<in> carrier \<Longrightarrow> merge x y \<in> carrier"
    and commute: "x \<in> carrier \<Longrightarrow> y \<in> carrier \<Longrightarrow> merge x y = merge y x"
    and assoc: "x \<in> carrier \<Longrightarrow> y \<in> carrier \<Longrightarrow> z \<in> carrier \<Longrightarrow>
      merge (merge x y) z = merge x (merge y z)"
    and idem: "x \<in> carrier \<Longrightarrow> merge x x = x"
begin

lemma fold_closed: "x \<in> carrier \<Longrightarrow> set ys \<subseteq> carrier \<Longrightarrow> foldl merge x ys \<in> carrier"
  by (induction ys arbitrary: x) (simp_all add: closed)

lemma absorb_left: "x \<in> carrier \<Longrightarrow> y \<in> carrier \<Longrightarrow> merge (merge x y) x = merge x y"
  by (metis assoc closed commute idem)

lemma absorb_right: "x \<in> carrier \<Longrightarrow> y \<in> carrier \<Longrightarrow> merge (merge x y) y = merge x y"
  by (metis assoc idem)

text \<open>A replica never changes when it sees an update again.\<close>

lemma fold_absorbs:
  "x \<in> carrier \<Longrightarrow> set ys \<subseteq> carrier \<Longrightarrow> z \<in> insert x (set ys) \<Longrightarrow>
    merge (foldl merge x ys) z = foldl merge x ys"
proof (induction ys arbitrary: z rule: rev_induct)
  case Nil
  then show ?case by (simp add: idem)
next
  case (snoc y ys)
  let ?m = "foldl merge x ys"
  have m: "?m \<in> carrier" and y: "y \<in> carrier" using snoc.prems by (auto intro: fold_closed)
  show ?case
  proof (cases "z = y")
    case True
    with m y show ?thesis by (simp add: absorb_right)
  next
    case False
    with snoc.prems have "merge ?m z = ?m" and z: "z \<in> carrier" by (auto intro!: snoc.IH)
    then have "merge (merge ?m y) z = merge ?m y" using m y
      by (metis assoc closed commute)
    then show ?thesis by simp
  qed
qed

lemma absorbs_fold:
  "m \<in> carrier \<Longrightarrow> x \<in> carrier \<Longrightarrow> set ys \<subseteq> carrier \<Longrightarrow>
    (\<And>z. z \<in> insert x (set ys) \<Longrightarrow> merge m z = m) \<Longrightarrow> merge m (foldl merge x ys) = m"
proof (induction ys rule: rev_induct)
  case Nil
  then show ?case by simp
next
  case (snoc y ys)
  then have "merge m (foldl merge x ys) = m" "merge m y = m" "foldl merge x ys \<in> carrier" "y \<in> carrier"
    by (auto intro: fold_closed)
  with snoc.prems(1) show ?case by (simp add: assoc [symmetric])
qed

text \<open>
  Strong eventual consistency: replicas that have received the same set of updates hold
  the same state, in whatever order and however often each update arrived.
\<close>

lemma convergence:
  assumes "x \<in> carrier" "set xs \<subseteq> carrier" "y \<in> carrier" "set ys \<subseteq> carrier"
    and same: "insert x (set xs) = insert y (set ys)"
  shows "foldl merge x xs = foldl merge y ys"
proof -
  let ?m = "foldl merge x xs" and ?n = "foldl merge y ys"
  have c: "?m \<in> carrier" "?n \<in> carrier" using assms by (auto intro: fold_closed)
  have "merge ?m ?n = ?m"
    using assms c fold_absorbs [of x xs] by (intro absorbs_fold) auto
  moreover have "merge ?n ?m = ?n"
    using assms c fold_absorbs [of y ys] by (intro absorbs_fold) auto
  ultimately show ?thesis using commute c by metis
qed

end

text \<open>
  How a record type meets the contract: its records are the images of abstract values that have a
  join, and merging two images gives the image of the join.
\<close>

lemma convergent_image:
  assumes "convergent_merge join S"
    and hom: "\<And>x y. x \<in> S \<Longrightarrow> y \<in> S \<Longrightarrow> merge (f x) (f y) = f (join x y)"
  shows "convergent_merge merge (f ` S)"
proof -
  note laws = assms(1) [unfolded convergent_merge_def]
  show ?thesis
  proof
    fix x y z
    assume "x \<in> f ` S" "y \<in> f ` S"
    then show "merge x y \<in> f ` S" "merge x y = merge y x" "merge x x = x"
      using laws hom by (auto simp: image_iff)
    assume "z \<in> f ` S"
    then show "merge (merge x y) z = merge x (merge y z)"
      using \<open>x \<in> f ` S\<close> \<open>y \<in> f ` S\<close> laws hom by auto
  qed
qed

lemma convergent_prod:
  assumes "convergent_merge j S" "convergent_merge k T"
  shows "convergent_merge (\<lambda>(a, b) (a', b'). (j a a', k b b')) (S \<times> T)"
  using assms unfolding convergent_merge_def by auto

lemma convergent_max: "convergent_merge max (UNIV :: 'a::linorder set)"
  by unfold_locales (simp_all add: ac_simps)

lemma convergent_Un: "convergent_merge (\<union>) (Pow L)"
  by unfold_locales auto

text \<open>Keeping the greater of two values in a total order is a join.\<close>

lemma convergent_total:
  assumes total: "\<And>x y. le x y \<or> le y x" and trans: "\<And>x y z. le x y \<Longrightarrow> le y z \<Longrightarrow> le x z"
    and antisym: "\<And>x y. x \<in> S \<Longrightarrow> y \<in> S \<Longrightarrow> le x y \<Longrightarrow> le y x \<Longrightarrow> x = y"
  shows "convergent_merge (\<lambda>x y. if le x y then y else x) S"
proof
  fix x y z
  assume S: "x \<in> S" "y \<in> S"
  then show "(if le x y then y else x) \<in> S" "(if le x y then y else x) = (if le y x then x else y)"
    "(if le x x then x else x) = x"
    using total antisym by auto
  assume "z \<in> S"
  then show "(if le (if le x y then y else x) z then z else if le x y then y else x) =
      (if le x (if le y z then z else y) then if le y z then z else y else x)"
    using trans [of x y z] trans [of x z y] total [of y z] by auto
qed

end
