(* ===== verification/Counter.thy ===== *)
theory Counter
  imports Vectors Convergence
begin

text \<open>
  \<open>marekvs-core/src/counter.rs\<close>: PN counters with one slot per node on top of a last-writer-wins base.
  Slots of the vector become a map from nodes to \<open>(pos, neg)\<close> in the proofs; on sorted vectors the two
  views determine each other.
\<close>

section \<open>Definitions\<close>

definition MAX_SLOTS :: nat where "MAX_SLOTS = 255"

type_synonym counter_slots = "(node_id \<times> u64 \<times> u64) list"

record counter_state =
  base_hlc :: u64
  base_origin :: node_id
  base :: i64
  slots :: counter_slots

definition on_base :: "u64 \<Rightarrow> node_id \<Rightarrow> i64 \<Rightarrow> counter_state" where
  "on_base h o' b = \<lparr>base_hlc = h, base_origin = o', base = b, slots = []\<rparr>"

definition base_version :: "counter_state \<Rightarrow> version" where
  "base_version s = (base_hlc s, base_origin s)"

text \<open>The sum is taken in 128 bits, where it cannot overflow; the result is checked against 64.\<close>

definition counter_sum :: "counter_state \<Rightarrow> int" where
  "counter_sum s = foldl (\<lambda>v (node, pos, neg). v + uint pos - uint neg) (sint (base s)) (slots s)"

definition counter_value :: "counter_state \<Rightarrow> i64 option" where
  "counter_value s =
     (let v = counter_sum s
      in if - (2 ^ 63) \<le> v \<and> v < 2 ^ 63 then Some (word_of_int v) else None)"

text \<open>\<open>i64::unsigned_abs\<close> is negation modulo \<open>2 ^ 64\<close> on negative values.\<close>

definition bump_slot :: "i64 \<Rightarrow> u64 \<times> u64 \<Rightarrow> u64 \<times> u64" where
  "bump_slot delta = (\<lambda>(pos, neg).
     if sint delta \<ge> 0 then (saturating_add64 pos delta, neg)
     else (pos, saturating_add64 neg (- delta)))"

definition bump :: "node_id \<Rightarrow> i64 \<Rightarrow> counter_state \<Rightarrow> counter_state" where
  "bump node delta s =
     (let (idx, sl) =
        (case binary_search_by_key node fst (slots s) of
           Found i \<Rightarrow> (i, slots s)
         | Missing i \<Rightarrow> (i, insert_at i (node, 0, 0) (slots s)))
      in s\<lparr>slots := sl[idx := (fst (sl ! idx), bump_slot delta (snd (sl ! idx)))]\<rparr>)"

definition join_slot :: "counter_slots \<Rightarrow> node_id \<times> u64 \<times> u64 \<Rightarrow> counter_slots" where
  "join_slot sl = (\<lambda>(node, pos, neg).
     (case binary_search_by_key node fst sl of
        Found i \<Rightarrow> (let (n, p, m) = sl ! i in sl[i := (n, max p pos, max m neg)])
      | Missing i \<Rightarrow> insert_at i (node, pos, neg) sl))"

definition join_slots :: "counter_state \<Rightarrow> counter_state \<Rightarrow> counter_state" where
  "join_slots s other = s\<lparr>slots := take MAX_SLOTS (foldl join_slot (slots s) (slots other))\<rparr>"

definition counter_merge :: "counter_state \<Rightarrow> counter_state \<Rightarrow> counter_state" where
  "counter_merge a b =
     (if base_version a > base_version b then a
      else if base_version a < base_version b then b
      else join_slots a b)"

definition encode_slot :: "node_id \<times> u64 \<times> u64 \<Rightarrow> bytes" where
  "encode_slot = (\<lambda>(node, pos, neg). be16 node @ be64 pos @ be64 neg)"

definition counter_encode :: "counter_state \<Rightarrow> bytes" where
  "counter_encode s =
     be64 (base_hlc s) @ be16 (base_origin s) @ be64 (base s) @ [of_nat (length (slots s))] @
     concat (map encode_slot (slots s))"

definition slot_at :: "bytes \<Rightarrow> nat \<Rightarrow> node_id \<times> u64 \<times> u64" where
  "slot_at payload p =
     (of_be16 (slice p 2 payload), of_be64 (slice (p + 2) 8 payload), of_be64 (slice (p + 10) 8 payload))"

definition counter_decode :: "bytes \<Rightarrow> counter_state option" where
  "counter_decode payload =
     (if length payload < 19 then None
      else let n = unat (payload ! 18)
           in if length payload < 19 + n * 18 then None
              else Some \<lparr>base_hlc = of_be64 (slice 0 8 payload),
                         base_origin = of_be16 (slice 8 2 payload),
                         base = of_be64 (slice 10 8 payload),
                         slots = map (\<lambda>i. slot_at payload (19 + i * 18)) [0..<n]\<rparr>)"

text \<open>A node applies a sequence of increments to its own copy.\<close>

fun bumps :: "node_id \<Rightarrow> i64 list \<Rightarrow> counter_state \<Rightarrow> counter_state" where
  "bumps n [] s = s"
| "bumps n (d # ds) s = bumps n ds (bump n d s)"

section \<open>Slots as a map\<close>

definition well_formed :: "counter_state \<Rightarrow> bool" where
  "well_formed s = (asc_keys (slots s) \<and> length (slots s) \<le> MAX_SLOTS)"

definition slot_join :: "u64 \<times> u64 \<Rightarrow> (u64 \<times> u64) option \<Rightarrow> u64 \<times> u64" where
  "slot_join v old = (case old of None \<Rightarrow> v | Some w \<Rightarrow> (max (fst w) (fst v), max (snd w) (snd v)))"

definition map_join :: "(node_id \<rightharpoonup> u64 \<times> u64) \<Rightarrow> (node_id \<rightharpoonup> u64 \<times> u64) \<Rightarrow> node_id \<rightharpoonup> u64 \<times> u64" where
  "map_join m m' = (\<lambda>n. case m' n of None \<Rightarrow> m n | Some v \<Rightarrow> Some (slot_join v (m n)))"

lemma join_slot_both:
  assumes "asc_keys sl"
  shows "asc_keys (join_slot sl (n, v)) \<and> map_of (join_slot sl (n, v)) = (map_of sl)(n \<mapsto> slot_join v (map_of sl n))"
proof (cases "binary_search_by_key n fst sl")
  case (Found i)
  note found = upsert_found [OF assms Found]
  obtain p m where nth: "sl ! i = (n, p, m)" using found(5) by (cases "sl ! i") auto
  have "join_slot sl (n, v) = sl[i := (n, max p (fst v), max m (snd v))]"
    by (simp add: join_slot_def Found nth split: prod.splits)
  then show ?thesis using found(1,2,4) nth by (simp add: slot_join_def)
next
  case (Missing i)
  note missing = upsert_missing [OF assms Missing]
  have "join_slot sl (n, v) = insert_at i (n, v) sl"
    by (simp add: join_slot_def Missing split: prod.splits)
  then show ?thesis using missing by (simp add: slot_join_def)
qed

lemmas join_slot_map = join_slot_both [THEN conjunct1] join_slot_both [THEN conjunct2]

lemma foldl_join_slot_map:
  assumes "asc_keys sl" "asc_keys sl'"
  shows "asc_keys (foldl join_slot sl sl')" "map_of (foldl join_slot sl sl') = map_join (map_of sl) (map_of sl')"
  using assms
proof (induction sl' arbitrary: sl)
  case Nil
  { case 1 then show ?case by simp }
  { case 2 then show ?case by (simp add: map_join_def) }
next
  case (Cons p sl')
  obtain n v where p: "p = (n, v)" by (cases p)
  { case 1 with Cons.IH(1) [OF join_slot_map(1) [of sl n v]] p show ?case by simp }
  { case 2
    have "n \<notin> fst ` set sl'" using 2 p by auto
    then have "map_of sl' n = None" by (simp add: map_of_eq_None_iff)
    with 2 Cons.IH(2) [OF join_slot_map(1) [of sl n v]] p show ?case
      by (auto simp: fun_eq_iff map_join_def join_slot_map) }
qed

lemma map_join_laws:
  "map_join m m' = map_join m' m"
  "map_join (map_join a b) c = map_join a (map_join b c)"
  "map_join m m = m"
  by (auto simp: fun_eq_iff map_join_def slot_join_def ac_simps split: option.splits)

lemma dom_map_join: "dom (map_join m m') = dom m \<union> dom m'"
  by (auto simp: map_join_def dom_def split: option.splits)

lemma slots_bound:
  assumes "asc_keys sl" "dom (map_of sl) \<subseteq> N" "finite N"
  shows "length sl \<le> card N"
proof -
  have "length sl = card (fst ` set sl)"
    using asc_keys_distinct [OF assms(1)] by (metis distinct_card length_map set_map)
  also have "\<dots> \<le> card N" using assms(2,3) by (simp add: card_mono dom_map_of_conv_image_fst)
  finally show ?thesis .
qed

section \<open>Convergence\<close>

text \<open>
  States that replicas of one counter can be in: sorted slots, nodes from one set of at most 255
  (\<open>MAX_SLOTS\<close>), and a base that its version determines.
\<close>

definition counter_universe :: "node_id set \<Rightarrow> (version \<Rightarrow> i64) \<Rightarrow> counter_state set" where
  "counter_universe N B =
     {s. asc_keys (slots s) \<and> dom (map_of (slots s)) \<subseteq> N \<and> card N \<le> MAX_SLOTS \<and> base s = B (base_version s)}"

lemma counter_universe_eqI:
  assumes "a \<in> counter_universe N B" "b \<in> counter_universe N B" "base_version a = base_version b"
    "map_of (slots a) = map_of (slots b)"
  shows "a = b"
  using assms asc_keys_unique [of "slots a" "slots b"]
  by (auto simp: counter_universe_def base_version_def)

lemma join_slots_universe:
  assumes "a \<in> counter_universe N B" "b \<in> counter_universe N B"
  shows "slots (join_slots a b) = foldl join_slot (slots a) (slots b)"
    "map_of (slots (join_slots a b)) = map_join (map_of (slots a)) (map_of (slots b))"
    "join_slots a b \<in> counter_universe N B" "base_version (join_slots a b) = base_version a"
proof -
  have wf: "asc_keys (slots a)" "asc_keys (slots b)" using assms by (auto simp: counter_universe_def)
  note fold = foldl_join_slot_map [OF wf]
  have "dom (map_of (foldl join_slot (slots a) (slots b))) \<subseteq> N"
    using assms by (simp add: fold(2) dom_map_join) (auto simp: counter_universe_def)
  moreover from slots_bound [OF fold(1) this] have "length (foldl join_slot (slots a) (slots b)) \<le> MAX_SLOTS"
    using assms by (auto simp: counter_universe_def intro: order_trans)
  ultimately show sl: "slots (join_slots a b) = foldl join_slot (slots a) (slots b)"
    and "join_slots a b \<in> counter_universe N B"
    using assms fold by (simp_all add: join_slots_def counter_universe_def base_version_def)
  show "map_of (slots (join_slots a b)) = map_join (map_of (slots a)) (map_of (slots b))"
    by (simp add: sl fold)
  show "base_version (join_slots a b) = base_version a"
    by (simp add: join_slots_def base_version_def)
qed

lemma counter_merge_closed:
  "a \<in> counter_universe N B \<Longrightarrow> b \<in> counter_universe N B \<Longrightarrow> counter_merge a b \<in> counter_universe N B"
  by (simp add: counter_merge_def join_slots_universe)

lemma base_version_merge:
  "a \<in> counter_universe N B \<Longrightarrow> b \<in> counter_universe N B \<Longrightarrow>
   base_version (counter_merge a b) = max (base_version a) (base_version b)"
  by (auto simp: counter_merge_def join_slots_universe max_def)

text \<open>The increments a state holds on top of the base with version \<open>V\<close>: none when its base is another one.\<close>

definition slots_on :: "version \<Rightarrow> counter_state \<Rightarrow> node_id \<rightharpoonup> u64 \<times> u64" where
  "slots_on V s = (if base_version s = V then map_of (slots s) else Map.empty)"

lemma map_join_empty [simp]: "map_join m Map.empty = m" "map_join Map.empty m = m"
  by (auto simp: map_join_def slot_join_def fun_eq_iff split: option.splits)

lemma slots_on_merge:
  assumes "a \<in> counter_universe N B" "b \<in> counter_universe N B" "base_version a \<le> V" "base_version b \<le> V"
  shows "slots_on V (counter_merge a b) = map_join (slots_on V a) (slots_on V b)"
  using assms(3,4) join_slots_universe(2,4) [OF assms(1,2)]
  by (auto simp: counter_merge_def slots_on_def)

lemma counter_eqI:
  assumes "a \<in> counter_universe N B" "b \<in> counter_universe N B" "base_version a = V" "base_version b = V"
    "slots_on V a = slots_on V b"
  shows "a = b"
  using assms counter_universe_eqI [of a N B b] by (simp add: slots_on_def)

interpretation pn: convergent_merge counter_merge "counter_universe N B" for N B
proof
  fix a b c
  assume a: "a \<in> counter_universe N B" and b: "b \<in> counter_universe N B"
  note simps = base_version_merge [of _ N B] slots_on_merge [of _ N B] map_join_laws(2)
  show ab: "counter_merge a b \<in> counter_universe N B" using a b by (rule counter_merge_closed)
  have ba: "counter_merge b a \<in> counter_universe N B" using b a by (rule counter_merge_closed)
  show "counter_merge a b = counter_merge b a"
    by (rule counter_eqI [OF ab ba, of "max (base_version a) (base_version b)"])
      (simp_all add: a b simps max.commute map_join_laws(1))
  show "counter_merge a a = a"
    by (rule counter_eqI [OF counter_merge_closed [OF a a] a, of "base_version a"])
      (simp_all add: a simps map_join_laws(3))
  assume c: "c \<in> counter_universe N B"
  have bc: "counter_merge b c \<in> counter_universe N B" using b c by (rule counter_merge_closed)
  show "counter_merge (counter_merge a b) c = counter_merge a (counter_merge b c)"
  proof -
    define V where "V = max (base_version a) (max (base_version b) (base_version c))"
    have V: "base_version a \<le> V" "base_version b \<le> V" "base_version c \<le> V"
      by (simp_all add: V_def le_max_iff_disj)
    show ?thesis
      by (rule counter_eqI [OF counter_merge_closed [OF ab c] counter_merge_closed [OF a bc], of V])
        (simp_all add: a b c ab bc simps V, simp_all add: V_def max.assoc)
  qed
qed

section \<open>The value\<close>

lemma counter_sum_eq:
  "counter_sum s = sint (base s) + (\<Sum>(n, p, m)\<leftarrow>slots s. uint p - uint m)"
proof -
  have "foldl (\<lambda>v (node, pos, neg). v + uint pos - uint neg) v sl = v + (\<Sum>(n, p, m)\<leftarrow>sl. uint p - uint m)"
    for v and sl :: counter_slots
    by (induction sl arbitrary: v) auto
  then show ?thesis by (simp add: counter_sum_def)
qed

text \<open>The sum over the vector is the sum over the map, over any set of nodes that has its domain.\<close>

definition slot_value :: "(u64 \<times> u64) option \<Rightarrow> int" where
  "slot_value v = (case v of None \<Rightarrow> 0 | Some (p, m) \<Rightarrow> uint p - uint m)"

lemma slots_sum_map:
  fixes sl :: counter_slots
  assumes "asc_keys sl"
  shows "(\<Sum>(n, p, m)\<leftarrow>sl. uint p - uint m) = (\<Sum>n\<in>UNIV. slot_value (map_of sl n))"
  using assms
proof (induction sl)
  case Nil
  then show ?case by (simp add: slot_value_def)
next
  case (Cons x sl)
  obtain n p m where x: "x = (n, p, m)" by (cases x)
  have "n \<notin> fst ` set sl" using Cons.prems x by auto
  then have none: "map_of sl n = None" by (simp add: map_of_eq_None_iff)
  have "(\<Sum>n'\<in>UNIV. slot_value (map_of (x # sl) n')) =
        slot_value (Some (p, m)) + (\<Sum>n'\<in>UNIV - {n}. slot_value (map_of (x # sl) n'))"
    using sum.remove [of UNIV n "\<lambda>n'. slot_value (map_of (x # sl) n')"] by (simp add: x)
  also have "(\<Sum>n'\<in>UNIV - {n}. slot_value (map_of (x # sl) n')) = (\<Sum>n'\<in>UNIV - {n}. slot_value (map_of sl n'))"
    by (rule sum.cong) (auto simp: x)
  also have "\<dots> = (\<Sum>n'\<in>UNIV. slot_value (map_of sl n'))"
    using sum.remove [of UNIV n "\<lambda>n'. slot_value (map_of sl n')"] by (simp add: none slot_value_def)
  finally show ?case using Cons x by (simp add: slot_value_def)
qed

lemma counter_sum_map:
  "asc_keys (slots s) \<Longrightarrow> counter_sum s = sint (base s) + (\<Sum>n\<in>UNIV. slot_value (map_of (slots s) n))"
  by (simp add: counter_sum_eq slots_sum_map)

section \<open>Increments\<close>

lemma bump_both:
  assumes "asc_keys (slots s)"
  shows "asc_keys (slots (bump node delta s)) \<and>
    map_of (slots (bump node delta s)) =
      (map_of (slots s))(node \<mapsto> bump_slot delta (case map_of (slots s) node of None \<Rightarrow> (0, 0) | Some v \<Rightarrow> v))"
proof (cases "binary_search_by_key node fst (slots s)")
  case (Found i)
  note found = upsert_found [OF assms Found]
  show ?thesis using found(1,2,4,5) by (simp add: bump_def Found)
next
  case (Missing i)
  note missing = upsert_missing [OF assms Missing]
  have "(insert_at i (node, 0, 0) (slots s)) ! i = (node, 0, 0)"
    "(insert_at i (node, 0, 0) (slots s))[i := v] = insert_at i v (slots s)" for v
    using missing(4) by (simp_all add: insert_at_def nth_append list_update_append)
  then show ?thesis using missing(1-3) by (simp add: bump_def Missing)
qed

lemmas bump_map = bump_both [THEN conjunct1] bump_both [THEN conjunct2]

lemma bump_base [simp]: "base_version (bump node delta s) = base_version s" "base (bump node delta s) = base s"
  by (simp_all add: bump_def base_version_def split: prod.splits)

text \<open>What one increment adds, unless the slot is at the end of its 64 bits.\<close>

definition room :: "i64 \<Rightarrow> u64 \<times> u64 \<Rightarrow> bool" where
  "room delta v = (if sint delta \<ge> 0 then uint (fst v) + sint delta < 2 ^ 64 else uint (snd v) - sint delta < 2 ^ 64)"

lemma sint_range: "- (2 ^ 63) \<le> sint d" "sint d < 2 ^ 63" for d :: i64
  using sint_greater_eq [of d] sint_less [of d] by simp_all

lemma uint_nonneg: "sint d \<ge> 0 \<Longrightarrow> uint d = sint d" for d :: i64
  using uint_word_of_int [of "sint d", where 'a = 64] sint_range(2) [of d] by simp

lemma uint_unsigned_abs: "sint d < 0 \<Longrightarrow> uint (- d) = - sint d" for d :: i64
  using uint_word_of_int [of "- sint d", where 'a = 64] sint_range(1) [of d] by simp

lemma uint_saturating_add64: "uint (saturating_add64 a b) = min (uint a + uint b) (2 ^ 64 - 1)"
proof -
  have "int (unat (saturating_add64 a b)) = int (min (unat a + unat b) (2 ^ 64 - 1))"
    by (simp only: unat_saturating_add64)
  then show ?thesis by (simp add: of_nat_min)
qed

lemma bump_slot_value:
  assumes "room delta v"
  shows "slot_value (Some (bump_slot delta v)) = slot_value (Some v) + sint delta"
proof (cases "sint delta \<ge> 0")
  case True
  with assms show ?thesis
    by (cases v) (simp add: room_def bump_slot_def slot_value_def uint_saturating_add64 uint_nonneg)
next
  case False
  with assms show ?thesis
    by (cases v) (simp add: room_def bump_slot_def slot_value_def uint_saturating_add64 uint_unsigned_abs)
qed

lemma counter_sum_bump:
  assumes "asc_keys (slots s)" "room delta (case map_of (slots s) node of None \<Rightarrow> (0, 0) | Some v \<Rightarrow> v)"
  shows "counter_sum (bump node delta s) = counter_sum s + sint delta"
proof -
  let ?m = "map_of (slots s)" and ?m' = "map_of (slots (bump node delta s))"
  have "slot_value (?m' node) = slot_value (?m node) + sint delta"
    using bump_slot_value [OF assms(2)]
    by (simp add: bump_map(2) [OF assms(1)]) (simp add: slot_value_def split: option.splits)
  moreover have "(\<Sum>n\<in>UNIV - {node}. slot_value (?m' n)) = (\<Sum>n\<in>UNIV - {node}. slot_value (?m n))"
    by (rule sum.cong) (simp_all add: bump_map(2) [OF assms(1)])
  ultimately have "(\<Sum>n\<in>UNIV. slot_value (?m' n)) = (\<Sum>n\<in>UNIV. slot_value (?m n)) + sint delta"
    using sum.remove [of UNIV node "\<lambda>n. slot_value (?m' n)"] sum.remove [of UNIV node "\<lambda>n. slot_value (?m n)"]
    by simp
  then show ?thesis using assms(1) bump_map(1) [OF assms(1)] by (simp add: counter_sum_map)
qed

text \<open>Increments only raise a slot, so a join with an older copy of the slot gives the newer one.\<close>

lemma bump_slot_mono: "fst v \<le> fst (bump_slot delta v)" "snd v \<le> snd (bump_slot delta v)"
  using unat_bound(4) [of "fst v"] unat_bound(4) [of "snd v"]
  by (auto simp: bump_slot_def word_le_nat_alt unat_saturating_add64 split: prod.splits)

lemma bump_grows:
  "asc_keys (slots s) \<Longrightarrow> map_join (map_of (slots s)) (map_of (slots (bump n d s))) = map_of (slots (bump n d s))"
  using bump_slot_mono [of "case map_of (slots s) n of None \<Rightarrow> (0, 0) | Some v \<Rightarrow> v" d]
  by (auto simp: bump_map(2) fun_eq_iff map_join_def slot_join_def max_def prod_eq_iff split: option.splits)

lemma bump_universe:
  "s \<in> counter_universe N B \<Longrightarrow> n \<in> N \<Longrightarrow> bump n d s \<in> counter_universe N B"
  using bump_map [of s n d] by (auto simp: counter_universe_def)

fun rooms :: "node_id \<Rightarrow> i64 list \<Rightarrow> counter_state \<Rightarrow> bool" where
  "rooms n [] s = True"
| "rooms n (d # ds) s =
     (room d (case map_of (slots s) n of None \<Rightarrow> (0, 0) | Some v \<Rightarrow> v) \<and> rooms n ds (bump n d s))"

lemma bumps_invariants:
  assumes "s \<in> counter_universe N B" "n \<in> N"
  shows "bumps n ds s \<in> counter_universe N B" "base_version (bumps n ds s) = base_version s"
    "n' \<noteq> n \<Longrightarrow> map_of (slots (bumps n ds s)) n' = map_of (slots s) n'"
    "map_join (map_of (slots s)) (map_of (slots (bumps n ds s))) = map_of (slots (bumps n ds s))"
    "rooms n ds s \<Longrightarrow> counter_sum (bumps n ds s) = counter_sum s + (\<Sum>d\<leftarrow>ds. sint d)"
  using assms
proof (induction ds arbitrary: s)
  case Nil
  { case 1 then show ?case by simp }
  { case 2 then show ?case by simp }
  { case 3 then show ?case by simp }
  { case 4 then show ?case by (simp add: map_join_laws(3)) }
  { case 5 then show ?case by simp }
next
  case (Cons d ds)
  have s': "bump n d t \<in> counter_universe N B" if "t \<in> counter_universe N B" "n \<in> N" for t
    using that by (rule bump_universe)
  have asc: "asc_keys (slots t)" if "t \<in> counter_universe N B" for t using that by (simp add: counter_universe_def)
  { case 1 with Cons.IH(1) [OF s'] show ?case by simp }
  { case 2 with Cons.IH(2) [OF s'] show ?case by simp }
  { case 3 with Cons.IH(3) [OF _ s'] show ?case by (simp add: bump_map(2) asc) }
  { case 4
    then show ?case
      using Cons.IH(4) [OF s'] bump_grows [OF asc] map_join_laws(2)
      by (metis bumps.simps(2)) }
  { case 5 with Cons.IH(5) [OF _ s'] show ?case by (simp add: counter_sum_bump asc) }
qed

text \<open>C11: no increment is lost. Two nodes that increment and decrement their own copies of a counter at the
  same time, any number of times each, agree after the merge on a value that has every one of the
  increments, as long as no slot runs out of its 64 bits and the counter has at most 255 slots.\<close>

theorem concurrent_increments_survive:
  assumes "s \<in> counter_universe N B" "n \<in> N" "n' \<in> N" "n \<noteq> n'" "rooms n ds s" "rooms n' ds' s"
  shows "counter_sum (counter_merge (bumps n ds s) (bumps n' ds' s)) =
         counter_sum s + (\<Sum>d\<leftarrow>ds. sint d) + (\<Sum>d\<leftarrow>ds'. sint d)"
proof -
  let ?a = "bumps n ds s" and ?b = "bumps n' ds' s"
  let ?m = "map_of (slots s)" and ?ma = "map_of (slots ?a)" and ?mb = "map_of (slots ?b)"
  note a = bumps_invariants [OF assms(1,2)] and b = bumps_invariants [OF assms(1,3)]
  note join = join_slots_universe [OF a(1) [of ds] b(1) [of ds']]
  have merge: "counter_merge ?a ?b = join_slots ?a ?b" by (simp add: counter_merge_def a(2) b(2))
  have "slot_value (map_join ?ma ?mb k) = slot_value (?ma k) + slot_value (?mb k) - slot_value (?m k)" for k
  proof (cases "k = n")
    case True
    then have "map_join ?ma ?mb k = map_join ?ma ?m k" using b(3) assms(4) by (simp add: map_join_def)
    then show ?thesis using a(4) b(3) True assms(4) by (simp add: map_join_laws(1))
  next
    case False
    then have "map_join ?ma ?mb k = map_join ?m ?mb k" using a(3) [of k ds] by (simp add: map_join_def split: option.splits)
    then show ?thesis using b(4) a(3) False by simp
  qed
  then have "(\<Sum>k\<in>UNIV. slot_value (map_join ?ma ?mb k)) =
      (\<Sum>k\<in>UNIV. slot_value (?ma k)) + (\<Sum>k\<in>UNIV. slot_value (?mb k)) - (\<Sum>k\<in>UNIV. slot_value (?m k))"
    by (simp add: sum.distrib sum_subtractf)
  moreover have "base ?a = base s" "base ?b = base s" "base (join_slots ?a ?b) = base s"
    using a(1,2) b(1,2) assms(1) by (simp_all add: counter_universe_def join_slots_def)
  moreover have "asc_keys (slots t)" if "t \<in> counter_universe N B" for t using that by (simp add: counter_universe_def)
  ultimately show ?thesis
    using a(5) [OF assms(5)] b(5) [OF assms(6)] join(2,3) assms(1) a(1) b(1)
    by (simp add: merge counter_sum_map)
qed

theorem concurrent_increments_survive_witness:
  "counter_sum (counter_merge (bumps 1 [5, - 2] (on_base 0 0 10)) (bumps 2 [7] (on_base 0 0 10))) = 20"
  using concurrent_increments_survive [of "on_base 0 0 10" "{1, 2}" "\<lambda>_. 10" 1 2 "[5, - 2]" "[7]"]
  by (simp add: on_base_def counter_universe_def MAX_SLOTS_def base_version_def room_def counter_sum_def
      bump_def binary_search_by_key_def Let_def insert_at_def bump_slot_def)

section \<open>Codec\<close>

lemma length_encode_slot [simp]: "length (encode_slot x) = 18"
  by (simp add: encode_slot_def split: prod.splits)

lemma slot_at_encode: "slot_at (encode_slot x @ tail) 0 = x"
  by (simp add: slot_at_def encode_slot_def slice_def split: prod.splits)

lemma slot_at_shift: "slot_at bs (p + q) = slot_at (drop p bs) q"
  by (simp add: slot_at_def slice_def add_ac)

text \<open>Reading back \<open>n\<close> slots gives the first \<open>n\<close> slots written.\<close>

lemma slots_roundtrip:
  assumes "n \<le> length sl" "length hdr = 19"
  shows "map (\<lambda>i. slot_at (hdr @ concat (map encode_slot sl) @ tail) (19 + i * 18)) [0..<n] = take n sl"
  using read_records [OF slot_at_shift slot_at_encode length_encode_slot assms(1), of hdr tail]
  by (simp add: assms(2))

text \<open>The general round trip: the slot count is written modulo 256.\<close>

lemma counter_decode_encode_mod:
  "counter_decode (counter_encode s @ tail) = Some (s\<lparr>slots := take (length (slots s) mod 256) (slots s)\<rparr>)"
proof -
  define hdr where
    "hdr = be64 (base_hlc s) @ be16 (base_origin s) @ be64 (base s) @ [of_nat (length (slots s)) :: u8]"
  have len: "length hdr = 19" by (simp add: hdr_def)
  have bytes: "counter_encode s @ tail = hdr @ concat (map encode_slot (slots s)) @ tail"
    by (simp add: counter_encode_def hdr_def)
  have n: "unat (hdr ! 18) = length (slots s) mod 256"
    by (simp add: hdr_def nth_append unat_of_nat take_bit_eq_mod)
  have total: "length (concat (map encode_slot (slots s))) = 18 * length (slots s)"
    by (rule length_fixed_records) simp
  have le: "length (slots s) mod 256 \<le> length (slots s)" by simp
  have "slice 0 8 (hdr @ x) = be64 (base_hlc s)" "slice 8 2 (hdr @ x) = be16 (base_origin s)"
    "slice 10 8 (hdr @ x) = be64 (base s)" for x
    by (simp_all add: hdr_def slice_def)
  then show ?thesis
    using le len
    by (simp add: bytes counter_decode_def Let_def nth_append n total slots_roundtrip)
qed

text \<open>Counters survive the trip through storage. A state with at most 255 slots is read back exactly as
  it was written, whatever bytes follow it.\<close>

theorem counter_roundtrip:
  assumes "length (slots s) \<le> MAX_SLOTS"
  shows "counter_decode (counter_encode s @ tail) = Some s"
  using assms by (simp add: counter_decode_encode_mod MAX_SLOTS_def)

theorem counter_roundtrip_witness:
  "counter_decode (counter_encode (on_base 3 4 5\<lparr>slots := [(1, 10, 2), (7, 0, 3)]\<rparr>)) =
   Some (on_base 3 4 5\<lparr>slots := [(1, 10, 2), (7, 0, 3)]\<rparr>)"
  using counter_roundtrip [of "on_base 3 4 5\<lparr>slots := [(1, 10, 2), (7, 0, 3)]\<rparr>" "[]"]
  by (simp add: on_base_def MAX_SLOTS_def)

text \<open>C30: \<open>bump\<close> does not bound the number of slots, and the count is written as one byte. When 255 nodes have
  incremented a counter, the first increment of one more node makes the stored record read back with no
  slot at all: every increment on top of the base is gone.\<close>

theorem bump_past_limit_loses_slots:
  assumes "asc_keys (slots s)" "length (slots s) = MAX_SLOTS" "map_of (slots s) n = None"
  shows "counter_decode (counter_encode (bump n d s)) = Some (s\<lparr>slots := []\<rparr>)"
proof (cases "binary_search_by_key n fst (slots s)")
  case (Found i)
  then show ?thesis using upsert_found(4) [OF assms(1) Found] assms(3) by simp
next
  case (Missing i)
  have "length (slots (bump n d s)) = 256" "bump n d s\<lparr>slots := []\<rparr> = s\<lparr>slots := []\<rparr>"
    using assms(2) upsert_missing(4) [OF assms(1) Missing]
    by (simp_all add: bump_def Missing MAX_SLOTS_def insert_at_def)
  then show ?thesis using counter_decode_encode_mod [of "bump n d s" "[]"] by simp
qed

text \<open>A counter that the nodes 0 to 254 have incremented once each.\<close>

definition full_counter :: counter_state where
  "full_counter = (on_base 0 0 0)\<lparr>slots := map (\<lambda>i. (of_nat i, 1, 0)) [0..<255]\<rparr>"

lemma full_counter_asc: "asc_keys (slots full_counter)"
  by (simp add: full_counter_def sorted_wrt_map sorted_wrt_iff_nth_less word_less_nat_alt unat_of_nat
      take_bit_nat_eq_self)

lemma full_counter_missing: "map_of (slots full_counter) 300 = None"
proof -
  have "(300 :: u16) \<noteq> of_nat i" if "i < 255" for i
  proof
    assume "(300 :: u16) = of_nat i"
    then have "unat (300 :: u16) = unat (of_nat i :: u16)" by simp
    then show False using that by (simp add: unat_of_nat take_bit_nat_eq_self)
  qed
  then show ?thesis by (auto simp: full_counter_def map_of_eq_None_iff)
qed

theorem bump_past_limit_loses_slots_witness:
  "counter_decode (counter_encode (bump 300 1 full_counter)) = Some (on_base 0 0 0)"
proof -
  have "length (slots full_counter) = MAX_SLOTS" "full_counter\<lparr>slots := []\<rparr> = on_base 0 0 0"
    by (simp_all add: full_counter_def MAX_SLOTS_def on_base_def)
  with bump_past_limit_loses_slots [OF full_counter_asc _ full_counter_missing, of 1] show ?thesis by simp
qed

end
