(* ===== verification/Decimal.thy ===== *)
theory Decimal
  imports Prelude
begin

text \<open>
  Decimal integers as ASCII bytes: \<open>to_string\<close> on signed 64-bit integers and \<open>str::parse::<i64>\<close> /
  \<open>str::parse::<u64>\<close> of the standard library, as the code uses them for values, token ids and replies.
\<close>

section \<open>Definitions\<close>

definition digit :: "nat \<Rightarrow> u8" where "digit n = of_nat (48 + n)"

fun nat_digits :: "nat \<Rightarrow> bytes" where
  "nat_digits n = (if n < 10 then [digit n] else nat_digits (n div 10) @ [digit (n mod 10)])"

declare nat_digits.simps [simp del]

definition i64_to_string :: "i64 \<Rightarrow> bytes" where
  "i64_to_string d =
     (if sint d < 0 then 45 # nat_digits (nat (- sint d)) else nat_digits (nat (sint d)))"

definition u64_to_string :: "u64 \<Rightarrow> bytes" where
  "u64_to_string d = nat_digits (unat d)"

definition is_digit :: "u8 \<Rightarrow> bool" where
  "is_digit b = (48 \<le> b \<and> b \<le> 57)"

text \<open>The value of a string of digits; \<open>None\<close> for the empty string and for any other character.\<close>

definition digits_value :: "bytes \<Rightarrow> nat option" where
  "digits_value bs =
     (if bs \<noteq> [] \<and> list_all is_digit bs then Some (foldl (\<lambda>a b. a * 10 + (unat b - 48)) 0 bs) else None)"

section \<open>Round trip\<close>

lemma digit_props:
  assumes "n < 10"
  shows "unat (digit n) = 48 + n" "is_digit (digit n)"
proof -
  show u: "unat (digit n) = 48 + n"
    using assms by (simp add: digit_def unat_of_nat take_bit_nat_eq_self del: of_nat_add)
  then show "is_digit (digit n)" using assms by (simp add: is_digit_def word_le_nat_alt)
qed

lemma nat_digits_props: "nat_digits n \<noteq> []" "list_all is_digit (nat_digits n)"
  "foldl (\<lambda>a b. a * 10 + (unat b - 48)) 0 (nat_digits n) = n"
proof (induction n rule: nat_digits.induct)
  case (1 n)
  { case 1 show ?case by (subst nat_digits.simps) simp }
  { case 2 show ?case using "1"(2) digit_props(2) by (subst nat_digits.simps) simp }
  { case 3 show ?case using "1"(3) digit_props(1) by (subst nat_digits.simps) simp }
qed

lemma digits_value_nat_digits [simp]: "digits_value (nat_digits n) = Some n"
  by (simp add: digits_value_def nat_digits_props)

lemma nat_digits_inject: "nat_digits m = nat_digits n \<longleftrightarrow> m = n"
  by (metis digits_value_nat_digits option.inject)

lemma is_digit_nat_digits: "b \<in> set (nat_digits n) \<Longrightarrow> is_digit b"
  using nat_digits_props(2) by (simp add: list_all_iff)

end
