(* ===== verification/Merge.thy ===== *)
theory Merge
  imports Envelope Varint Sorted_Lists Counter Decimal
begin

text \<open>
  \<open>marekvs-core/src/merge.rs\<close>: the element state of sets, hashes and sorted sets (an ORSWOT per element,
  with bounded lists of live and covered dots), its codec, and the merge of two stored values.
\<close>

unbundle bit_operations_syntax

section \<open>Dots\<close>

definition MAX_LIVE_DOTS :: nat where "MAX_LIVE_DOTS = 4"
definition MAX_TOMB_DOTS :: nat where "MAX_TOMB_DOTS = 255"

datatype dot = Dot (dot_hlc: u64) (dot_origin: node_id)

text \<open>The derived \<open>Ord\<close> compares the fields in the order of their declaration.\<close>

instantiation dot :: linorder
begin

definition less_eq_dot :: "dot \<Rightarrow> dot \<Rightarrow> bool" where
  "a \<le> b \<longleftrightarrow> (dot_hlc a, dot_origin a) \<le> (dot_hlc b, dot_origin b)"

definition less_dot :: "dot \<Rightarrow> dot \<Rightarrow> bool" where
  "a < b \<longleftrightarrow> (dot_hlc a, dot_origin a) < (dot_hlc b, dot_origin b)"

instance
  by standard (auto simp: less_eq_dot_def less_dot_def dot.expand split: if_splits)

end

datatype merge_outcome = KeepLocal | TakeIncoming | Merged bytes

section \<open>Element state\<close>

record element_state =
  live :: "(dot \<times> bytes) list"
  covered :: "dot list"

definition is_dead :: "element_state \<Rightarrow> bool" where
  "is_dead s = (live s = [])"

definition state_value :: "element_state \<Rightarrow> bytes option" where
  "state_value s = (case live s of [] \<Rightarrow> None | (d, v) # _ \<Rightarrow> Some v)"

definition dots :: "element_state \<Rightarrow> dot list" where
  "dots s = map fst (live s)"

definition normalize :: "element_state \<Rightarrow> element_state" where
  "normalize s =
     (let cov = take MAX_TOMB_DOTS (canon id (covered s))
      in \<lparr>live = take MAX_LIVE_DOTS (filter (\<lambda>(d, _). d \<notin> set cov) (canon fst (live s))),
          covered = cov\<rparr>)"

definition encode_live :: "dot \<times> bytes \<Rightarrow> bytes" where
  "encode_live = (\<lambda>(d, v).
     be16 (dot_origin d) @ be64 (dot_hlc d) @ put_varint (of_nat (length v)) @ v)"

definition encode_dot :: "dot \<Rightarrow> bytes" where
  "encode_dot d = be16 (dot_origin d) @ be64 (dot_hlc d)"

definition state_encode :: "element_state \<Rightarrow> bytes" where
  "state_encode s =
     [of_nat (length (live s))] @ concat (map encode_live (live s)) @
     [of_nat (length (covered s))] @ concat (map encode_dot (covered s))"

definition dot_at :: "bytes \<Rightarrow> nat \<Rightarrow> dot" where
  "dot_at payload p = Dot (of_be64 (slice (p + 2) 8 payload)) (of_be16 (slice p 2 payload))"

text \<open>
  The loop over the live entries, from position \<open>pos\<close>. Positions are natural numbers: a length close to
  \<open>2 ^ 64\<close>, which no encoder writes, counts as too long for the payload. In the release build \<open>pos + vlen\<close>
  wraps there, the check passes and the slice panics.
\<close>

fun decode_live :: "bytes \<Rightarrow> nat \<Rightarrow> nat \<Rightarrow> ((dot \<times> bytes) list \<times> nat) option" where
  "decode_live payload 0 pos = Some ([], pos)"
| "decode_live payload (Suc n) pos =
     (if length payload < pos + 10 then None
      else case get_varint (drop (pos + 10) payload) of
             None \<Rightarrow> None
           | Some (vlen, adv) \<Rightarrow>
               let pos' = pos + 10 + adv
               in if length payload < pos' + unat vlen then None
                  else case decode_live payload n (pos' + unat vlen) of
                         None \<Rightarrow> None
                       | Some (rest, p) \<Rightarrow> Some ((dot_at payload pos, slice pos' (unat vlen) payload) # rest, p))"

definition state_decode :: "bytes \<Rightarrow> element_state option" where
  "state_decode payload =
     (case payload of
        [] \<Rightarrow> None
      | nlive # _ \<Rightarrow>
          (case decode_live payload (unat nlive) 1 of
             None \<Rightarrow> None
           | Some (lv, pos) \<Rightarrow>
               if length payload \<le> pos then None
               else let ncov = unat (payload ! pos); pos' = pos + 1
                    in if length payload < pos' + ncov * 10 then None
                       else Some \<lparr>live = lv, covered = map (\<lambda>i. dot_at payload (pos' + i * 10)) [0..<ncov]\<rparr>))"

section \<open>Element records\<close>

definition encode_element :: "record_type \<Rightarrow> version \<Rightarrow> u64 \<Rightarrow> element_state \<Rightarrow> bytes" where
  "encode_element rt ver ttl s =
     (let st = normalize s;
          fl = push_bit 2 (rtype_code rt);
          fl' = (if is_dead st then fl OR TOMBSTONE else fl)
      in encode_with \<lparr>flags = fl', hlc = fst ver, origin = snd ver, ttl_deadline_ms = ttl\<rparr> (state_encode st))"

definition element_add_with_dot :: "record_type \<Rightarrow> u64 \<Rightarrow> node_id \<Rightarrow> dot \<Rightarrow> bytes \<Rightarrow> bytes" where
  "element_add_with_dot rt h o' d v = encode_element rt (h, o') 0 \<lparr>live = [(d, v)], covered = []\<rparr>"

definition element_add :: "record_type \<Rightarrow> u64 \<Rightarrow> node_id \<Rightarrow> bytes \<Rightarrow> bytes" where
  "element_add rt h o' v = element_add_with_dot rt h o' (Dot h o') v"

definition element_add_ttl :: "record_type \<Rightarrow> u64 \<Rightarrow> node_id \<Rightarrow> bytes \<Rightarrow> u64 \<Rightarrow> bytes" where
  "element_add_ttl rt h o' v ttl = encode_element rt (h, o') ttl \<lparr>live = [(Dot h o', v)], covered = []\<rparr>"

definition element_set :: "record_type \<Rightarrow> u64 \<Rightarrow> node_id \<Rightarrow> bytes \<Rightarrow> dot list \<Rightarrow> bytes" where
  "element_set rt h o' v observed = encode_element rt (h, o') 0 \<lparr>live = [(Dot h o', v)], covered = observed\<rparr>"

definition element_remove :: "record_type \<Rightarrow> u64 \<Rightarrow> node_id \<Rightarrow> dot list \<Rightarrow> bytes" where
  "element_remove rt h o' observed = encode_element rt (h, o') 0 \<lparr>live = [], covered = observed\<rparr>"

definition element_value :: "bytes \<Rightarrow> bytes option" where
  "element_value payload = (case state_decode payload of None \<Rightarrow> None | Some st \<Rightarrow> state_value st)"

definition element_dots :: "bytes \<Rightarrow> dot list" where
  "element_dots payload = (case state_decode payload of None \<Rightarrow> [] | Some st \<Rightarrow> dots st)"

section \<open>Counter-valued fields\<close>

definition as_counter :: "bytes \<Rightarrow> counter_state option" where
  "as_counter v =
     (case counter_decode v of
        None \<Rightarrow> None
      | Some c \<Rightarrow> if slots c \<noteq> [] \<and> counter_encode c = v then Some c else None)"

definition fold_counter :: "counter_state option \<Rightarrow> dot \<times> bytes \<Rightarrow> counter_state option" where
  "fold_counter folded = (\<lambda>(_, v).
     (case as_counter v of
        None \<Rightarrow> folded
      | Some c \<Rightarrow> Some (case folded of None \<Rightarrow> c | Some acc \<Rightarrow> counter_merge acc c)))"

definition counter_field_state :: "bytes \<Rightarrow> counter_state option" where
  "counter_field_state payload =
     (case state_decode payload of
        None \<Rightarrow> None
      | Some st \<Rightarrow> foldl fold_counter None (live st))"

definition counter_field_value :: "bytes \<Rightarrow> i64 option" where
  "counter_field_value payload =
     (case counter_field_state payload of None \<Rightarrow> None | Some c \<Rightarrow> counter_value c)"

text \<open>\<open>Vec::retain\<close> with the list of origins seen so far.\<close>

fun retain_new_origins :: "node_id list \<Rightarrow> (dot \<times> bytes) list \<Rightarrow> (dot \<times> bytes) list" where
  "retain_new_origins seen [] = []"
| "retain_new_origins seen ((d, v) # xs) =
     (if dot_origin d \<in> set seen then retain_new_origins seen xs
      else (d, v) # retain_new_origins (seen @ [dot_origin d]) xs)"

definition collapse_per_origin :: "element_state \<Rightarrow> element_state" where
  "collapse_per_origin s = s\<lparr>live := retain_new_origins [] (live s)\<rparr>"

definition counter_field_set :: "u64 \<Rightarrow> node_id \<Rightarrow> bytes option \<Rightarrow> bytes \<Rightarrow> bytes" where
  "counter_field_set h o' prior mine =
     (let st = (case Option.bind prior state_decode of Some s \<Rightarrow> s | None \<Rightarrow> \<lparr>live = [], covered = []\<rparr>);
          st' = normalize (st\<lparr>live := live st @ [(Dot h o', mine)]\<rparr>)
      in encode_element RT_CounterField (h, o') 0 (collapse_per_origin st'))"

text \<open>What a client sees of a field: the folded counter in decimal, or the raw value.\<close>

definition element_display_value :: "record_type \<Rightarrow> bytes \<Rightarrow> bytes option" where
  "element_display_value rt payload =
     (if rt = RT_CounterField
      then case counter_field_value payload of
             Some n \<Rightarrow> Some (i64_to_string n)
           | None \<Rightarrow> element_value payload
      else element_value payload)"

section \<open>Merging two stored values\<close>

definition merge_lww :: "envelope \<Rightarrow> envelope \<Rightarrow> merge_outcome" where
  "merge_lww lenv ienv = (if env_version ienv > env_version lenv then TakeIncoming else KeepLocal)"

definition outcome_of :: "bytes \<Rightarrow> bytes \<Rightarrow> bytes \<Rightarrow> merge_outcome" where
  "outcome_of merged local incoming =
     (if merged = local then KeepLocal else if merged = incoming then TakeIncoming else Merged merged)"

definition winner_ttl :: "envelope \<Rightarrow> envelope \<Rightarrow> u64" where
  "winner_ttl lenv ienv =
     (if env_version ienv > env_version lenv then ttl_deadline_ms ienv else ttl_deadline_ms lenv)"

definition merge_counters :: "envelope \<Rightarrow> bytes \<Rightarrow> envelope \<Rightarrow> bytes \<Rightarrow> bytes \<Rightarrow> bytes \<Rightarrow> merge_outcome" where
  "merge_counters lenv lpay ienv ipay local incoming =
     (case (counter_decode lpay, counter_decode ipay) of
        (Some l, Some i) \<Rightarrow>
          let joined = counter_merge l i;
              ver = max (env_version lenv) (env_version ienv);
              env = \<lparr>flags = push_bit 2 (rtype_code RT_Counter), hlc = fst ver, origin = snd ver,
                     ttl_deadline_ms = winner_ttl lenv ienv\<rparr>
          in outcome_of (encode_with env (counter_encode joined)) local incoming
      | _ \<Rightarrow> merge_lww lenv ienv)"

definition merge_hll_registers :: "envelope \<Rightarrow> bytes \<Rightarrow> envelope \<Rightarrow> bytes \<Rightarrow> merge_outcome" where
  "merge_hll_registers lenv lpay ienv ipay =
     (case (lpay, ipay) of
        (l_rank # _, i_rank # _) \<Rightarrow>
          if l_rank > i_rank then KeepLocal
          else if l_rank < i_rank then TakeIncoming
          else if env_version lenv \<le> env_version ienv then KeepLocal else TakeIncoming
      | _ \<Rightarrow> merge_lww lenv ienv)"

definition merge_elements :: "envelope \<Rightarrow> bytes \<Rightarrow> envelope \<Rightarrow> bytes \<Rightarrow> bytes \<Rightarrow> bytes \<Rightarrow> merge_outcome" where
  "merge_elements lenv lpay ienv ipay local incoming =
     (case (state_decode lpay, state_decode ipay) of
        (Some l, Some i) \<Rightarrow>
          let rt = from_bits (max (rtype_code (rtype lenv)) (rtype_code (rtype ienv)));
              joined = normalize \<lparr>live = live l @ live i, covered = covered l @ covered i\<rparr>;
              joined' = (if rt = RT_CounterField then collapse_per_origin joined else joined);
              ver = max (env_version lenv) (env_version ienv)
          in outcome_of (encode_element rt ver (winner_ttl lenv ienv) joined') local incoming
      | _ \<Rightarrow> merge_lww lenv ienv)"

definition merge_values :: "bytes \<Rightarrow> bytes \<Rightarrow> merge_outcome" where
  "merge_values local incoming =
     (case envelope_decode local of
        None \<Rightarrow> TakeIncoming
      | Some (lenv, lpay) \<Rightarrow>
          (case envelope_decode incoming of
             None \<Rightarrow> KeepLocal
           | Some (ienv, ipay) \<Rightarrow>
               if rtype lenv = RT_Counter \<and> rtype ienv = RT_Counter \<and> \<not> is_tombstone lenv \<and> \<not> is_tombstone ienv
               then merge_counters lenv lpay ienv ipay local incoming
               else if rtype lenv = RT_HllRegister \<and> rtype ienv = RT_HllRegister \<and>
                       \<not> is_tombstone lenv \<and> \<not> is_tombstone ienv
               then merge_hll_registers lenv lpay ienv ipay
               else if is_head ienv \<or> is_head lenv \<or> \<not> is_or_element (rtype ienv)
               then merge_lww lenv ienv
               else merge_elements lenv lpay ienv ipay local incoming))"

definition resolve :: "bytes \<Rightarrow> bytes \<Rightarrow> merge_outcome \<Rightarrow> bytes" where
  "resolve local incoming outcome =
     (case outcome of KeepLocal \<Rightarrow> local | TakeIncoming \<Rightarrow> incoming | Merged m \<Rightarrow> m)"

text \<open>What a replica that holds \<open>local\<close> stores after it has received \<open>incoming\<close>.\<close>

definition merged_value :: "bytes \<Rightarrow> bytes \<Rightarrow> bytes" where
  "merged_value local incoming = resolve local incoming (merge_values local incoming)"

end
