(* ===== verification/Merge_Laws.thy ===== *)
theory Merge_Laws
  imports Merge
begin

text \<open>
  What the merge of \<open>merge.rs\<close> promises: element states survive their codec, and merging stored values is
  a join on the records that can meet, byte for byte, for every record type.
\<close>

section \<open>Element codec\<close>

lemma dot_at_encode: "dot_at (pre @ encode_dot d @ tail) (length pre) = d"
  by (cases d) (simp add: dot_at_def encode_dot_def slice_def)

lemma dot_at_shift: "dot_at bs (p + q) = dot_at (drop p bs) q"
  by (simp add: dot_at_def slice_def add_ac)

lemma length_encode_dot [simp]: "length (encode_dot d) = 10"
  by (simp add: encode_dot_def)

definition small_values :: "(dot \<times> bytes) list \<Rightarrow> bool" where
  "small_values xs = list_all (\<lambda>(d, v). length v < 2 ^ 64) xs"

lemma decode_live_encode:
  "small_values xs \<Longrightarrow>
   decode_live (pre @ concat (map encode_live xs) @ tail) (length xs) (length pre) =
     Some (xs, length pre + length (concat (map encode_live xs)))"
proof (induction xs arbitrary: pre)
  case (Cons x xs)
  obtain d v where x: "x = (d, v)" by (cases x)
  let ?rest = "concat (map encode_live xs) @ tail"
  let ?len = "put_varint (of_nat (length v))"
  have v: "unat (of_nat (length v) :: u64) = length v" "small_values xs"
    using Cons.prems by (simp_all add: small_values_def x unat_of_nat take_bit_nat_eq_self)
  have enc: "encode_live x = encode_dot d @ ?len @ v" by (simp add: x encode_live_def encode_dot_def)
  have dot: "dot_at (pre @ encode_dot d @ ?len @ v @ ?rest) (length pre) = d" by (rule dot_at_encode)
  have var: "get_varint (drop (length pre + 10) (pre @ encode_dot d @ ?len @ v @ ?rest)) =
      Some (of_nat (length v), length ?len)"
    by simp
  have slice: "slice (length pre + 10 + length ?len) (length v) (pre @ encode_dot d @ ?len @ v @ ?rest) = v"
    by (simp add: slice_def)
  have IH: "decode_live (pre @ encode_dot d @ ?len @ v @ ?rest) (length xs) (length pre + 10 + length ?len + length v) =
      Some (xs, length pre + length (concat (map encode_live (x # xs))))"
    using Cons.IH [OF v(2), of "pre @ encode_live x"] by (simp add: enc add_ac)
  show ?case
    using IH dot var slice v(1) by (simp add: enc) (simp add: x)
qed simp

lemma state_decode_encode:
  assumes "length (live s) \<le> 255" "length (covered s) \<le> 255" "small_values (live s)"
  shows "state_decode (state_encode s @ tail) = Some s"
proof -
  let ?lv = "concat (map encode_live (live s))" and ?cv = "concat (map encode_dot (covered s))"
  let ?n = "of_nat (length (live s)) :: u8" and ?m = "of_nat (length (covered s)) :: u8"
  have n: "unat ?n = length (live s)" "unat ?m = length (covered s)"
    using assms by (simp_all add: unat_of_nat take_bit_nat_eq_self)
  have bytes: "state_encode s @ tail = [?n] @ ?lv @ [?m] @ ?cv @ tail" by (simp add: state_encode_def)
  have live: "decode_live ([?n] @ ?lv @ [?m] @ ?cv @ tail) (length (live s)) 1 = Some (live s, 1 + length ?lv)"
    using decode_live_encode [OF assms(3), of "[?n]" "[?m] @ ?cv @ tail"] by simp
  have total: "length ?cv = 10 * length (covered s)" by (rule length_fixed_records) simp
  have "map (\<lambda>i. dot_at ([?n] @ ?lv @ [?m] @ ?cv @ tail) (1 + length ?lv + 1 + i * 10)) [0..<length (covered s)] = covered s"
    using read_records [OF dot_at_shift dot_at_encode [of "[]", simplified] length_encode_dot order_refl,
        of "[?n] @ ?lv @ [?m]" "covered s" tail] by simp
  then show ?thesis using n live total by (simp add: bytes state_decode_def nth_append)
qed

section \<open>Canonical element states\<close>

text \<open>
  An element is abstractly a set of added dots and a set of covered dots. Its canonical state lists the
  dots that are not covered, with the values they were added with, and the covered ones, both descending.
\<close>

definition desc_list :: "dot set \<Rightarrow> dot list" where
  "desc_list S = rev (sorted_list_of_set S)"

definition element_of :: "(dot \<Rightarrow> bytes) \<Rightarrow> dot set \<Rightarrow> dot set \<Rightarrow> element_state" where
  "element_of V D K = \<lparr>live = map (\<lambda>d. (d, V d)) (desc_list (D - K)), covered = desc_list K\<rparr>"

lemma set_desc_list [simp]: "finite S \<Longrightarrow> set (desc_list S) = S"
  by (simp add: desc_list_def)

lemma length_desc_list [simp]: "length (desc_list S) = card S"
  by (simp add: desc_list_def)

lemma strictly_desc_list: "strictly_desc id (desc_list S)"
  using strict_sorted_list_of_set [of S] by (simp add: desc_list_def sorted_wrt_rev)

lemma strictly_desc_live: "strictly_desc fst (map (\<lambda>d. (d, V d)) (desc_list S))"
  using strictly_desc_list [of S] by (simp add: sorted_wrt_map)

lemma normalize_eq_element_of:
  assumes "set (live s) = (\<lambda>d. (d, V d)) ` D" "set (covered s) = K" "card K \<le> 255" "card (D - K) \<le> 4"
  shows "normalize s = element_of V D K"
proof -
  have fin: "finite K" "finite D"
    using assms(1,2) finite_set [of "live s"] by (auto simp: inj_on_def dest: finite_imageD)
  have cov: "canon id (covered s) = desc_list K"
    by (rule strictly_desc_unique [OF strictly_desc_canon strictly_desc_list])
      (simp add: set_canon assms(2) fin)
  let ?lv = "filter (\<lambda>(d, _). d \<notin> K) (canon fst (live s))"
  have "inj_on fst (set (live s))" by (auto simp: assms(1) inj_on_def)
  then have "set ?lv = (\<lambda>d. (d, V d)) ` (D - K)" by (auto simp: set_canon assms(1))
  then have lv: "?lv = map (\<lambda>d. (d, V d)) (desc_list (D - K))"
    by (intro strictly_desc_unique [OF strictly_desc_filter [OF strictly_desc_canon] strictly_desc_live])
      (simp add: fin)
  show ?thesis
    using assms(3,4) by (simp add: normalize_def Let_def cov lv element_of_def MAX_TOMB_DOTS_def MAX_LIVE_DOTS_def fin)
qed

lemma element_of_minus: "element_of V (D - K) K = element_of V D K"
  by (simp add: element_of_def)

lemma normalize_element_of:
  assumes "finite D" "finite K" "card K \<le> 255" "card (D - K) \<le> 4"
  shows "normalize (element_of V D K) = element_of V D K"
  using normalize_eq_element_of [of "element_of V D K" V "D - K" K] assms
  by (simp add: element_of_minus) (simp add: element_of_def)

section \<open>Element records converge\<close>

text \<open>
  The records of one element that can meet: the adds are among \<open>L\<close>, the covered dots between \<open>K0\<close> and
  \<open>C\<close>, at most four adds are not covered everywhere and at most 255 dots are covered, so that neither cap
  takes effect. A dot determines the value it was added with and a version the deadline it was written with.
\<close>

type_synonym element_key = "version \<times> dot set \<times> dot set"

definition element_keys :: "record_type \<Rightarrow> (dot \<Rightarrow> bytes) \<Rightarrow> dot set \<Rightarrow> dot set \<Rightarrow> dot set \<Rightarrow> element_key set" where
  "element_keys rt V L K0 C =
     {(v, D, K). is_or_element rt \<and> rt \<noteq> RT_CounterField \<and> finite L \<and> finite C \<and> card (L - K0) \<le> 4 \<and> card C \<le> 255 \<and>
        (\<forall>d\<in>L. length (V d) < 2 ^ 64) \<and> D \<subseteq> L \<and> K0 \<subseteq> K \<and> K \<subseteq> C}"

definition element_record :: "record_type \<Rightarrow> (dot \<Rightarrow> bytes) \<Rightarrow> (version \<Rightarrow> u64) \<Rightarrow> element_key \<Rightarrow> bytes" where
  "element_record rt V T = (\<lambda>(v, D, K). encode_element rt v (T v) (element_of V D K))"

definition element_join :: "element_key \<Rightarrow> element_key \<Rightarrow> element_key" where
  "element_join = (\<lambda>(v, D, K) (v', D', K'). (max v v', D \<union> D', K \<union> K'))"

lemma element_join_convergent: "convergent_merge element_join (element_keys rt V L K0 C)"
  by unfold_locales (auto simp: element_join_def element_keys_def ac_simps)

lemma element_keys_bounds:
  assumes "(v, D, K) \<in> element_keys rt V L K0 C"
  shows "finite D" "finite K" "card K \<le> 255" "card (D - K) \<le> 4" "\<forall>d\<in>D. length (V d) < 2 ^ 64"
    "is_or_element rt" "rt \<noteq> RT_CounterField"
proof -
  have a: "finite L" "finite C" "card (L - K0) \<le> 4" "card C \<le> 255" "D \<subseteq> L" "K0 \<subseteq> K" "K \<subseteq> C"
    "\<forall>d\<in>L. length (V d) < 2 ^ 64" "is_or_element rt" "rt \<noteq> RT_CounterField"
    using assms by (auto simp: element_keys_def)
  show "finite D" "finite K" using a by (auto intro: finite_subset)
  show "card K \<le> 255" using a card_mono [of C K] by simp
  have "D - K \<subseteq> L - K0" using a by blast
  then show "card (D - K) \<le> 4" using a card_mono [of "L - K0" "D - K"] by simp
  show "\<forall>d\<in>D. length (V d) < 2 ^ 64" "is_or_element rt" "rt \<noteq> RT_CounterField" using a by auto
qed

lemma resolve_outcome_of [simp]: "resolve l i (outcome_of m l i) = m"
  by (simp add: resolve_def outcome_of_def)

text \<open>The envelope of an element record.\<close>

definition element_env :: "record_type \<Rightarrow> version \<Rightarrow> u64 \<Rightarrow> bool \<Rightarrow> envelope" where
  "element_env rt v ttl dead =
     \<lparr>flags = (if dead then push_bit 2 (rtype_code rt) OR TOMBSTONE else push_bit 2 (rtype_code rt)),
      hlc = fst v, origin = snd v, ttl_deadline_ms = ttl\<rparr>"

lemma TOMBSTONE_nonzero [simp]: "TOMBSTONE \<noteq> 0"
  by (simp add: TOMBSTONE_def)

lemma element_env_simps [simp]:
  "rtype (element_env rt v ttl dead) = rt" "\<not> is_head (element_env rt v ttl dead)"
  "env_version (element_env rt v ttl dead) = v" "ttl_deadline_ms (element_env rt v ttl dead) = ttl"
  "is_tombstone (element_env rt v ttl dead) = dead"
  by (simp_all add: element_env_def rtype_def is_head_def env_version_def is_tombstone_def del: drop_bit_or)

lemma encode_element_env:
  "encode_element rt v ttl s = encode_with (element_env rt v ttl (is_dead (normalize s))) (state_encode (normalize s))"
  by (simp add: encode_element_def element_env_def Let_def)

text \<open>What merging does to the element states themselves.\<close>

definition join_states :: "record_type \<Rightarrow> element_state \<Rightarrow> element_state \<Rightarrow> element_state" where
  "join_states rt l i =
     (let j = normalize \<lparr>live = live l @ live i, covered = covered l @ covered i\<rparr>
      in if rt = RT_CounterField then collapse_per_origin j else j)"

lemma merged_value_elements:
  assumes "is_or_element rt" "is_or_element rt'" "state_decode p = Some l" "state_decode q = Some i"
  shows "merged_value (encode_with (element_env rt v t dead) p) (encode_with (element_env rt' v' t' dead') q) =
    (let rt'' = from_bits (max (rtype_code rt) (rtype_code rt'))
     in encode_element rt'' (max v v') (if v' > v then t' else t) (join_states rt'' l i))"
proof -
  have "rt \<noteq> RT_Counter" "rt \<noteq> RT_HllRegister" using assms(1) by (auto simp: is_or_element_def)
  with assms show ?thesis
    by (simp add: merged_value_def merge_values_def merge_elements_def Let_def winner_ttl_def join_states_def)
qed

text \<open>A state that the code can have stored: normalising it changes nothing.\<close>

definition stored_state :: "element_state \<Rightarrow> bool" where
  "stored_state s = (normalize s = s \<and> small_values (live s))"

lemma normalize_bounds: "length (live (normalize s)) \<le> 4" "length (covered (normalize s)) \<le> 255"
  by (simp_all add: normalize_def Let_def MAX_LIVE_DOTS_def MAX_TOMB_DOTS_def)

lemma stored_state_decode:
  assumes "stored_state s"
  shows "state_decode (state_encode s) = Some s"
  using assms normalize_bounds [of s] state_decode_encode [of s "[]"] by (simp add: stored_state_def)

lemma merged_value_states_types:
  assumes "is_or_element rt" "is_or_element rt'" "stored_state l" "stored_state i"
  shows "merged_value (encode_element rt v t l) (encode_element rt' v' t' i) =
    (let rt'' = from_bits (max (rtype_code rt) (rtype_code rt'))
     in encode_element rt'' (max v v') (if v' > v then t' else t) (join_states rt'' l i))"
  using assms merged_value_elements [OF assms(1,2) stored_state_decode stored_state_decode]
  by (simp add: encode_element_env stored_state_def)

lemma merged_value_states:
  assumes "is_or_element rt" "stored_state l" "stored_state i"
  shows "merged_value (encode_element rt v t l) (encode_element rt v' t' i) =
    encode_element rt (max v v') (if v' > v then t' else t) (join_states rt l i)"
  using merged_value_states_types [OF assms(1) assms] by simp

lemma state_decode_element_of:
  assumes "(v, D, K) \<in> element_keys rt V L K0 C"
  shows "state_decode (state_encode (element_of V D K)) = Some (element_of V D K)"
proof -
  note b = element_keys_bounds [OF assms]
  have "small_values (live (element_of V D K))"
    using b(1,2,5) by (auto simp: small_values_def list_all_iff element_of_def)
  with b show ?thesis using state_decode_encode [of "element_of V D K" "[]"] by (simp add: element_of_def)
qed

lemma merged_value_element_record:
  assumes x: "x \<in> element_keys rt V L K0 C" and y: "y \<in> element_keys rt V L K0 C"
  shows "merged_value (element_record rt V T x) (element_record rt V T y) = element_record rt V T (element_join x y)"
proof -
  obtain v D K v' D' K' where xy: "x = (v, D, K)" "y = (v', D', K')" by (metis prod_cases3)
  have j: "(max v v', D \<union> D', K \<union> K') \<in> element_keys rt V L K0 C"
    using x y by (auto simp: xy element_keys_def)
  note b1 = element_keys_bounds [OF x [unfolded xy]] and b2 = element_keys_bounds [OF y [unfolded xy]]
    and bj = element_keys_bounds [OF j]
  let ?j = "\<lparr>live = live (element_of V D K) @ live (element_of V D' K'),
    covered = covered (element_of V D K) @ covered (element_of V D' K')\<rparr>"
  have minus: "(D - K) \<union> (D' - K') - (K \<union> K') = D \<union> D' - (K \<union> K')" by blast
  have "normalize ?j = element_of V ((D - K) \<union> (D' - K')) (K \<union> K')"
    by (rule normalize_eq_element_of) (use b1 b2 bj in \<open>auto simp: element_of_def minus\<close>)
  also have "\<dots> = element_of V (D \<union> D') (K \<union> K')"
    by (simp only: element_of_def minus)
  finally have norm: "normalize ?j = element_of V (D \<union> D') (K \<union> K')" .
  have ttl: "(if v' > v then T v' else T v) = T (max v v')" by (auto simp: max_def)
  note dec = state_decode_element_of [OF x [unfolded xy]] state_decode_element_of [OF y [unfolded xy]]
  show ?thesis
    unfolding xy element_record_def element_join_def prod.case encode_element_env [of rt v] encode_element_env [of rt v']
      normalize_element_of [OF b1(1-4)] normalize_element_of [OF b2(1-4)]
    by (simp only: merged_value_elements [OF b1(6) b1(6) dec] max.idem from_bits_code join_states_def Let_def b1(7)
        if_False norm ttl)
qed

definition element_records ::
  "record_type \<Rightarrow> (dot \<Rightarrow> bytes) \<Rightarrow> (version \<Rightarrow> u64) \<Rightarrow> dot set \<Rightarrow> dot set \<Rightarrow> dot set \<Rightarrow> bytes set" where
  "element_records rt V T L K0 C = element_record rt V T ` element_keys rt V L K0 C"

interpretation orset: convergent_merge merged_value "element_records rt V T L K0 C" for rt V T L K0 C
  unfolding element_records_def
  by (rule convergent_image [OF element_join_convergent]) (rule merged_value_element_record)

section \<open>What an element record shows\<close>

definition record_dots :: "bytes \<Rightarrow> dot list" where
  "record_dots b = (case envelope_decode b of None \<Rightarrow> [] | Some (_, p) \<Rightarrow> element_dots p)"

definition record_covered :: "bytes \<Rightarrow> dot list" where
  "record_covered b =
     (case envelope_decode b of None \<Rightarrow> [] | Some (_, p) \<Rightarrow> (case state_decode p of None \<Rightarrow> [] | Some s \<Rightarrow> covered s))"

definition record_value :: "bytes \<Rightarrow> bytes option" where
  "record_value b = (case envelope_decode b of None \<Rightarrow> None | Some (_, p) \<Rightarrow> element_value p)"

text \<open>The live dots of a stored record are the ones of its state.\<close>

lemma record_views:
  assumes "stored_state s"
  shows "record_dots (encode_element rt v t s) = map fst (live s)" "record_covered (encode_element rt v t s) = covered s"
    "record_value (encode_element rt v t s) = state_value s"
  using assms stored_state_decode [OF assms]
  by (simp_all add: record_dots_def record_covered_def record_value_def encode_element_env stored_state_def
      element_dots_def element_value_def dots_def)

section \<open>Where the bounds show\<close>

definition plain_state :: "dot list \<Rightarrow> dot list \<Rightarrow> element_state" where
  "plain_state ds ks = \<lparr>live = map (\<lambda>d. (d, [])) ds, covered = ks\<rparr>"

lemma stored_plain_state: "stored_state (plain_state ds ks) \<longleftrightarrow> normalize (plain_state ds ks) = plain_state ds ks"
  by (simp add: stored_state_def plain_state_def small_values_def list_all_iff)

text \<open>Four adds of a member, a fifth and older one, and a remove that covers the newest.\<close>

definition four_adds :: element_state where "four_adds = plain_state [Dot 5 1, Dot 4 1, Dot 3 1, Dot 2 1] []"
definition old_add :: element_state where "old_add = plain_state [Dot 1 1] []"
definition newest_removed :: element_state where "newest_removed = plain_state [] [Dot 5 1]"
definition three_left :: element_state where "three_left = plain_state [Dot 4 1, Dot 3 1, Dot 2 1] [Dot 5 1]"
definition four_left :: element_state where "four_left = plain_state [Dot 4 1, Dot 3 1, Dot 2 1, Dot 1 1] [Dot 5 1]"
definition old_left :: element_state where "old_left = plain_state [Dot 1 1] [Dot 5 1]"

lemma five_dots_stored:
  "stored_state four_adds" "stored_state old_add" "stored_state newest_removed" "stored_state three_left"
  "stored_state four_left" "stored_state old_left"
  unfolding four_adds_def old_add_def newest_removed_def three_left_def four_left_def old_left_def stored_plain_state
  by code_simp+

lemma five_dots_joins:
  "join_states RT_SetMember four_adds old_add = four_adds"
  "join_states RT_SetMember four_adds newest_removed = three_left"
  "join_states RT_SetMember old_add newest_removed = old_left"
  "join_states RT_SetMember four_adds old_left = four_left"
  by code_simp+

section \<open>The other record types converge\<close>

subsection \<open>Counters\<close>

definition counter_record :: "(version \<Rightarrow> u64) \<Rightarrow> version \<times> counter_state \<Rightarrow> bytes" where
  "counter_record T = (\<lambda>(v, s). encode_with (element_env RT_Counter v (T v) False) (counter_encode s))"

definition counter_records :: "(version \<Rightarrow> u64) \<Rightarrow> node_id set \<Rightarrow> (version \<Rightarrow> i64) \<Rightarrow> bytes set" where
  "counter_records T N B = counter_record T ` (UNIV \<times> counter_universe N B)"

lemma counter_universe_decode:
  assumes "s \<in> counter_universe N B"
  shows "counter_decode (counter_encode s) = Some s"
proof -
  have "length (slots s) \<le> 255"
    using assms slots_bound [of "slots s" N] by (simp add: counter_universe_def MAX_SLOTS_def)
  then show ?thesis using counter_decode_encode_mod [of s "[]"] by simp
qed

lemma merged_value_counter_record:
  assumes "x \<in> UNIV \<times> counter_universe N B" "y \<in> UNIV \<times> counter_universe N B"
  shows "merged_value (counter_record T x) (counter_record T y) =
    counter_record T ((\<lambda>(a, b) (a', b'). (max a a', counter_merge b b')) x y)"
proof -
  obtain v s v' s' where xy: "x = (v, s)" "y = (v', s')" by (metis prod.collapse)
  have dec: "counter_decode (counter_encode s) = Some s" "counter_decode (counter_encode s') = Some s'"
    using assms by (auto simp: xy intro: counter_universe_decode)
  show ?thesis
    by (simp add: xy counter_record_def merged_value_def merge_values_def merge_counters_def dec Let_def
        winner_ttl_def max_def) (simp add: element_env_def)
qed

interpretation pn_record: convergent_merge merged_value "counter_records T N B" for T N B
  unfolding counter_records_def
  by (rule convergent_image [OF convergent_prod [OF convergent_max pn.convergent_merge_axioms]])
    (rule merged_value_counter_record)

subsection \<open>HyperLogLog registers\<close>

definition hll_record :: "(version \<Rightarrow> u64) \<Rightarrow> u8 \<times> version \<Rightarrow> bytes" where
  "hll_record T = (\<lambda>(rank, v). encode_with (element_env RT_HllRegister v (T v) False) [rank])"

definition hll_join :: "u8 \<times> version \<Rightarrow> u8 \<times> version \<Rightarrow> u8 \<times> version" where
  "hll_join = (\<lambda>(r, v) (r', v'). (max r r', if r > r' then v else if r < r' then v' else min v v'))"

definition hll_le :: "u8 \<times> version \<Rightarrow> u8 \<times> version \<Rightarrow> bool" where
  "hll_le x y = (fst x < fst y \<or> fst x = fst y \<and> snd y \<le> snd x)"

lemma hll_join_le: "hll_join = (\<lambda>x y. if hll_le x y then y else x)"
  by (auto simp: fun_eq_iff hll_join_def hll_le_def max_def min_def)

lemma hll_join_convergent: "convergent_merge hll_join UNIV"
  unfolding hll_join_le
proof (rule convergent_total)
  fix x y :: "u8 \<times> version"
  show "hll_le x y \<or> hll_le y x" by (meson hll_le_def linear not_less_iff_gr_or_eq)
  show "hll_le x y \<Longrightarrow> hll_le y x \<Longrightarrow> x = y"
    unfolding hll_le_def by (auto simp: prod_eq_iff)
next
  fix x y z :: "u8 \<times> version"
  show "hll_le x y \<Longrightarrow> hll_le y z \<Longrightarrow> hll_le x z"
    unfolding hll_le_def by (elim disjE) (auto dest: less_trans order_trans)
qed

lemma merged_value_hll_record:
  "merged_value (hll_record T x) (hll_record T y) = hll_record T (hll_join x y)"
  by (cases x; cases y)
    (auto simp: hll_record_def hll_join_def merged_value_def merge_values_def merge_hll_registers_def
      resolve_def max_def min_def not_less split: if_splits)

interpretation hll: convergent_merge merged_value "range (hll_record T)" for T
  by (rule convergent_image [OF hll_join_convergent]) (rule merged_value_hll_record)

subsection \<open>Last writer wins\<close>

text \<open>A version determines what was written under it: the flags, the deadline and the payload.\<close>

definition lww_env :: "(version \<Rightarrow> u8 \<times> u64 \<times> bytes) \<Rightarrow> version \<Rightarrow> envelope" where
  "lww_env W v = \<lparr>flags = fst (W v), hlc = fst v, origin = snd v, ttl_deadline_ms = fst (snd (W v))\<rparr>"

definition lww_record :: "(version \<Rightarrow> u8 \<times> u64 \<times> bytes) \<Rightarrow> version \<Rightarrow> bytes" where
  "lww_record W v = encode_with (lww_env W v) (snd (snd (W v)))"

definition lww_versions :: "(version \<Rightarrow> u8 \<times> u64 \<times> bytes) \<Rightarrow> version set" where
  "lww_versions W =
     {v. rtype (lww_env W v) \<noteq> RT_Counter \<and> rtype (lww_env W v) \<noteq> RT_HllRegister \<and>
         (is_head (lww_env W v) \<or> \<not> is_or_element (rtype (lww_env W v)))}"

lemma max_convergent_on: "convergent_merge max (S :: 'a::linorder set)"
  by unfold_locales (auto simp: ac_simps max_def)

lemma merged_value_lww_record:
  assumes "v \<in> lww_versions W" "v' \<in> lww_versions W"
  shows "merged_value (lww_record W v) (lww_record W v') = lww_record W (max v v')"
proof -
  have "env_version (lww_env W v) = v" for v by (simp add: lww_env_def env_version_def)
  with assms show ?thesis
    by (auto simp: lww_record_def lww_versions_def merged_value_def merge_values_def merge_lww_def resolve_def max_def)
qed

interpretation lww: convergent_merge merged_value "lww_record W ` lww_versions W" for W
  by (rule convergent_image [OF max_convergent_on]) (rule merged_value_lww_record)

section \<open>Observed-remove semantics\<close>

lemma stored_element_of:
  assumes "(v, D, K) \<in> element_keys rt V L K0 C"
  shows "stored_state (element_of V D K)"
proof -
  note b = element_keys_bounds [OF assms]
  have "small_values (live (element_of V D K))"
    using b(1,2,5) by (auto simp: small_values_def list_all_iff element_of_def)
  with b show ?thesis by (simp add: stored_state_def normalize_element_of)
qed

lemma element_record_views:
  assumes "(v, D, K) \<in> element_keys rt V L K0 C"
  shows "record_dots (element_record rt V T (v, D, K)) = desc_list (D - K)"
    "record_covered (element_record rt V T (v, D, K)) = desc_list K"
  using record_views [OF stored_element_of [OF assms]]
  by (simp_all add: element_record_def element_of_def comp_def)

lemma merged_record_views:
  assumes "x \<in> element_records rt V T L K0 C" "y \<in> element_records rt V T L K0 C"
  shows "set (record_covered (merged_value x y)) = set (record_covered x) \<union> set (record_covered y)"
    "set (record_dots (merged_value x y)) =
       (set (record_dots x) \<union> set (record_dots y)) - (set (record_covered x) \<union> set (record_covered y))"
proof -
  obtain a b where ab: "x = element_record rt V T a" "a \<in> element_keys rt V L K0 C"
    "y = element_record rt V T b" "b \<in> element_keys rt V L K0 C"
    using assms by (auto simp: element_records_def)
  obtain v D K v' D' K' where k: "a = (v, D, K)" "b = (v', D', K')" by (metis prod_cases3)
  have j: "(max v v', D \<union> D', K \<union> K') \<in> element_keys rt V L K0 C"
    using ab by (auto simp: k element_keys_def)
  have m: "merged_value x y = element_record rt V T (max v v', D \<union> D', K \<union> K')"
    using merged_value_element_record [OF ab(2,4)] by (simp add: ab(1,3) k element_join_def)
  note views = element_record_views [OF ab(2) [unfolded k]] element_record_views [OF ab(4) [unfolded k]]
    element_record_views [OF j]
  note fin = element_keys_bounds(1,2) [OF ab(2) [unfolded k]] element_keys_bounds(1,2) [OF ab(4) [unfolded k]]
  show "set (record_covered (merged_value x y)) = set (record_covered x) \<union> set (record_covered y)"
    "set (record_dots (merged_value x y)) =
       (set (record_dots x) \<union> set (record_dots y)) - (set (record_covered x) \<union> set (record_covered y))"
    unfolding m by (simp_all add: ab(1,3) k views fin) blast
qed

lemma record_dots_uncovered:
  "x \<in> element_records rt V T L K0 C \<Longrightarrow> set (record_dots x) \<inter> set (record_covered x) = {}"
  using merged_record_views(2) [of x rt V T L K0 C x] orset.idem [of x rt V T L K0 C] by auto

lemma folded_record_views:
  assumes "x \<in> element_records rt V T L K0 C" "set ys \<subseteq> element_records rt V T L K0 C"
  shows "set (record_covered (foldl merged_value x ys)) = (\<Union>z\<in>insert x (set ys). set (record_covered z)) \<and>
    set (record_dots (foldl merged_value x ys)) =
      (\<Union>z\<in>insert x (set ys). set (record_dots z)) - (\<Union>z\<in>insert x (set ys). set (record_covered z))"
  using assms(2)
proof (induction ys rule: rev_induct)
  case Nil
  then show ?case using record_dots_uncovered [OF assms(1)] by auto
next
  case (snoc y ys)
  have "foldl merged_value x ys \<in> element_records rt V T L K0 C" "y \<in> element_records rt V T L K0 C"
    using snoc.prems assms(1) by (auto intro: orset.fold_closed)
  note step = merged_record_views [OF this]
  have IH: "set (record_covered (foldl merged_value x ys)) = (\<Union>z\<in>insert x (set ys). set (record_covered z))"
    "set (record_dots (foldl merged_value x ys)) =
      (\<Union>z\<in>insert x (set ys). set (record_dots z)) - (\<Union>z\<in>insert x (set ys). set (record_covered z))"
    using snoc by auto
  show ?case by (simp only: foldl_append foldl.simps step IH) auto
qed

section \<open>Counter fields\<close>

definition record_payload :: "bytes \<Rightarrow> bytes" where
  "record_payload b = (case envelope_decode b of None \<Rightarrow> [] | Some (_, p) \<Rightarrow> p)"

definition record_rtype :: "bytes \<Rightarrow> record_type" where
  "record_rtype b = (case envelope_decode b of None \<Rightarrow> RT_String | Some (e, _) \<Rightarrow> rtype e)"

definition one_live :: "dot \<Rightarrow> bytes \<Rightarrow> element_state" where
  "one_live d x = \<lparr>live = [(d, x)], covered = []\<rparr>"

lemma record_payload_element [simp]:
  "stored_state s \<Longrightarrow> record_payload (encode_element rt v t s) = state_encode s"
  "record_rtype (encode_element rt v t s) = rt"
  by (simp_all add: record_payload_def record_rtype_def encode_element_env stored_state_def)

lemma stored_one_live: "length x < 2 ^ 64 \<Longrightarrow> stored_state (one_live d x)"
  by (simp add: stored_state_def one_live_def normalize_def canon_def sort_desc_def small_values_def
      MAX_LIVE_DOTS_def MAX_TOMB_DOTS_def)

lemma normalize_two_live:
  "d' < d \<Longrightarrow> normalize \<lparr>live = [(d, x), (d', y)], covered = []\<rparr> = \<lparr>live = [(d, x), (d', y)], covered = []\<rparr>"
  "d' < d \<Longrightarrow> normalize \<lparr>live = [(d', y), (d, x)], covered = []\<rparr> = \<lparr>live = [(d, x), (d', y)], covered = []\<rparr>"
  by (auto simp: normalize_def canon_def sort_desc_def MAX_LIVE_DOTS_def MAX_TOMB_DOTS_def)

lemma element_add_one_live: "element_add rt h n x = encode_element rt (h, n) 0 (one_live (Dot h n) x)"
  by (simp add: element_add_def element_add_with_dot_def one_live_def)

lemma counter_field_set_first:
  "length x < 2 ^ 64 \<Longrightarrow> counter_field_set h n None x = encode_element RT_CounterField (h, n) 0 (one_live (Dot h n) x)"
  using stored_one_live [of x "Dot h n"]
  by (simp add: counter_field_set_def stored_state_def one_live_def collapse_per_origin_def)

lemma counter_field_set_again:
  assumes "length x < 2 ^ 64" "length y < 2 ^ 64" "h < h'"
  shows "counter_field_set h' n (Some (state_encode (one_live (Dot h n) x))) y =
    encode_element RT_CounterField (h', n) 0 (one_live (Dot h' n) y)"
proof -
  have "Dot h n < Dot h' n" using assms(3) by (simp add: less_dot_def)
  then have "normalize \<lparr>live = [(Dot h n, x), (Dot h' n, y)], covered = []\<rparr> =
      \<lparr>live = [(Dot h' n, y), (Dot h n, x)], covered = []\<rparr>"
    by (rule normalize_two_live(2))
  then show ?thesis
    using stored_state_decode [OF stored_one_live [OF assms(1)], of "Dot h n"]
    by (simp add: counter_field_set_def) (simp add: one_live_def collapse_per_origin_def)
qed

section \<open>The write operations produce such records\<close>

lemma encode_element_canonical:
  assumes "set (live s) = (\<lambda>d. (d, V d)) ` D" "set (covered s) = K" "card K \<le> 255" "card (D - K) \<le> 4"
  shows "encode_element rt v t s = encode_element rt v t (element_of V D K)"
proof -
  have "finite K" "finite D"
    using assms(1,2) finite_set [of "live s"] by (auto simp: inj_on_def dest: finite_imageD)
  with assms show ?thesis by (simp add: encode_element_env normalize_eq_element_of normalize_element_of)
qed

lemma element_ops_are_records:
  assumes "V (Dot h n) = x" "T (h, n) = 0"
  shows "element_add rt h n x = element_record rt V T ((h, n), {Dot h n}, {})"
    "card (set obs) \<le> 255 \<Longrightarrow>
       element_set rt h n x obs = element_record rt V T ((h, n), {Dot h n}, set obs)"
    "card (set obs) \<le> 255 \<Longrightarrow> element_remove rt h n obs = element_record rt V T ((h, n), {}, set obs)"
proof -
  have one: "card ({Dot h n} - K) \<le> 4" for K
    using card_Diff1_le by (cases "Dot h n \<in> K") (simp_all add: insert_Diff_if)
  show "element_add rt h n x = element_record rt V T ((h, n), {Dot h n}, {})"
    using one [of "{}"] assms by (auto simp: element_add_def element_add_with_dot_def element_record_def
        intro!: encode_element_canonical)
  show "card (set obs) \<le> 255 \<Longrightarrow>
       element_set rt h n x obs = element_record rt V T ((h, n), {Dot h n}, set obs)"
    using one [of "set obs"] assms by (auto simp: element_set_def element_record_def intro!: encode_element_canonical)
  show "card (set obs) \<le> 255 \<Longrightarrow> element_remove rt h n obs = element_record rt V T ((h, n), {}, set obs)"
    using assms by (auto simp: element_remove_def element_record_def intro!: encode_element_canonical)
qed

definition one_covered :: "dot \<Rightarrow> element_state" where
  "one_covered d = \<lparr>live = [], covered = [d]\<rparr>"

definition one_live_covered :: "dot \<Rightarrow> bytes \<Rightarrow> dot \<Rightarrow> element_state" where
  "one_live_covered d x d' = \<lparr>live = [(d, x)], covered = [d']\<rparr>"

lemma stored_one_covered: "stored_state (one_covered d)"
  by (simp add: stored_state_def one_covered_def normalize_def canon_def sort_desc_def small_values_def
      MAX_LIVE_DOTS_def MAX_TOMB_DOTS_def)

lemma stored_one_live_covered: "length x < 2 ^ 64 \<Longrightarrow> d \<noteq> d' \<Longrightarrow> stored_state (one_live_covered d x d')"
  by (simp add: stored_state_def one_live_covered_def normalize_def canon_def sort_desc_def small_values_def
      MAX_LIVE_DOTS_def MAX_TOMB_DOTS_def)

lemma element_remove_one: "element_remove rt h n [d] = encode_element rt (h, n) 0 (one_covered d)"
  by (simp add: element_remove_def one_covered_def)

lemma join_one_live_covered:
  "join_states RT_CounterField (one_live d x) (one_covered d) = one_covered d"
  "d \<noteq> d' \<Longrightarrow> join_states RT_CounterField (one_live d x) (one_covered d') = one_live_covered d x d'"
  "d \<noteq> d' \<Longrightarrow> join_states RT_CounterField (one_covered d') (one_live d x) = one_live_covered d x d'"
  by (simp_all add: join_states_def one_live_def one_covered_def one_live_covered_def normalize_def canon_def
      sort_desc_def collapse_per_origin_def MAX_LIVE_DOTS_def MAX_TOMB_DOTS_def)

lemma join_two_live:
  assumes "d' < d" "dot_origin d \<noteq> dot_origin d'"
  shows "join_states RT_CounterField (one_live d' y) (one_live d x) = \<lparr>live = [(d, x), (d', y)], covered = []\<rparr>"
  using assms normalize_two_live(2) [OF assms(1), of y x]
  by (simp add: join_states_def one_live_def collapse_per_origin_def)

lemma counter_field_type [simp]:
  "from_bits (max (rtype_code RT_CounterField) (rtype_code RT_HashField)) = RT_CounterField"
  "is_or_element RT_CounterField" "is_or_element RT_HashField"
  by (simp_all add: from_bits_def is_or_element_def)

lemma merged_value_counter_hash:
  assumes "stored_state l" "stored_state i"
  shows "merged_value (encode_element RT_CounterField v t l) (encode_element RT_HashField v' t' i) =
    encode_element RT_CounterField (max v v') (if v' > v then t' else t) (join_states RT_CounterField l i)"
  by (simp only: merged_value_states_types [OF counter_field_type(2,3) assms] counter_field_type(1) Let_def)

end
