(* ===== verification/Merge_Properties.thy ===== *)
theory Merge_Properties
  imports Merge_Laws
begin

text \<open>
  What replication may rely on when it merges two copies of a record, and where the bounds and the counter
  fields of \<open>merge.rs\<close> fall short of it.
\<close>

section \<open>Convergence\<close>

text \<open>The records of one key that can meet, by type of record.\<close>

inductive record_family :: "bytes set \<Rightarrow> bool" where
  elements: "record_family (element_records rt V T L K0 C)"
| counters: "record_family (counter_records T N B)"
| registers: "record_family (range (hll_record T))"
| last_writer: "record_family (lww_record W ` lww_versions W)"

lemma record_family_convergent: "record_family S \<Longrightarrow> convergent_merge merged_value S"
  by (induction rule: record_family.induct)
    (rule orset.convergent_merge_axioms pn_record.convergent_merge_axioms hll.convergent_merge_axioms
      lww.convergent_merge_axioms)+

text \<open>C1: replicas converge, byte for byte: two nodes that have received the same records of a key store the same
  bytes, in whatever order and however often each record arrived. This holds for the members of sets and sorted
  sets and for hash fields that are not counters, as long as all the records of the element together have at most
  four live dots beyond the commonly covered ones and at most 255 covered dots, and a dot determines its value and
  a version its deadline; for counter keys that at most 255 nodes increment; for HyperLogLog registers; and for
  everything under last-writer-wins (strings, heads, stream entries and their tombstones) where a version
  determines the record. Hash fields that HINCRBY has made counters are not included, nor are elements past the
  caps: the section on limits shows that it fails there.\<close>

theorem replicas_converge:
  assumes "record_family S" "x \<in> S" "set xs \<subseteq> S" "y \<in> S" "set ys \<subseteq> S" "insert x (set xs) = insert y (set ys)"
  shows "foldl merged_value x xs = foldl merged_value y ys"
  using convergent_merge.convergence [OF record_family_convergent [OF assms(1)]] assms(2-) by blast

lemma sample_member_records:
  "element_add RT_SetMember 1 1 [] \<in> element_records RT_SetMember (\<lambda>_. []) (\<lambda>_. 0) {Dot 1 1} {} {Dot 1 1}"
  "element_remove RT_SetMember 2 2 [Dot 1 1] \<in> element_records RT_SetMember (\<lambda>_. []) (\<lambda>_. 0) {Dot 1 1} {} {Dot 1 1}"
  unfolding element_records_def
  by (auto simp: element_ops_are_records [where V = "\<lambda>_. []" and T = "\<lambda>_. 0"] element_keys_def is_or_element_def)

theorem replicas_converge_witness:
  "foldl merged_value (element_add RT_SetMember 1 1 []) [element_remove RT_SetMember 2 2 [Dot 1 1]] =
   foldl merged_value (element_remove RT_SetMember 2 2 [Dot 1 1])
     [element_add RT_SetMember 1 1 [], element_remove RT_SetMember 2 2 [Dot 1 1]]"
  by (rule replicas_converge [OF record_family.elements [of RT_SetMember "\<lambda>_. []" "\<lambda>_. 0" "{Dot 1 1}" "{}" "{Dot 1 1}"]])
    (use sample_member_records in auto)

text \<open>C5: elements have observed-remove semantics. For the records of one set member, sorted-set member or hash
  field that is not a counter, with at most four live dots beyond the commonly covered ones and at most 255 covered
  dots among them: after any deliveries the live dots are exactly the dots that some record added and that no
  record covers, and the covered dots are exactly the ones some record covers. Within these bounds a removed add
  never comes back, and an add that no remove has observed is never lost.\<close>

theorem element_observed_remove:
  assumes "x \<in> element_records rt V T L K0 C" "set ys \<subseteq> element_records rt V T L K0 C"
  shows "set (record_covered (foldl merged_value x ys)) = (\<Union>z\<in>insert x (set ys). set (record_covered z)) \<and>
    set (record_dots (foldl merged_value x ys)) =
      (\<Union>z\<in>insert x (set ys). set (record_dots z)) - (\<Union>z\<in>insert x (set ys). set (record_covered z))"
  using assms by (rule folded_record_views)

theorem element_observed_remove_witness:
  "set (record_covered (foldl merged_value (element_add RT_SetMember 1 1 []) [element_remove RT_SetMember 2 2 [Dot 1 1]])) =
   set (record_covered (element_add RT_SetMember 1 1 [])) \<union> set (record_covered (element_remove RT_SetMember 2 2 [Dot 1 1]))"
  using element_observed_remove [of "element_add RT_SetMember 1 1 []" RT_SetMember "\<lambda>_. []" "\<lambda>_. 0" "{Dot 1 1}" "{}" "{Dot 1 1}"
      "[element_remove RT_SetMember 2 2 [Dot 1 1]]"] sample_member_records by simp

section \<open>Limits\<close>

text \<open>C29: the cap on live dots is not compatible with merging. With five adds of one member and a remove that
  covers the newest, the grouping of the merges decides whether the oldest add survives: the bytes of the
  two replicas differ.\<close>

theorem live_cap_not_associative:
  "let a = encode_element RT_SetMember (5, 1) 0 four_adds;
       b = encode_element RT_SetMember (1, 1) 0 old_add;
       c = encode_element RT_SetMember (6, 1) 0 newest_removed
   in record_dots (merged_value (merged_value a b) c) = [Dot 4 1, Dot 3 1, Dot 2 1] \<and>
      record_dots (merged_value a (merged_value b c)) = [Dot 4 1, Dot 3 1, Dot 2 1, Dot 1 1]"
  unfolding Let_def
  by (simp add: merged_value_states five_dots_joins five_dots_stored record_views is_or_element_def)
    (simp add: three_left_def four_left_def plain_state_def)

text \<open>C28: a deleted counter field returns. A node increments a field twice and deletes it. The second increment
  drops the first one's dot without covering it, so the delete covers the second dot only: any replica that
  still holds the first increment brings the field back, with its old state, in both directions of the
  merge.\<close>

theorem removed_counter_field_returns:
  assumes "length x < 2 ^ 64" "length y < 2 ^ 64" "h < h'"
  shows "let a = counter_field_set h n None x;
             b = counter_field_set h' n (Some (record_payload a)) y;
             c = merged_value b (element_remove RT_HashField h'' m (record_dots b))
         in record_dots c = [] \<and>
            record_dots (merged_value a c) = [Dot h n] \<and> record_value (merged_value a c) = Some x \<and>
            record_dots (merged_value c a) = [Dot h n] \<and> record_value (merged_value c a) = Some x"
proof -
  have ne: "Dot h n \<noteq> Dot h' n" using assms(3) by simp
  note stored = stored_one_live [OF assms(1)] stored_one_live [OF assms(2)] stored_one_covered
    stored_one_live_covered [OF assms(1) ne]
  let ?a = "counter_field_set h n None x"
  let ?b = "counter_field_set h' n (Some (record_payload ?a)) y"
  let ?c = "merged_value ?b (element_remove RT_HashField h'' m (record_dots ?b))"
  have a: "?a = encode_element RT_CounterField (h, n) 0 (one_live (Dot h n) x)"
    by (rule counter_field_set_first [OF assms(1)])
  have b: "?b = encode_element RT_CounterField (h', n) 0 (one_live (Dot h' n) y)"
    unfolding a record_payload_element(1) [OF stored(1)] by (rule counter_field_set_again [OF assms])
  have dots: "record_dots ?b = [Dot h' n]"
    unfolding b record_views(1) [OF stored(2)] by (simp add: one_live_def)
  have c: "?c = encode_element RT_CounterField (max (h', n) (h'', m)) 0 (one_covered (Dot h' n))"
    unfolding dots element_remove_one unfolding b
    by (simp add: merged_value_counter_hash stored join_one_live_covered)
  show ?thesis
    unfolding Let_def unfolding c unfolding a using ne
    by (simp add: merged_value_states stored join_one_live_covered record_views del: dot.inject)
      (simp add: one_covered_def one_live_covered_def state_value_def)
qed

theorem removed_counter_field_returns_witness:
  "record_dots (merged_value
     (merged_value (counter_field_set 20 1 (Some (record_payload (counter_field_set 10 1 None []))) [])
       (element_remove RT_HashField 30 2
         (record_dots (counter_field_set 20 1 (Some (record_payload (counter_field_set 10 1 None []))) []))))
     (counter_field_set 10 1 None [])) = [Dot 10 1]"
  using removed_counter_field_returns [of "[]" "[]" 10 20 1 30 2] by (simp add: Let_def)

text \<open>C27: a plain write over a counter field is not seen. \<open>HSET\<close> adds a dot and covers none, and the type of the
  record stays that of the counter; when the counter was last incremented by another node, its dot stays
  live and the field still reads as the counter, however new the plain value is.\<close>

theorem hset_over_counter_hidden:
  assumes "slots c \<noteq> []" "length (slots c) \<le> MAX_SLOTS" "counter_value c = Some v"
    "length (counter_encode c) < 2 ^ 64" "length x < 2 ^ 64" "as_counter x = None" "h < h'" "n \<noteq> n'"
  shows "let m = merged_value (counter_field_set h n None (counter_encode c)) (element_add RT_HashField h' n' x)
         in element_display_value (record_rtype m) (record_payload m) = Some (i64_to_string v)"
proof -
  have lt: "Dot h n < Dot h' n'" using assms(7) by (simp add: less_dot_def)
  let ?s = "\<lparr>live = [(Dot h' n', x), (Dot h n, counter_encode c)], covered = []\<rparr>"
  have stored: "stored_state ?s"
    using normalize_two_live(1) [OF lt] assms(4,5) by (simp add: stored_state_def small_values_def)
  have as: "as_counter (counter_encode c) = Some c"
    using assms(1,2) counter_decode_encode_mod [of c "[]"] by (simp add: as_counter_def MAX_SLOTS_def)
  have m: "merged_value (counter_field_set h n None (counter_encode c)) (element_add RT_HashField h' n' x) =
      encode_element RT_CounterField (max (h, n) (h', n')) 0 ?s"
    using join_two_live [OF lt] assms(4,5,8)
    by (simp add: counter_field_set_first element_add_one_live merged_value_counter_hash stored_one_live)
  have "counter_field_value (state_encode ?s) = Some v"
    using stored_state_decode [OF stored] as assms(3,6)
    by (simp add: counter_field_value_def counter_field_state_def fold_counter_def)
  then show ?thesis
    by (simp add: Let_def m stored element_display_value_def)
qed

theorem hset_over_counter_hidden_witness:
  "element_display_value RT_CounterField
     (record_payload (merged_value (counter_field_set 10 2 None (counter_encode (bump 2 7 (on_base 0 0 0))))
        (element_add RT_HashField 20 1 [53]))) = Some (i64_to_string 7) \<and> i64_to_string 7 = [55]"
proof -
  have c: "bump 2 7 (on_base 0 0 0) = on_base 0 0 0\<lparr>slots := [(2, 7, 0)]\<rparr>"
    by (simp add: bump_def on_base_def binary_search_by_key_def insert_at_def bump_slot_def saturating_add64_def)
  have v: "counter_value (on_base 0 0 0\<lparr>slots := [(2, 7, 0)]\<rparr>) = Some 7"
    by (simp add: counter_value_def counter_sum_def on_base_def)
  have l: "length (counter_encode (on_base 0 0 0\<lparr>slots := [(2, 7, 0)]\<rparr>)) = 37"
    by (simp add: counter_encode_def on_base_def)
  have "record_rtype (merged_value (counter_field_set 10 2 None (counter_encode (on_base 0 0 0\<lparr>slots := [(2, 7, 0)]\<rparr>)))
        (element_add RT_HashField 20 1 [53])) = RT_CounterField"
    by (simp add: counter_field_set_first element_add_one_live merged_value_counter_hash stored_one_live l)
  then show ?thesis
    using hset_over_counter_hidden [of "on_base 0 0 0\<lparr>slots := [(2, 7, 0)]\<rparr>" 7 "[53]" 10 20 2 1] v l
    by (simp add: c Let_def MAX_SLOTS_def as_counter_def counter_decode_def)
      (simp add: i64_to_string_def nat_digits.simps digit_def)
qed

end
