(* ===== verification/Ikey.thy ===== *)
theory Ikey
  imports Varint Partition
begin

text \<open>
  \<open>marekvs-core/src/ikey.rs\<close>: the layout of internal storage keys. Keys carry their partition, a type tag
  and, except for plain strings, the length of the user key, so that elements of one collection form one
  range of the key space; big-endian suffixes make \<open>memcmp\<close> order the order of positions, ids and scores.
\<close>

unbundle bit_operations_syntax

section \<open>Tags\<close>

definition PARTITIONS :: u16 where "PARTITIONS = 4096"

datatype tag = Tag_String | Tag_Head | Tag_HashField | Tag_SetMember | Tag_ZsetMember | Tag_ZsetScore
  | Tag_ListElem | Tag_HllRegister | Tag_List | Tag_StreamEntry | Tag_Budget | Tag_Json | Tag_ProtoField

fun tag_code :: "tag \<Rightarrow> u8" where
  "tag_code Tag_String = 115"
| "tag_code Tag_Head = 77"
| "tag_code Tag_HashField = 104"
| "tag_code Tag_SetMember = 83"
| "tag_code Tag_ZsetMember = 122"
| "tag_code Tag_ZsetScore = 90"
| "tag_code Tag_ListElem = 113"
| "tag_code Tag_HllRegister = 72"
| "tag_code Tag_List = 108"
| "tag_code Tag_StreamEntry = 120"
| "tag_code Tag_Budget = 98"
| "tag_code Tag_Json = 106"
| "tag_code Tag_ProtoField = 112"

section \<open>Building keys\<close>

definition ikey_base :: "tag \<Rightarrow> bytes \<Rightarrow> bytes" where
  "ikey_base tag userkey = be16 (pid_of userkey) @ [tag_code tag]"

definition simple :: "tag \<Rightarrow> bytes \<Rightarrow> bytes" where
  "simple tag userkey = ikey_base tag userkey @ userkey"

definition prefixed :: "tag \<Rightarrow> bytes \<Rightarrow> bytes \<Rightarrow> bytes" where
  "prefixed tag userkey suf =
     ikey_base tag userkey @ put_varint (of_nat (length userkey)) @ userkey @ suf"

definition string_key :: "bytes \<Rightarrow> bytes" where "string_key userkey = simple Tag_String userkey"
definition list_key :: "bytes \<Rightarrow> bytes" where "list_key userkey = simple Tag_List userkey"

section \<open>List positions\<close>

definition LIST_CENTER :: u64 where "LIST_CENTER = push_bit 63 1"
definition LIST_POS_STRIDE :: u64 where "LIST_POS_STRIDE = 1024"
definition LIST_NODE_ID_MAX :: u16 where "LIST_NODE_ID_MAX = ucast (LIST_POS_STRIDE - 1)"

definition list_slot_base :: "u64 \<Rightarrow> u64" where
  "list_slot_base pos = pos AND NOT (LIST_POS_STRIDE - 1)"

definition list_pos_in_slot :: "u64 \<Rightarrow> u16 \<Rightarrow> u64" where
  "list_pos_in_slot slot_base node = list_slot_base slot_base OR (ucast node AND (LIST_POS_STRIDE - 1))"

definition list_pos_before :: "u64 \<Rightarrow> u16 \<Rightarrow> u64" where
  "list_pos_before head node = list_pos_in_slot (list_slot_base head - LIST_POS_STRIDE) node"

definition list_pos_after :: "u64 \<Rightarrow> u16 \<Rightarrow> u64" where
  "list_pos_after tail node = list_pos_in_slot (list_slot_base tail + LIST_POS_STRIDE) node"

definition list_pos_nth :: "u64 \<Rightarrow> u16 \<Rightarrow> u64" where
  "list_pos_nth index node = list_pos_in_slot (LIST_CENTER + index * LIST_POS_STRIDE) node"

definition list_elem_key :: "bytes \<Rightarrow> u64 \<Rightarrow> bytes" where
  "list_elem_key userkey pos = prefixed Tag_ListElem userkey (be64 pos)"

definition list_pos :: "bytes \<Rightarrow> u64 option" where
  "list_pos suf = (if length suf \<ge> 8 then Some (of_be64 (take 8 suf)) else None)"

section \<open>Element keys\<close>

definition head_key :: "bytes \<Rightarrow> bytes" where
  "head_key userkey = prefixed Tag_Head userkey []"

definition hash_field_key :: "bytes \<Rightarrow> bytes \<Rightarrow> bytes" where
  "hash_field_key userkey field = prefixed Tag_HashField userkey field"

definition set_member_key :: "bytes \<Rightarrow> bytes \<Rightarrow> bytes" where
  "set_member_key userkey member = prefixed Tag_SetMember userkey member"

definition zset_member_key :: "bytes \<Rightarrow> bytes \<Rightarrow> bytes" where
  "zset_member_key userkey member = prefixed Tag_ZsetMember userkey member"

definition zset_score_key :: "bytes \<Rightarrow> u64 \<Rightarrow> bytes \<Rightarrow> bytes" where
  "zset_score_key userkey score_be member = prefixed Tag_ZsetScore userkey (be64 score_be @ member)"

definition hll_register_key :: "bytes \<Rightarrow> u16 \<Rightarrow> bytes" where
  "hll_register_key userkey bucket = prefixed Tag_HllRegister userkey (be16 bucket)"

definition stream_entry_key :: "bytes \<Rightarrow> u64 \<Rightarrow> u64 \<Rightarrow> bytes" where
  "stream_entry_key userkey id_ms id_seq = prefixed Tag_StreamEntry userkey (be64 id_ms @ be64 id_seq)"

definition collection_prefix :: "tag \<Rightarrow> bytes \<Rightarrow> bytes" where
  "collection_prefix tag userkey = prefixed tag userkey []"

definition ELEMENT_TAGS :: "tag list" where
  "ELEMENT_TAGS = [Tag_HashField, Tag_SetMember, Tag_ZsetMember, Tag_ListElem, Tag_StreamEntry,
     Tag_HllRegister, Tag_Budget, Tag_Json, Tag_ProtoField]"

definition BUDGET_SLOT :: u8 where "BUDGET_SLOT = 76"
definition BUDGET_WINDOW_SLOT :: u8 where "BUDGET_WINDOW_SLOT = 87"
definition BUDGET_TOKEN :: u8 where "BUDGET_TOKEN = 84"

definition budget_slot_key :: "bytes \<Rightarrow> u64 \<Rightarrow> u16 \<Rightarrow> u64 \<Rightarrow> bytes" where
  "budget_slot_key userkey gen node epoch =
     prefixed Tag_Budget userkey ([BUDGET_SLOT] @ be64 gen @ be16 node @ be64 epoch)"

definition budget_window_slot_key :: "bytes \<Rightarrow> u64 \<Rightarrow> u64 \<Rightarrow> u16 \<Rightarrow> u64 \<Rightarrow> bytes" where
  "budget_window_slot_key userkey gen window node epoch =
     prefixed Tag_Budget userkey ([BUDGET_WINDOW_SLOT] @ be64 gen @ be64 window @ be16 node @ be64 epoch)"

definition budget_token_key :: "bytes \<Rightarrow> u64 \<Rightarrow> u64 \<Rightarrow> u16 \<Rightarrow> u64 \<Rightarrow> bytes" where
  "budget_token_key userkey gen h node epoch =
     prefixed Tag_Budget userkey ([BUDGET_TOKEN] @ be64 gen @ be64 h @ be16 node @ be64 epoch)"

definition budget_kind_prefix :: "bytes \<Rightarrow> u8 \<Rightarrow> u64 \<Rightarrow> bytes" where
  "budget_kind_prefix userkey kind gen = prefixed Tag_Budget userkey ([kind] @ be64 gen)"

definition json_node_key :: "bytes \<Rightarrow> bytes \<Rightarrow> bytes" where
  "json_node_key userkey path = prefixed Tag_Json userkey path"

definition proto_field_key :: "bytes \<Rightarrow> bytes \<Rightarrow> bytes" where
  "proto_field_key userkey path = prefixed Tag_ProtoField userkey path"

definition partition_prefix :: "pid \<Rightarrow> bytes" where
  "partition_prefix p = be16 p"

section \<open>Parsing\<close>

record parsed_key =
  pk_pid :: pid
  pk_tag :: u8
  pk_userkey :: bytes
  pk_suffix :: bytes

text \<open>Positions are natural numbers: a key length close to \<open>2 ^ 64\<close>, which no constructor of keys writes, counts as
too long. In the release build \<open>n + klen\<close> wraps there and the slice panics.\<close>

definition ikey_parse :: "bytes \<Rightarrow> parsed_key option" where
  "ikey_parse ikey =
     (if length ikey < 3 then None
      else let p = of_be16 (slice 0 2 ikey); t = ikey ! 2; rest = drop 3 ikey
           in if t \<in> {115, 108}
              then Some \<lparr>pk_pid = p, pk_tag = t, pk_userkey = rest, pk_suffix = []\<rparr>
              else if t \<in> {77, 104, 83, 122, 90, 113, 120, 72, 98, 106, 112}
              then case get_varint rest of
                     None \<Rightarrow> None
                   | Some (klen, n) \<Rightarrow>
                       if length rest < n + unat klen then None
                       else Some \<lparr>pk_pid = p, pk_tag = t, pk_userkey = slice n (unat klen) rest,
                                  pk_suffix = drop (n + unat klen) rest\<rparr>
              else None)"

section \<open>Keys parse back\<close>

lemma tag_code_inject [simp]: "tag_code a = tag_code b \<longleftrightarrow> a = b"
  by (cases a; cases b) simp_all

lemma length_ikey_base [simp]: "length (ikey_base t uk) = 3"
  by (simp add: ikey_base_def)

lemma base_parts:
  "slice 0 2 (ikey_base t uk @ rest) = be16 (pid_of uk)" "(ikey_base t uk @ rest) ! 2 = tag_code t"
  "drop 3 (ikey_base t uk @ rest) = rest"
  by (simp_all add: ikey_base_def slice_def nth_append)

lemma prefixed_code: "t \<notin> {Tag_String, Tag_List} \<Longrightarrow>
  tag_code t \<notin> {115, 108} \<and> tag_code t \<in> {77, 104, 83, 122, 90, 113, 120, 72, 98, 106, 112}"
  by (cases t) simp_all

lemma parse_prefixed:
  assumes "t \<notin> {Tag_String, Tag_List}" "length uk < 2 ^ 64"
  shows "ikey_parse (prefixed t uk suf) =
    Some \<lparr>pk_pid = pid_of uk, pk_tag = tag_code t, pk_userkey = uk, pk_suffix = suf\<rparr>"
proof -
  have len: "unat (of_nat (length uk) :: u64) = length uk"
    using assms(2) by (simp add: unat_of_nat take_bit_nat_eq_self)
  note code = prefixed_code [OF assms(1)]
  show ?thesis
    unfolding ikey_parse_def prefixed_def base_parts Let_def
    using code by (simp add: len slice_def)
qed

lemma parse_simple:
  assumes "t \<in> {Tag_String, Tag_List}"
  shows "ikey_parse (simple t uk) = Some \<lparr>pk_pid = pid_of uk, pk_tag = tag_code t, pk_userkey = uk, pk_suffix = []\<rparr>"
  unfolding ikey_parse_def simple_def base_parts Let_def using assms by auto

lemma prefixed_prefix_iff:
  assumes "length uk < 2 ^ 64" "length uk' < 2 ^ 64"
  shows "prefix (prefixed t uk s) (prefixed t' uk' s') \<longleftrightarrow> t = t' \<and> uk = uk' \<and> prefix s s'"
proof
  assume "prefix (prefixed t uk s) (prefixed t' uk' s')"
  then obtain z where z: "prefixed t' uk' s' = prefixed t uk s @ z" by (auto simp: prefix_def)
  have t: "t = t'" and rest: "put_varint (of_nat (length uk')) @ uk' @ s' = put_varint (of_nat (length uk)) @ uk @ s @ z"
    using z by (simp_all add: prefixed_def ikey_base_def)
  note split = put_varint_prefix_free [OF rest]
  have "length uk' = length uk"
    using arg_cong [OF split(1), of unat] assms by (simp add: unat_of_nat take_bit_nat_eq_self)
  with split(2) have "uk' = uk" "s' = s @ z" by simp_all
  with t show "t = t' \<and> uk = uk' \<and> prefix s s'" by simp
qed (auto simp: prefixed_def prefix_def)

lemma prefixed_inject:
  assumes "length uk < 2 ^ 64" "length uk' < 2 ^ 64"
  shows "prefixed t uk s = prefixed t' uk' s' \<longleftrightarrow> t = t' \<and> uk = uk' \<and> s = s'"
  using prefixed_prefix_iff [OF assms, of t s t' s'] prefixed_prefix_iff [OF assms(2,1), of t' s' t s]
  by (metis prefix_order.eq_iff)

lemma prefixed_less_iff: "prefixed t uk s < prefixed t uk s' \<longleftrightarrow> s < s'"
  using less_append_same_length [of "ikey_base t uk @ put_varint (of_nat (length uk)) @ uk" _ s s', OF refl]
  by (simp add: prefixed_def)

section \<open>List positions\<close>

lemma stride_mask: "LIST_POS_STRIDE - 1 = mask 10"
  by (simp add: LIST_POS_STRIDE_def mask_eq_exp_minus_1)

lemma list_slot_base_eq: "list_slot_base pos = push_bit 10 (drop_bit 10 pos)"
  unfolding list_slot_base_def stride_mask by (rule bit_word_eqI) (auto simp: bit_simps)

lemma unat_list_slot_base: "unat (list_slot_base pos) = unat pos div 1024 * 1024"
proof -
  have "unat pos div 1024 * 1024 \<le> unat pos" by simp
  then have "unat pos div 1024 * 1024 < 2 ^ 64" using unat_bound(4) [of pos] by simp
  then show ?thesis
    by (simp add: list_slot_base_eq push_bit_eq_mult drop_bit_eq_div unat_word_ariths unat_div)
qed

lemma unat_list_pos_in_slot:
  "unat (list_pos_in_slot b node) = unat b div 1024 * 1024 + unat node mod 1024"
proof -
  let ?low = "ucast node AND mask 10 :: u64"
  have "list_slot_base b OR ?low = list_slot_base b + ?low"
    unfolding list_slot_base_eq by (rule disjunctive_add [symmetric]) (auto simp: bit_simps)
  moreover have low: "unat ?low = unat node mod 1024"
  proof -
    have "unat (ucast node :: u64) = unat node"
      using unat_bound(2) [of node] by (simp add: unsigned_ucast_eq take_bit_nat_eq_self)
    then show ?thesis by (simp add: take_bit_eq_mask [symmetric] take_bit_eq_mod unat_mod)
  qed
  moreover have "unat b div 1024 * 1024 + unat node mod 1024 < 2 ^ 64"
  proof -
    have "unat b div 1024 < 2 ^ 54" using unat_bound(4) [of b] by (simp add: less_mult_imp_div_less)
    then show ?thesis using mod_less_divisor [of 1024 "unat node"] by simp
  qed
  ultimately show ?thesis
    unfolding list_pos_in_slot_def stride_mask
    using unat_list_slot_base [of b] unat_add64 [of "list_slot_base b" ?low] by (simp add: low)
qed

lemma unat_list_pos_before:
  assumes "1024 \<le> unat head"
  shows "unat (list_pos_before head node) = (unat head div 1024 - 1) * 1024 + unat node mod 1024"
proof -
  have ge: "1024 \<le> unat head div 1024 * 1024" using assms by (simp add: div_le_mono [of 1024 _ 1024, simplified])
  then have "unat (list_slot_base head - 1024) = unat head div 1024 * 1024 - 1024"
    by (subst unat_sub) (simp_all add: unat_list_slot_base word_le_nat_alt)
  then show ?thesis
    by (simp add: list_pos_before_def unat_list_pos_in_slot LIST_POS_STRIDE_def diff_mult_distrib [symmetric, of _ 1 1024, simplified])
qed

lemma unat_list_pos_after:
  assumes "unat tail < 2 ^ 64 - 1024"
  shows "unat (list_pos_after tail node) = (unat tail div 1024 + 1) * 1024 + unat node mod 1024"
proof -
  have "unat tail div 1024 * 1024 \<le> unat tail" by simp
  then have "unat (list_slot_base tail + 1024) = unat tail div 1024 * 1024 + 1024"
    using unat_add64 [of "list_slot_base tail" 1024] assms by (simp add: unat_list_slot_base)
  then show ?thesis by (simp add: list_pos_after_def unat_list_pos_in_slot LIST_POS_STRIDE_def)
qed

section \<open>Properties\<close>

text \<open>C15: internal keys lose nothing. Every key that is built parses back to its partition, its tag, its user
  key and its suffix, so that two records share a key only when they are the same record.\<close>

theorem ikey_roundtrip:
  assumes "length uk < 2 ^ 64"
  shows "(t \<notin> {Tag_String, Tag_List} \<longrightarrow> ikey_parse (prefixed t uk s) =
            Some \<lparr>pk_pid = pid_of uk, pk_tag = tag_code t, pk_userkey = uk, pk_suffix = s\<rparr>) \<and>
         (t \<in> {Tag_String, Tag_List} \<longrightarrow> ikey_parse (simple t uk) =
            Some \<lparr>pk_pid = pid_of uk, pk_tag = tag_code t, pk_userkey = uk, pk_suffix = []\<rparr>)"
  using assms parse_prefixed [of t uk s] parse_simple [of t uk] by blast

theorem ikey_roundtrip_witness:
  "ikey_parse (prefixed Tag_HashField [107] [102]) =
     Some \<lparr>pk_pid = pid_of [107], pk_tag = 104, pk_userkey = [107], pk_suffix = [102]\<rparr>"
  using ikey_roundtrip [of "[107]" Tag_HashField "[102]"] by simp

text \<open>C14: a prefix scan returns one collection and nothing else. A key that starts with the key of a record
  of one collection has the same tag, the same user key and an extension of its suffix; no key of a plain
  string is in the range of a collection.\<close>

theorem scan_is_exact:
  assumes "length uk < 2 ^ 64" "length uk' < 2 ^ 64"
  shows "(prefix (prefixed t uk s) (prefixed t' uk' s') \<longleftrightarrow> t = t' \<and> uk = uk' \<and> prefix s s') \<and>
         (prefix (collection_prefix t uk) (prefixed t' uk' s') \<longleftrightarrow> t = t' \<and> uk = uk') \<and>
         (t \<noteq> t' \<longrightarrow> \<not> prefix (collection_prefix t uk) (simple t' uk'))"
  using prefixed_prefix_iff [OF assms]
  by (simp add: collection_prefix_def) (simp add: prefixed_def simple_def ikey_base_def prefix_def)

theorem scan_is_exact_witness:
  "\<not> prefix (collection_prefix Tag_SetMember [97]) (set_member_key [97, 98] [99])"
  using scan_is_exact [of "[97]" "[97, 98]" Tag_SetMember "[]" Tag_SetMember "[99]"]
  by (simp add: set_member_key_def)

text \<open>The byte order of keys is the order a reader expects: list elements by position, stream entries by
  milliseconds and then sequence, the score index by score and then member.\<close>

theorem key_order:
  "(list_elem_key uk p < list_elem_key uk p' \<longleftrightarrow> p < p') \<and>
   (stream_entry_key uk ms sq < stream_entry_key uk ms' sq' \<longleftrightarrow> (ms, sq) < (ms', sq')) \<and>
   (zset_score_key uk sc m < zset_score_key uk sc' m' \<longleftrightarrow> (sc, m) < (sc', m'))"
  by (auto simp: list_elem_key_def stream_entry_key_def zset_score_key_def prefixed_less_iff be_less_iff
      less_append_same_length)

text \<open>Pushes go to the end they were made at and never collide. A position allocated before the head is
  below every position of the list, one allocated after the tail is above it, and two nodes with different
  ids below 1024 that push at the same time get different positions.\<close>

theorem list_positions:
  assumes "1024 \<le> unat head" "unat tail < 2 ^ 64 - 1024" "n \<le> LIST_NODE_ID_MAX" "n' \<le> LIST_NODE_ID_MAX" "n \<noteq> n'"
  shows "list_pos_before head n < head \<and> tail < list_pos_after tail n \<and>
         list_pos_before head n \<noteq> list_pos_before head n' \<and> list_pos_after tail n \<noteq> list_pos_after tail n'"
proof -
  have "unat n < 1024" "unat n' < 1024" using assms(3,4)
    by (simp_all add: LIST_NODE_ID_MAX_def LIST_POS_STRIDE_def word_le_nat_alt)
  moreover have "unat n \<noteq> unat n'" using assms(5) by (simp add: word_unat_eq_iff)
  moreover have "1 \<le> unat head div 1024" using assms(1) div_le_mono [of 1024 "unat head" 1024] by simp
  ultimately show ?thesis
    using div_mult_mod_eq [of "unat head" 1024] div_mult_mod_eq [of "unat tail" 1024]
      mod_less_divisor [of 1024 "unat tail"]
      unat_list_pos_before [OF assms(1)] unat_list_pos_after [OF assms(2)]
    by (auto simp: word_less_nat_alt word_unat_eq_iff)
qed

theorem list_positions_witness:
  "list_pos_before LIST_CENTER 3 < LIST_CENTER \<and> list_pos_before LIST_CENTER 3 \<noteq> list_pos_before LIST_CENTER 4"
  using list_positions [of LIST_CENTER LIST_CENTER 3 4]
  by (simp add: LIST_CENTER_def LIST_NODE_ID_MAX_def LIST_POS_STRIDE_def)

end
