(* ===== verification/Budget_Records.thy ===== *)
theory Budget_Records
  imports Merge Ikey
begin

text \<open>
  \<open>marekvs-core/src/budget.rs\<close>: the records of the escrow protocol behind the budget commands (head,
  slot and token), their codecs, the client-facing form of token ids, and their merge.
\<close>

unbundle bit_operations_syntax

section \<open>Constants\<close>

definition MODE_POOL :: u8 where "MODE_POOL = 0"
definition MODE_WINDOW :: u8 where "MODE_WINDOW = 1"
definition RANK_OPEN :: u8 where "RANK_OPEN = 0"
definition RANK_CLOSING :: u8 where "RANK_CLOSING = 1"
definition RANK_FOLDED :: u8 where "RANK_FOLDED = 2"
definition STATE_OPEN :: u8 where "STATE_OPEN = 0"
definition STATE_COMMITTED :: u8 where "STATE_COMMITTED = 1"
definition STATE_RELEASED :: u8 where "STATE_RELEASED = 2"
definition STATE_EXPIRED :: u8 where "STATE_EXPIRED = 3"
definition HEAD_VER :: u8 where "HEAD_VER = 1"
definition TOKEN_VER :: u8 where "TOKEN_VER = 1"

section \<open>Token ids\<close>

record token_id =
  tid_gen :: u64
  tid_hlc :: u64
  tid_node :: node_id
  tid_epoch :: u64

definition hex_digit :: "nat \<Rightarrow> u8" where
  "hex_digit n = (if n < 10 then of_nat (48 + n) else of_nat (87 + n))"

text \<open>The format \<open>{:x}\<close>.\<close>

fun hex_digits :: "nat \<Rightarrow> bytes" where
  "hex_digits n = (if n < 16 then [hex_digit n] else hex_digits (n div 16) @ [hex_digit (n mod 16)])"

declare hex_digits.simps [simp del]

definition token_format :: "token_id \<Rightarrow> bytes" where
  "token_format t =
     hex_digits (unat (tid_gen t)) @ [45] @ hex_digits (unat (tid_hlc t)) @ [45] @
     hex_digits (unat (tid_node t)) @ [45] @ hex_digits (unat (tid_epoch t))"

text \<open>\<open>str::split\<close> at a byte: there is always at least one piece.\<close>

fun split_at_byte :: "u8 \<Rightarrow> bytes \<Rightarrow> bytes list" where
  "split_at_byte c [] = [[]]"
| "split_at_byte c (b # bs) =
     (if b = c then [] # split_at_byte c bs
      else case split_at_byte c bs of [] \<Rightarrow> [[b]] | p # ps \<Rightarrow> (b # p) # ps)"

definition hex_value :: "u8 \<Rightarrow> nat option" where
  "hex_value b =
     (if 48 \<le> b \<and> b \<le> 57 then Some (unat b - 48)
      else if 97 \<le> b \<and> b \<le> 102 then Some (unat b - 87)
      else if 65 \<le> b \<and> b \<le> 70 then Some (unat b - 55)
      else None)"

text \<open>
  \<open>from_str_radix(_, 16)\<close> for an unsigned type of the given width: an optional plus sign, at least one
  digit in either case, and no overflow.
\<close>

definition from_hex :: "nat \<Rightarrow> bytes \<Rightarrow> nat option" where
  "from_hex width s =
     (if s = [] \<or> s = [43] \<or> s = [45] then None
      else let ds = (if hd s = 43 then tl s else s)
           in if list_all (\<lambda>b. hex_value b \<noteq> None) ds
              then let v = foldl (\<lambda>a b. a * 16 + the (hex_value b)) 0 ds
                   in if v < 2 ^ width then Some v else None
              else None)"

text \<open>
  \<open>TokenId::parse\<close>. Bytes outside ASCII are neither digits nor separators, so input that is not UTF-8 fails
  at the piece that contains it.
\<close>

definition token_parse :: "bytes \<Rightarrow> token_id option" where
  "token_parse s =
     (case split_at_byte 45 s of
        [a, b, c, d] \<Rightarrow>
          (case (from_hex 64 a, from_hex 64 b, from_hex 16 c, from_hex 64 d) of
             (Some g, Some h, Some n, Some e) \<Rightarrow>
               Some \<lparr>tid_gen = of_nat g, tid_hlc = of_nat h, tid_node = of_nat n, tid_epoch = of_nat e\<rparr>
           | _ \<Rightarrow> None)
      | _ \<Rightarrow> None)"

section \<open>Head state\<close>

record head_state =
  op_seq :: u64
  gen :: u64
  mode :: u8
  period_ms :: u64
  capacity :: u64
  max_amount :: u64
  default_ttl_ms :: u64
  max_ttl_ms :: u64
  alloc :: "(node_id \<times> u64) list"
  fence :: "(node_id \<times> u64) list"

definition alloc_for :: "head_state \<Rightarrow> node_id \<Rightarrow> u64" where
  "alloc_for h node = (case map_of (alloc h) node of None \<Rightarrow> 0 | Some a \<Rightarrow> a)"

definition is_fenced :: "head_state \<Rightarrow> node_id \<Rightarrow> bool" where
  "is_fenced h node = list_ex (\<lambda>(n, _). n = node) (fence h)"

text \<open>Sums in 128 bits, which 255 entries of 64 bits cannot exceed.\<close>

definition alloc_total :: "head_state \<Rightarrow> nat" where
  "alloc_total h = (\<Sum>(_, a)\<leftarrow>alloc h. unat a)"

definition encode_node_entry :: "node_id \<times> u64 \<Rightarrow> bytes" where
  "encode_node_entry = (\<lambda>(n, a). be16 n @ be64 a)"

definition head_state_encode :: "head_state \<Rightarrow> bytes" where
  "head_state_encode h =
     [HEAD_VER] @ be64 (op_seq h) @ be64 (gen h) @ [mode h] @ be64 (period_ms h) @ be64 (capacity h) @
     be64 (max_amount h) @ be64 (default_ttl_ms h) @ be64 (max_ttl_ms h) @
     [of_nat (length (alloc h))] @ concat (map encode_node_entry (alloc h)) @
     [of_nat (length (fence h))] @ concat (map encode_node_entry (fence h))"

definition u64_at :: "bytes \<Rightarrow> nat \<Rightarrow> u64" where
  "u64_at bs p = of_be64 (slice p 8 bs)"

definition node_entry_at :: "bytes \<Rightarrow> nat \<Rightarrow> node_id \<times> u64" where
  "node_entry_at bs p = (of_be16 (slice p 2 bs), of_be64 (slice (p + 2) 8 bs))"

definition head_state_decode :: "bytes \<Rightarrow> head_state option" where
  "head_state_decode tail =
     (if length tail < 58 \<or> tail ! 0 \<noteq> HEAD_VER then None
      else if length tail \<le> 58 then None
      else let nalloc = unat (tail ! 58); pos = 59
           in if length tail < pos + nalloc * 10 then None
              else let al = map (\<lambda>i. node_entry_at tail (pos + i * 10)) [0..<nalloc];
                       pos' = pos + nalloc * 10
                   in if length tail \<le> pos' then None
                      else let nfence = unat (tail ! pos'); pos'' = pos' + 1
                           in if length tail < pos'' + nfence * 10 then None
                              else Some \<lparr>op_seq = u64_at tail 1, gen = u64_at tail 9, mode = tail ! 17,
                                         period_ms = u64_at tail 18, capacity = u64_at tail 26,
                                         max_amount = u64_at tail 34, default_ttl_ms = u64_at tail 42,
                                         max_ttl_ms = u64_at tail 50, alloc = al,
                                         fence = map (\<lambda>i. node_entry_at tail (pos'' + i * 10)) [0..<nfence]\<rparr>)"

section \<open>Slot state\<close>

record slot_state =
  granted :: u64
  returned :: u64

definition outstanding :: "slot_state \<Rightarrow> nat" where
  "outstanding s = unat (granted s) - unat (returned s)"

definition slot_encode :: "slot_state \<Rightarrow> bytes" where
  "slot_encode s = be64 (granted s) @ be64 (returned s)"

definition slot_decode :: "bytes \<Rightarrow> slot_state option" where
  "slot_decode payload =
     (if length payload < 16 then None
      else Some \<lparr>granted = of_be64 (slice 0 8 payload), returned = of_be64 (slice 8 8 payload)\<rparr>)"

definition slot_state_join :: "slot_state \<Rightarrow> slot_state \<Rightarrow> slot_state" where
  "slot_state_join a b = \<lparr>granted = max (granted a) (granted b), returned = max (returned a) (returned b)\<rparr>"

section \<open>Token state\<close>

record token_state =
  rank :: u8
  tok_state :: u8
  amount :: u64
  spent :: u64
  credited :: u64
  deadline_ms :: u64
  window :: u64
  reqid :: u64

definition token_encode :: "token_state \<Rightarrow> bytes" where
  "token_encode t =
     [TOKEN_VER, rank t, tok_state t] @ be64 (amount t) @ be64 (spent t) @ be64 (credited t) @
     be64 (deadline_ms t) @ be64 (window t) @ be64 (reqid t)"

definition token_decode :: "bytes \<Rightarrow> token_state option" where
  "token_decode payload =
     (if length payload < 51 \<or> payload ! 0 \<noteq> TOKEN_VER then None
      else Some \<lparr>rank = payload ! 1, tok_state = payload ! 2, amount = u64_at payload 3,
                 spent = u64_at payload 11, credited = u64_at payload 19, deadline_ms = u64_at payload 27,
                 window = u64_at payload 35, reqid = u64_at payload 43\<rparr>)"

section \<open>Records\<close>

definition encode_slot_record :: "version \<Rightarrow> u64 \<Rightarrow> bool \<Rightarrow> slot_state \<Rightarrow> bytes" where
  "encode_slot_record ver ttl tomb st =
     (let fl = push_bit 2 (rtype_code RT_String); fl' = (if tomb then fl OR TOMBSTONE else fl)
      in encode_with \<lparr>flags = fl', hlc = fst ver, origin = snd ver, ttl_deadline_ms = ttl\<rparr> (slot_encode st))"

definition encode_token_record :: "version \<Rightarrow> u64 \<Rightarrow> token_state \<Rightarrow> bytes" where
  "encode_token_record ver ttl st =
     (let fl = push_bit 2 (rtype_code RT_String); fl' = (if rank st = RANK_FOLDED then fl OR TOMBSTONE else fl)
      in encode_with \<lparr>flags = fl', hlc = fst ver, origin = snd ver, ttl_deadline_ms = ttl\<rparr> (token_encode st))"

section \<open>Merge\<close>

definition budget_lww :: "envelope \<Rightarrow> envelope \<Rightarrow> merge_outcome" where
  "budget_lww lenv ienv = (if env_version ienv > env_version lenv then TakeIncoming else KeepLocal)"

definition merge_slots :: "envelope \<Rightarrow> bytes \<Rightarrow> envelope \<Rightarrow> bytes \<Rightarrow> bytes \<Rightarrow> bytes \<Rightarrow> merge_outcome" where
  "merge_slots lenv lpay ienv ipay local incoming =
     (if is_tombstone lenv \<or> is_tombstone ienv then budget_lww lenv ienv
      else case (slot_decode lpay, slot_decode ipay) of
             (Some l, Some i) \<Rightarrow>
               let joined = slot_state_join l i;
                   ver = max (env_version lenv) (env_version ienv)
               in outcome_of (encode_slot_record ver (winner_ttl lenv ienv) False joined) local incoming
           | _ \<Rightarrow> budget_lww lenv ienv)"

definition merge_tokens :: "envelope \<Rightarrow> bytes \<Rightarrow> envelope \<Rightarrow> bytes \<Rightarrow> merge_outcome" where
  "merge_tokens lenv lpay ienv ipay =
     (case (token_decode lpay, token_decode ipay) of
        (Some l, Some i) \<Rightarrow>
          if rank l > rank i then KeepLocal
          else if rank l < rank i then TakeIncoming
          else budget_lww lenv ienv
      | _ \<Rightarrow> budget_lww lenv ienv)"

definition merge_budget :: "u8 \<Rightarrow> bytes \<Rightarrow> bytes \<Rightarrow> merge_outcome" where
  "merge_budget kind local incoming =
     (case envelope_decode local of
        None \<Rightarrow> TakeIncoming
      | Some (lenv, lpay) \<Rightarrow>
          (case envelope_decode incoming of
             None \<Rightarrow> KeepLocal
           | Some (ienv, ipay) \<Rightarrow>
               if kind = BUDGET_SLOT \<or> kind = BUDGET_WINDOW_SLOT
               then merge_slots lenv lpay ienv ipay local incoming
               else if kind = BUDGET_TOKEN then merge_tokens lenv lpay ienv ipay
               else budget_lww lenv ienv))"

definition merged_budget :: "u8 \<Rightarrow> bytes \<Rightarrow> bytes \<Rightarrow> bytes" where
  "merged_budget kind local incoming = resolve local incoming (merge_budget kind local incoming)"

end
