(* ===== verification/Budget_Record_Laws.thy ===== *)
theory Budget_Record_Laws
  imports Budget_Records Convergence
begin

text \<open>
  Round trips of the budget records and of token ids, and the joins of slots and tokens: pointwise maximum
  for the ledgers, the greatest \<open>(rank, version)\<close> for tokens.
\<close>

section \<open>Token ids\<close>

lemma hex_digit_props:
  assumes "n < 16"
  shows "hex_value (hex_digit n) = Some n" "hex_digit n \<noteq> 43" "hex_digit n \<noteq> 45"
proof -
  have u: "unat (hex_digit n) = (if n < 10 then 48 + n else 87 + n)"
    using assms by (simp add: hex_digit_def unat_of_nat take_bit_nat_eq_self del: of_nat_add)
  show "hex_value (hex_digit n) = Some n"
    using assms u by (auto simp: hex_value_def word_le_nat_alt split: if_splits)
  have "unat (hex_digit n) \<noteq> unat (43 :: u8)" "unat (hex_digit n) \<noteq> unat (45 :: u8)"
    using assms by (simp_all add: u)
  then show "hex_digit n \<noteq> 43" "hex_digit n \<noteq> 45" by auto
qed

lemma hex_digits_props:
  "hex_digits n \<noteq> []" "\<forall>b\<in>set (hex_digits n). hex_value b \<noteq> None \<and> b \<noteq> 43 \<and> b \<noteq> 45"
  "foldl (\<lambda>a b. a * 16 + the (hex_value b)) 0 (hex_digits n) = n"
proof (induction n rule: hex_digits.induct)
  case (1 n)
  { case 1 show ?case by (subst hex_digits.simps) simp }
  { case 2 show ?case using "1"(2) hex_digit_props by (subst hex_digits.simps) simp }
  { case 3 show ?case using "1"(3) hex_digit_props by (subst hex_digits.simps) simp }
qed

lemma from_hex_digits: "n < 2 ^ w \<Longrightarrow> from_hex w (hex_digits n) = Some n"
proof -
  assume n: "n < 2 ^ w"
  note p = hex_digits_props [of n]
  have "hd (hex_digits n) \<noteq> 43" "hex_digits n \<noteq> [43]" "hex_digits n \<noteq> [45]"
    using p(1,2) hd_in_set by auto
  with n p show ?thesis by (simp add: from_hex_def list_all_iff)
qed

lemma split_at_byte_piece: "c \<notin> set p \<Longrightarrow> split_at_byte c (p @ c # r) = p # split_at_byte c r"
  by (induction p) auto

lemma split_at_byte_last: "c \<notin> set p \<Longrightarrow> split_at_byte c p = [p]"
  by (induction p) auto

lemma token_parse_format: "token_parse (token_format t) = Some t"
proof -
  have no: "(45 :: u8) \<notin> set (hex_digits n)" for n using hex_digits_props(2) [of n] by auto
  have "unat (tid_gen t) < 2 ^ 64" "unat (tid_hlc t) < 2 ^ 64" "unat (tid_node t) < 2 ^ 16" "unat (tid_epoch t) < 2 ^ 64"
    using unat_bound(4) unat_bound(2) by simp_all
  note hex = this [THEN from_hex_digits]
  have "split_at_byte 45 (token_format t) =
      [hex_digits (unat (tid_gen t)), hex_digits (unat (tid_hlc t)), hex_digits (unat (tid_node t)),
       hex_digits (unat (tid_epoch t))]"
    using no by (simp add: token_format_def split_at_byte_piece split_at_byte_last)
  then show ?thesis by (simp add: token_parse_def hex)
qed

section \<open>Codecs\<close>

lemma length_node_entry [simp]: "length (encode_node_entry x) = 10"
  by (simp add: encode_node_entry_def split: prod.splits)

lemma node_entry_at_encode: "node_entry_at (encode_node_entry x @ t) 0 = x"
  by (simp add: node_entry_at_def encode_node_entry_def slice_def split: prod.splits)

lemma node_entry_at_shift: "node_entry_at bs (p + q) = node_entry_at (drop p bs) q"
  by (simp add: node_entry_at_def slice_def add_ac)

lemmas read_node_entries = read_records [OF node_entry_at_shift node_entry_at_encode length_node_entry]

lemma head_state_decode_encode:
  assumes "length (alloc h) \<le> 255" "length (fence h) \<le> 255"
  shows "head_state_decode (head_state_encode h @ tail) = Some h"
proof -
  define hdr where "hdr = [HEAD_VER] @ be64 (op_seq h) @ be64 (gen h) @ [mode h] @ be64 (period_ms h) @
    be64 (capacity h) @ be64 (max_amount h) @ be64 (default_ttl_ms h) @ be64 (max_ttl_ms h)"
  let ?al = "concat (map encode_node_entry (alloc h))" and ?fe = "concat (map encode_node_entry (fence h))"
  let ?n = "of_nat (length (alloc h)) :: u8" and ?m = "of_nat (length (fence h)) :: u8"
  let ?bs = "hdr @ [?n] @ ?al @ [?m] @ ?fe @ tail"
  have n: "unat ?n = length (alloc h)" "unat ?m = length (fence h)"
    using assms by (simp_all add: unat_of_nat take_bit_nat_eq_self)
  have bytes: "head_state_encode h @ tail = ?bs" by (simp add: head_state_encode_def hdr_def)
  have len: "length hdr = 58" by (simp add: hdr_def)
  have fixed: "?bs ! 0 = HEAD_VER" "?bs ! 17 = mode h" "u64_at ?bs 1 = op_seq h" "u64_at ?bs 9 = gen h"
    "u64_at ?bs 18 = period_ms h" "u64_at ?bs 26 = capacity h" "u64_at ?bs 34 = max_amount h"
    "u64_at ?bs 42 = default_ttl_ms h" "u64_at ?bs 50 = max_ttl_ms h"
    by (simp_all add: hdr_def u64_at_def slice_def nth_append)
  have total: "length ?al = 10 * length (alloc h)" "length ?fe = 10 * length (fence h)"
    by (rule length_fixed_records; simp)+
  have at: "?bs ! 58 = ?n" "?bs ! (59 + length (alloc h) * 10) = ?m"
    using len total by (simp_all add: nth_append)
  have al: "map (\<lambda>i. node_entry_at ?bs (59 + i * 10)) [0..<length (alloc h)] = alloc h"
    using read_node_entries [OF order_refl, of "hdr @ [?n]" "alloc h" "[?m] @ ?fe @ tail"] len by simp
  have fe: "map (\<lambda>i. node_entry_at ?bs (59 + length (alloc h) * 10 + 1 + i * 10)) [0..<length (fence h)] = fence h"
    using read_node_entries [OF order_refl, of "hdr @ [?n] @ ?al @ [?m]" "fence h" tail] len total
    by (simp add: mult.commute)
  have "length ?bs = 58 + 1 + length (alloc h) * 10 + 1 + length (fence h) * 10 + length tail"
    using len total by simp
  then show ?thesis
    unfolding bytes head_state_decode_def Let_def at fixed n al fe by simp
qed

lemma slot_decode_encode [simp, codec]: "slot_decode (slot_encode s @ tail) = Some s"
  by (simp add: slot_decode_def slot_encode_def slice_def)

lemma token_decode_encode [simp, codec]: "token_decode (token_encode t @ tail) = Some t"
  by (simp add: token_decode_def token_encode_def u64_at_def slice_def)

section \<open>Joins\<close>

lemma budget_env_simps:
  "rtype_code RT_String = 0" "env_version \<lparr>flags = f, hlc = fst v, origin = snd v, ttl_deadline_ms = t\<rparr> = v"
  by (simp_all add: env_version_def)

definition slot_record :: "(version \<Rightarrow> u64) \<Rightarrow> version \<times> slot_state \<Rightarrow> bytes" where
  "slot_record T = (\<lambda>(v, s). encode_slot_record v (T v) False s)"

lemma slot_join_convergent: "convergent_merge slot_state_join UNIV"
  by unfold_locales (simp_all add: slot_state_join_def ac_simps)

lemma merged_slot_record:
  assumes "kind = BUDGET_SLOT \<or> kind = BUDGET_WINDOW_SLOT"
  shows "merged_budget kind (slot_record T x) (slot_record T y) =
    slot_record T ((\<lambda>(a, b) (a', b'). (max a a', slot_state_join b b')) x y)"
proof -
  obtain v s v' s' where xy: "x = (v, s)" "y = (v', s')" by (metis prod.collapse)
  have d: "slot_decode (slot_encode z) = Some z" for z using slot_decode_encode [of z "[]"] by simp
  show ?thesis
    unfolding xy slot_record_def prod.case encode_slot_record_def [of v] encode_slot_record_def [of v'] Let_def
    using assms
    by (simp add: merged_budget_def merge_budget_def merge_slots_def d Let_def is_tombstone_def TOMBSTONE_def
        winner_ttl_def budget_env_simps) (simp add: max_def resolve_def outcome_of_def)
qed

interpretation slot_ledger: convergent_merge "merged_budget BUDGET_SLOT" "range (slot_record T)" for T
proof -
  have "convergent_merge (\<lambda>(a, b) (a', b'). (max a a', slot_state_join b b'))
      (UNIV \<times> UNIV :: (version \<times> slot_state) set)"
    by (rule convergent_prod [OF convergent_max slot_join_convergent])
  then have "convergent_merge (merged_budget BUDGET_SLOT) (slot_record T ` (UNIV \<times> UNIV))"
    by (rule convergent_image) (rule merged_slot_record, simp)
  then show "convergent_merge (merged_budget BUDGET_SLOT) (range (slot_record T))" by simp
qed

text \<open>Tokens: the rank and the version determine what was written.\<close>

definition token_record :: "(u8 \<times> version \<Rightarrow> u64 \<times> token_state) \<Rightarrow> u8 \<times> version \<Rightarrow> bytes" where
  "token_record W k = encode_token_record (snd k) (fst (W k)) (snd (W k)\<lparr>rank := fst k\<rparr>)"

lemma merged_token_record:
  "merged_budget BUDGET_TOKEN (token_record W k) (token_record W k') = token_record W (max k k')"
proof -
  have d: "token_decode (token_encode z) = Some z" for z using token_decode_encode [of z "[]"] by simp
  obtain r v r' v' where k: "k = (r, v)" "k' = (r', v')" by (metis prod.collapse)
  have enc: "token_record W (r, v) = encode_with
      \<lparr>flags = (if r = RANK_FOLDED then push_bit 2 (rtype_code RT_String) OR TOMBSTONE else push_bit 2 (rtype_code RT_String)),
       hlc = fst v, origin = snd v, ttl_deadline_ms = fst (W (r, v))\<rparr> (token_encode (snd (W (r, v))\<lparr>rank := r\<rparr>))" for r v
    by (simp add: token_record_def encode_token_record_def Let_def)
  have "BUDGET_TOKEN \<noteq> BUDGET_SLOT" "BUDGET_TOKEN \<noteq> BUDGET_WINDOW_SLOT"
    by (simp_all add: BUDGET_TOKEN_def BUDGET_SLOT_def BUDGET_WINDOW_SLOT_def)
  then have "merged_budget BUDGET_TOKEN (token_record W k) (token_record W k') =
      (if r > r' then token_record W k else if r < r' then token_record W k'
       else if v' > v then token_record W k' else token_record W k)"
    unfolding k enc
    by (simp add: merged_budget_def merge_budget_def merge_tokens_def d budget_lww_def budget_env_simps(2) resolve_def)
  then show ?thesis by (auto simp: k max_def)
qed

interpretation token_lattice: convergent_merge "merged_budget BUDGET_TOKEN" "range (token_record W)" for W
  by (rule convergent_image [OF convergent_max]) (rule merged_token_record)

lemma fold_token_records:
  "foldl (merged_budget BUDGET_TOKEN) (token_record W k) (map (token_record W) ks) = token_record W (foldl max k ks)"
  by (induction ks arbitrary: k) (simp_all add: merged_token_record)

lemma foldl_max: "foldl max k ks = Max (insert k (set ks))" for k :: "'a::linorder"
proof (induction ks arbitrary: k)
  case (Cons x ks)
  have "Max (insert k (insert x (set ks))) = Max (insert (max k x) (set ks))"
    by (cases "set ks = {}") (simp_all add: max.assoc)
  with Cons show ?case by simp
qed simp

lemma fold_slot_records:
  assumes "kind = BUDGET_SLOT \<or> kind = BUDGET_WINDOW_SLOT"
  shows "foldl (merged_budget kind) (slot_record T x) (map (slot_record T) xs) =
     slot_record T (Max (fst ` set (x # xs)),
       \<lparr>granted = Max ((granted \<circ> snd) ` set (x # xs)), returned = Max ((returned \<circ> snd) ` set (x # xs))\<rparr>)"
proof -
  have "foldl (merged_budget kind) (slot_record T x) (map (slot_record T) xs) =
      slot_record T (foldl max (fst x) (map fst xs),
        \<lparr>granted = foldl max (granted (snd x)) (map (granted \<circ> snd) xs),
         returned = foldl max (returned (snd x)) (map (returned \<circ> snd) xs)\<rparr>)"
  proof (induction xs arbitrary: x)
    case Nil
    obtain v g r where "x = (v, \<lparr>granted = g, returned = r\<rparr>)" by (metis prod.collapse slot_state.cases)
    then show ?case by simp
  next
    case (Cons y xs)
    then show ?case by (cases x; cases y) (simp add: merged_slot_record [OF assms] slot_state_join_def)
  qed
  then show ?thesis by (simp add: foldl_max image_image)
qed

text \<open>A tombstone of a slot and a live copy: the later version wins whole.\<close>

lemma merged_slot_tombstone:
  assumes "kind = BUDGET_SLOT \<or> kind = BUDGET_WINDOW_SLOT"
  shows "merged_budget kind (slot_record T x) (encode_slot_record v ttl True s) =
      (if fst x < v then encode_slot_record v ttl True s else slot_record T x)"
    "merged_budget kind (encode_slot_record v ttl True s) (slot_record T x) =
      (if v < fst x then slot_record T x else encode_slot_record v ttl True s)"
  using assms
  by (cases x, simp add: slot_record_def encode_slot_record_def Let_def merged_budget_def merge_budget_def
      merge_slots_def is_tombstone_def TOMBSTONE_def budget_env_simps budget_lww_def resolve_def)+

section \<open>Properties\<close>

text \<open>C20: the ledgers of a budget only grow while they live. Whatever live copies of a pool slot or of a window
  slot meet, in whatever order, the merged slot holds the greatest amount granted and the greatest amount returned
  that any copy has seen. Against a tombstone, which the collection of past windows writes, nothing is joined: the later version wins
  whole, and the local copy wins a tie.\<close>

theorem slot_ledger_is_max:
  assumes "kind = BUDGET_SLOT \<or> kind = BUDGET_WINDOW_SLOT"
  shows "foldl (merged_budget kind) (slot_record T x) (map (slot_record T) xs) =
      slot_record T (Max (fst ` set (x # xs)),
        \<lparr>granted = Max ((granted \<circ> snd) ` set (x # xs)), returned = Max ((returned \<circ> snd) ` set (x # xs))\<rparr>) \<and>
    merged_budget kind (slot_record T x) (encode_slot_record v ttl True s) =
      (if fst x < v then encode_slot_record v ttl True s else slot_record T x) \<and>
    merged_budget kind (encode_slot_record v ttl True s) (slot_record T x) =
      (if v < fst x then slot_record T x else encode_slot_record v ttl True s)"
  using fold_slot_records [OF assms] merged_slot_tombstone [OF assms] by blast

theorem slot_ledger_is_max_witness:
  "let rec = \<lambda>v g r. slot_record (\<lambda>_. 0) ((v, 1), \<lparr>granted = g, returned = r\<rparr>);
       tomb = encode_slot_record (9, 1) 0 True \<lparr>granted = 0, returned = 0\<rparr>
   in foldl (merged_budget BUDGET_SLOT) (rec 1 10 0) [rec 3 40 5, rec 2 30 7] = rec 3 40 7 \<and>
      merged_budget BUDGET_SLOT (rec 1 10 0) tomb = tomb"
  using slot_ledger_is_max [of BUDGET_SLOT "\<lambda>_. 0" "((1, 1), \<lparr>granted = 10, returned = 0\<rparr>)"
      "[((3, 1), \<lparr>granted = 40, returned = 5\<rparr>), ((2, 1), \<lparr>granted = 30, returned = 7\<rparr>)]" "(9, 1)" 0
      "\<lparr>granted = 0, returned = 0\<rparr>"]
  by (simp add: Let_def max_def)

text \<open>C19: a fold is final. Whatever copies of a token meet, in whatever order, the one with the highest rank
  wins, and the version decides only within a rank: an open or closing copy never replaces a folded one,
  however late its clock.\<close>

theorem token_fold_is_final:
  "foldl (merged_budget BUDGET_TOKEN) (token_record W k) (map (token_record W) ks) =
     token_record W (Max (insert k (set ks)))"
  by (simp add: fold_token_records foldl_max)

text \<open>Budget records and token ids survive their codecs: heads with at most 255 allocations and fences,
  slots, tokens, and the textual form of a token id.\<close>

theorem budget_roundtrips:
  assumes "length (alloc h) \<le> 255" "length (fence h) \<le> 255"
  shows "head_state_decode (head_state_encode h @ tail) = Some h \<and> slot_decode (slot_encode s) = Some s \<and>
         token_decode (token_encode t) = Some t \<and> token_parse (token_format i) = Some i"
  using head_state_decode_encode [OF assms] slot_decode_encode [of s "[]"] token_decode_encode [of t "[]"]
    token_parse_format by simp

theorem budget_roundtrips_witness:
  "token_parse (token_format \<lparr>tid_gen = 31, tid_hlc = 0, tid_node = 7, tid_epoch = 65535\<rparr>) =
     Some \<lparr>tid_gen = 31, tid_hlc = 0, tid_node = 7, tid_epoch = 65535\<rparr>"
  using budget_roundtrips [of "\<lparr>op_seq = 1, gen = 2, mode = 0, period_ms = 0, capacity = 100, max_amount = 0,
      default_ttl_ms = 5, max_ttl_ms = 9, alloc = [(1, 100)], fence = []\<rparr>"] by simp

end
