(* ===== verification/Json_Core.thy ===== *)
theory Json_Core
  imports Varint "HOL-Library.Finite_Map" "HOL-Library.Multiset"
begin

text \<open>
  \<open>marekvs-core/src/json.rs\<close>, first part: element ids, path segments and paths, the stored form of values
  and array elements, and the order of array elements (a replicated growable array). A \<open>HashMap\<close> is a
  finite map. A floating point value is the word of its bits.
\<close>

section \<open>Element ids\<close>

definition SEG_FIELD :: u8 where "SEG_FIELD = 1"
definition SEG_ELEM :: u8 where "SEG_ELEM = 2"

datatype eid = Eid (eid_hlc: u64) (eid_origin: node_id)

instantiation eid :: linorder
begin

definition less_eq_eid :: "eid \<Rightarrow> eid \<Rightarrow> bool" where
  "a \<le> b \<longleftrightarrow> (eid_hlc a, eid_origin a) \<le> (eid_hlc b, eid_origin b)"

definition less_eid :: "eid \<Rightarrow> eid \<Rightarrow> bool" where
  "a < b \<longleftrightarrow> (eid_hlc a, eid_origin a) < (eid_hlc b, eid_origin b)"

instance
  by standard (auto simp: less_eq_eid_def less_eid_def eid.expand split: if_splits)

end

definition EID_HEAD :: eid where "EID_HEAD = Eid 0 0"

definition eid_encode_to :: "eid \<Rightarrow> bytes \<Rightarrow> bytes" where
  "eid_encode_to e out = out @ be64 (eid_hlc e) @ be16 (eid_origin e)"

definition eid_decode :: "bytes \<Rightarrow> eid option" where
  "eid_decode b = (if length b < 10 then None else Some (Eid (of_be64 (slice 0 8 b)) (of_be16 (slice 8 2 b))))"

section \<open>Paths\<close>

datatype seg = Field bytes | Elem eid

definition push_seg :: "bytes \<Rightarrow> seg \<Rightarrow> bytes" where
  "push_seg path s =
     (case s of
        Field f \<Rightarrow> path @ [SEG_FIELD] @ put_varint (of_nat (length f)) @ f
      | Elem e \<Rightarrow> eid_encode_to e (path @ [SEG_ELEM]))"

definition encode_path :: "seg list \<Rightarrow> bytes" where
  "encode_path segs = foldl push_seg [] segs"

text \<open>Positions are natural numbers: a field length close to \<open>2 ^ 64\<close>, which no encoder writes, counts as too long.
In the release build the sum wraps there and the slice panics.\<close>

definition decode_seg :: "bytes \<Rightarrow> (seg \<times> nat) option" where
  "decode_seg buf =
     (case buf of
        [] \<Rightarrow> None
      | b # rest \<Rightarrow>
          if b = SEG_FIELD
          then case get_varint rest of
                 None \<Rightarrow> None
               | Some (len, n) \<Rightarrow>
                   if length buf < 1 + n + unat len then None
                   else Some (Field (slice (1 + n) (unat len) buf), 1 + n + unat len)
          else if b = SEG_ELEM
          then case eid_decode rest of None \<Rightarrow> None | Some e \<Rightarrow> Some (Elem e, 11)
          else None)"

lemma decode_seg_pos: "decode_seg buf = Some (s, n) \<Longrightarrow> 0 < n \<and> n \<le> length buf"
  by (auto simp: decode_seg_def eid_decode_def split: list.splits if_splits option.splits)

text \<open>The loops over a path, on the bytes from the current position on.\<close>

function decode_path :: "bytes \<Rightarrow> seg list option" where
  "decode_path suf =
     (if suf = [] then Some []
      else case decode_seg suf of
             None \<Rightarrow> None
           | Some (s, n) \<Rightarrow> (case decode_path (drop n suf) of None \<Rightarrow> None | Some ss \<Rightarrow> Some (s # ss)))"
  by pat_completeness auto

termination decode_path
  by (relation "measure length") (auto dest!: decode_seg_pos)

declare decode_path.simps [simp del]

function split_last_from :: "bytes \<Rightarrow> nat \<Rightarrow> (nat \<times> seg) option \<Rightarrow> (nat \<times> seg) option option" where
  "split_last_from path pos l =
     (if pos < length path
      then case decode_seg (drop pos path) of
             None \<Rightarrow> None
           | Some (s, n) \<Rightarrow> split_last_from path (pos + n) (Some (pos, s))
      else Some l)"
  by pat_completeness auto

termination split_last_from
  by (relation "measure (\<lambda>(path, pos, _). length path - pos)") (auto dest!: decode_seg_pos)

declare split_last_from.simps [simp del]

definition split_last :: "bytes \<Rightarrow> (bytes \<times> seg) option" where
  "split_last path =
     (case split_last_from path 0 None of
        None \<Rightarrow> None
      | Some None \<Rightarrow> None
      | Some (Some (start, s)) \<Rightarrow> Some (take start path, s))"

section \<open>Values\<close>

datatype jval = JV_Null | JV_Bool bool | JV_Int i64 | JV_UInt u64 | JV_Float u64 | JV_Str bytes | JV_Obj | JV_Arr

fun jval_encode :: "jval \<Rightarrow> bytes" where
  "jval_encode JV_Null = [0]"
| "jval_encode (JV_Bool False) = [1]"
| "jval_encode (JV_Bool True) = [2]"
| "jval_encode (JV_Int i) = [3] @ be64 i"
| "jval_encode (JV_UInt i) = [8] @ be64 i"
| "jval_encode (JV_Float f) = [4] @ be64 f"
| "jval_encode (JV_Str s) = [5] @ s"
| "jval_encode JV_Obj = [6]"
| "jval_encode JV_Arr = [7]"

definition jval_decode :: "bytes \<Rightarrow> jval option" where
  "jval_decode b =
     (case b of
        [] \<Rightarrow> None
      | t # rest \<Rightarrow>
          if t = 0 \<and> rest = [] then Some JV_Null
          else if t = 1 \<and> rest = [] then Some (JV_Bool False)
          else if t = 2 \<and> rest = [] then Some (JV_Bool True)
          else if t = 3 \<and> length rest = 8 then Some (JV_Int (of_be64 rest))
          else if t = 8 \<and> length rest = 8 then Some (JV_UInt (of_be64 rest))
          else if t = 4 \<and> length rest = 8 then Some (JV_Float (of_be64 rest))
          else if t = 5 then Some (JV_Str rest)
          else if t = 6 \<and> rest = [] then Some JV_Obj
          else if t = 7 \<and> rest = [] then Some JV_Arr
          else None)"

record arr_elem =
  el_left :: eid
  el_val :: jval

definition arr_elem_encode :: "arr_elem \<Rightarrow> bytes" where
  "arr_elem_encode a = eid_encode_to (el_left a) [] @ jval_encode (el_val a)"

definition arr_elem_decode :: "bytes \<Rightarrow> arr_elem option" where
  "arr_elem_decode b =
     (case eid_decode b of
        None \<Rightarrow> None
      | Some left \<Rightarrow>
          (case jval_decode (drop 10 b) of None \<Rightarrow> None | Some v \<Rightarrow> Some \<lparr>el_left = left, el_val = v\<rparr>))"

section \<open>Array order\<close>

definition rga_anchor :: "eid set \<Rightarrow> eid \<Rightarrow> eid" where
  "rga_anchor present left = (if left \<noteq> EID_HEAD \<and> left \<notin> present then EID_HEAD else left)"

definition rga_insert :: "eid set \<Rightarrow> (eid, (eid \<times> bool) list) fmap \<Rightarrow> eid \<times> eid \<times> bool \<Rightarrow> (eid, (eid \<times> bool) list) fmap" where
  "rga_insert present children = (\<lambda>(e, left, alive).
     let anchor = rga_anchor present left;
         old = (case fmlookup children anchor of None \<Rightarrow> [] | Some v \<Rightarrow> v)
     in fmupd anchor (old @ [(e, alive)]) children)"

definition rga_children :: "(eid \<times> eid \<times> bool) list \<Rightarrow> (eid, (eid \<times> bool) list) fmap" where
  "rga_children elems =
     fmmap (sort_key fst) (foldl (rga_insert (set (map fst elems))) fmempty elems)"

text \<open>The depth-first walk; the stack is popped at its end.\<close>

function rga_walk :: "(eid, (eid \<times> bool) list) fmap \<Rightarrow> (eid \<times> bool) list \<Rightarrow> (eid \<times> bool) list" where
  "rga_walk children stack =
     (if stack = [] then []
      else let (e, alive) = last stack; stack' = butlast stack
           in (e, alive) #
              (case fmlookup children e of
                 Some kids \<Rightarrow> rga_walk (fmdrop e children) (stack' @ kids)
               | None \<Rightarrow> rga_walk children stack'))"
  by pat_completeness auto

lemma fcard_fmdrop: "fmlookup m e = Some v \<Longrightarrow> fcard (fmdom m |-| {|e|}) < fcard (fmdom m)"
  by (metis fcard_fminus1_less fmdomI)

termination rga_walk
  by (relation "measures [\<lambda>(ch, _). fcard (fmdom ch), \<lambda>(_, st). length st]") (auto simp: fcard_fmdrop)

declare rga_walk.simps [simp del]

definition rga_order :: "(eid \<times> eid \<times> bool) list \<Rightarrow> (eid \<times> bool) list" where
  "rga_order elems =
     (let children = rga_children elems;
          stack = (case fmlookup children EID_HEAD of None \<Rightarrow> [] | Some v \<Rightarrow> v)
      in rga_walk (fmdrop EID_HEAD children) stack)"

end
