(* ===== verification/Json_Core_Laws.thy ===== *)
theory Json_Core_Laws
  imports Json_Core
begin

text \<open>
  Paths, values and array elements survive their codecs; a path is a byte prefix of another one exactly when
  its node is an ancestor; the order of an array depends on its elements and not on the order they are read
  in, and no element is lost or doubled.
\<close>

section \<open>Paths\<close>

definition seg_bytes :: "seg \<Rightarrow> bytes" where
  "seg_bytes s = push_seg [] s"

fun small_seg :: "seg \<Rightarrow> bool" where
  "small_seg (Field f) = (length f < 2 ^ 64)"
| "small_seg (Elem e) = True"

lemma push_seg_append: "push_seg path s = path @ seg_bytes s"
  by (cases s) (simp_all add: push_seg_def seg_bytes_def eid_encode_to_def)

lemma foldl_push_seg: "foldl push_seg path segs = path @ concat (map seg_bytes segs)"
  by (induction segs arbitrary: path) (simp_all add: push_seg_append)

lemma encode_path_concat: "encode_path segs = concat (map seg_bytes segs)"
  by (simp add: encode_path_def foldl_push_seg)

lemma encode_path_simps [simp]:
  "encode_path [] = []" "encode_path (s # ss) = seg_bytes s @ encode_path ss"
  "encode_path (ss @ ss') = encode_path ss @ encode_path ss'"
  by (simp_all add: encode_path_concat)

lemma seg_bytes_not_Nil [simp]: "seg_bytes s \<noteq> []"
  by (cases s) (simp_all add: push_seg_def seg_bytes_def eid_encode_to_def)

lemma eid_decode_encode [simp, codec]: "eid_decode (eid_encode_to e [] @ t) = Some e"
  by (cases e) (simp add: eid_decode_def eid_encode_to_def slice_def)

lemma decode_seg_bytes:
  assumes "small_seg s"
  shows "decode_seg (seg_bytes s @ t) = Some (s, length (seg_bytes s))"
proof (cases s)
  case (Field f)
  then have len: "unat (of_nat (length f) :: u64) = length f"
    using assms by (simp add: unat_of_nat take_bit_nat_eq_self)
  show ?thesis
    by (simp add: Field decode_seg_def seg_bytes_def push_seg_def len slice_def)
next
  case (Elem e)
  have "seg_bytes s = SEG_ELEM # eid_encode_to e []"
    by (simp add: Elem seg_bytes_def push_seg_def eid_encode_to_def)
  moreover have "length (eid_encode_to e []) = 10" by (simp add: eid_encode_to_def)
  ultimately show ?thesis
    by (simp add: decode_seg_def Elem) (simp add: SEG_FIELD_def SEG_ELEM_def)
qed

lemma decode_path_encode: "list_all small_seg segs \<Longrightarrow> decode_path (encode_path segs) = Some segs"
proof (induction segs)
  case Nil
  then show ?case by (simp add: decode_path.simps)
next
  case (Cons s segs)
  then show ?case by (subst decode_path.simps) (simp add: decode_seg_bytes)
qed

lemma seg_bytes_prefix_free:
  assumes "small_seg s" "small_seg s'" "seg_bytes s @ x = seg_bytes s' @ y"
  shows "s = s'" "x = y"
proof -
  have "Some (s, length (seg_bytes s)) = Some (s', length (seg_bytes s'))"
    using decode_seg_bytes [OF assms(1), of x] decode_seg_bytes [OF assms(2), of y] assms(3) by simp
  then show "s = s'" by simp
  with assms(3) show "x = y" by simp
qed

lemma encode_path_prefix_iff:
  "list_all small_seg a \<Longrightarrow> list_all small_seg b \<Longrightarrow> prefix (encode_path a) (encode_path b) \<longleftrightarrow> prefix a b"
proof (induction a arbitrary: b)
  case (Cons s a)
  show ?case
  proof (cases b)
    case Nil
    then show ?thesis by simp
  next
    case (Cons s' b')
    have "prefix (seg_bytes s @ encode_path a) (seg_bytes s' @ encode_path b') \<longleftrightarrow>
        s = s' \<and> prefix (encode_path a) (encode_path b')"
    proof
      assume "prefix (seg_bytes s @ encode_path a) (seg_bytes s' @ encode_path b')"
      then obtain z where "seg_bytes s' @ encode_path b' = seg_bytes s @ encode_path a @ z" by (auto simp: prefix_def)
      with seg_bytes_prefix_free [of s' s "encode_path b'" "encode_path a @ z"] Cons.prems \<open>b = s' # b'\<close>
      show "s = s' \<and> prefix (encode_path a) (encode_path b')" by simp
    qed simp
    then show ?thesis using Cons.IH [of b'] Cons.prems \<open>b = s' # b'\<close> by simp
  qed
qed simp

lemma encode_path_inject:
  "list_all small_seg a \<Longrightarrow> list_all small_seg b \<Longrightarrow> encode_path a = encode_path b \<longleftrightarrow> a = b"
  by (metis encode_path_prefix_iff prefix_order.eq_iff)

lemma split_last_from_encode:
  "list_all small_seg segs \<Longrightarrow> small_seg s \<Longrightarrow>
   split_last_from (pre @ encode_path segs @ seg_bytes s) (length pre) l = Some (Some (length pre + length (encode_path segs), s))"
proof (induction segs arbitrary: pre l)
  case Nil
  have "split_last_from (pre @ seg_bytes s) (length pre) l =
      split_last_from (pre @ seg_bytes s) (length pre + length (seg_bytes s)) (Some (length pre, s))"
    using decode_seg_bytes [OF Nil.prems(2), of "[]"] by (subst split_last_from.simps) simp
  then show ?case by (simp add: split_last_from.simps)
next
  case (Cons t segs)
  have "split_last_from (pre @ encode_path (t # segs) @ seg_bytes s) (length pre) l =
      split_last_from ((pre @ seg_bytes t) @ encode_path segs @ seg_bytes s) (length (pre @ seg_bytes t)) (Some (length pre, t))"
    using decode_seg_bytes [of t "encode_path segs @ seg_bytes s"] Cons.prems
    by (subst split_last_from.simps) simp
  with Cons.IH [of "pre @ seg_bytes t"] Cons.prems show ?case by simp
qed

lemma split_last_encode:
  assumes "list_all small_seg segs" "small_seg s"
  shows "split_last (encode_path (segs @ [s])) = Some (encode_path segs, s)"
  using split_last_from_encode [OF assms, of "[]" None] by (simp add: split_last_def)

section \<open>Values\<close>

lemma jval_decode_encode [simp, codec]: "jval_decode (jval_encode v) = Some v"
  by (cases v rule: jval_encode.cases) (simp_all add: jval_decode_def)

lemma jval_encode_decode: "jval_decode b = Some v \<Longrightarrow> jval_encode v = b"
  by (auto simp: jval_decode_def be_of_be split: list.splits if_splits)

lemma arr_elem_decode_encode [simp, codec]: "arr_elem_decode (arr_elem_encode a) = Some a"
proof -
  have "drop 10 (arr_elem_encode a) = jval_encode (el_val a)"
    by (simp add: arr_elem_encode_def eid_encode_to_def)
  moreover have "eid_decode (arr_elem_encode a) = Some (el_left a)" by (simp add: arr_elem_encode_def)
  ultimately show ?thesis by (simp add: arr_elem_decode_def)
qed

section \<open>Children of an anchor\<close>

definition kids_of :: "eid set \<Rightarrow> (eid \<times> eid \<times> bool) list \<Rightarrow> eid \<Rightarrow> (eid \<times> bool) list" where
  "kids_of present elems a =
     map (\<lambda>(e, _, alive). (e, alive)) (filter (\<lambda>(_, left, _). rga_anchor present left = a) elems)"

lemma lookup_foldl_insert:
  "fmlookup (foldl (rga_insert P) m elems) a =
     (if kids_of P elems a = [] then fmlookup m a
      else Some ((case fmlookup m a of None \<Rightarrow> [] | Some v \<Rightarrow> v) @ kids_of P elems a))"
proof (induction elems arbitrary: m)
  case Nil
  then show ?case by (simp add: kids_of_def)
next
  case (Cons x elems)
  obtain e left alive where x: "x = (e, left, alive)" by (cases x)
  show ?case
    using Cons [of "rga_insert P m x"] by (auto simp: x rga_insert_def Let_def kids_of_def split: option.splits)
qed

lemma lookup_rga_children:
  "fmlookup (rga_children elems) a =
     (if kids_of (set (map fst elems)) elems a = [] then None
      else Some (sort_key fst (kids_of (set (map fst elems)) elems a)))"
  by (simp add: rga_children_def lookup_foldl_insert)

lemma sort_key_determined:
  assumes "mset xs = mset ys" "distinct (map fst xs)"
  shows "sort_key fst xs = sort_key fst (ys :: (eid \<times> bool) list)"
proof (rule map_sorted_distinct_set_unique [of fst])
  have set: "set xs = set ys" using assms(1) by (rule mset_eq_setD)
  have d: "distinct (map fst ys)" using assms by (metis mset_eq_imp_distinct_iff mset_map)
  show "inj_on fst (set (sort_key fst xs) \<union> set (sort_key fst ys))"
    using assms(2) set by (simp add: distinct_map)
  show "sorted (map fst (sort_key fst xs))" "sorted (map fst (sort_key fst ys))" by simp_all
  show "distinct (map fst (sort_key fst xs))" "distinct (map fst (sort_key fst ys))"
    using assms(2) d by (metis mset_map mset_sort mset_eq_imp_distinct_iff)+
  show "set (sort_key fst xs) = set (sort_key fst ys)" by (simp add: set)
qed

lemma mset_kids_of: "mset xs = mset ys \<Longrightarrow> mset (kids_of P xs a) = mset (kids_of P ys a)"
  by (simp add: kids_of_def mset_filter)

lemma distinct_kids_of: "distinct (map fst xs) \<Longrightarrow> distinct (map fst (kids_of P xs a))"
proof -
  have "map fst (kids_of P xs a) = map fst (filter (\<lambda>(_, left, _). rga_anchor P left = a) xs)"
    by (simp add: kids_of_def comp_def case_prod_beta)
  then show "distinct (map fst xs) \<Longrightarrow> ?thesis" by (simp only: distinct_map_filter)
qed

lemma rga_children_determined:
  assumes "mset xs = mset ys" "distinct (map fst xs)"
  shows "rga_children xs = rga_children ys"
proof (rule fmap_ext)
  fix a
  have P: "set (map fst xs) = set (map fst ys)" using mset_eq_setD [OF assms(1)] by simp
  note k = mset_kids_of [OF assms(1), of "set (map fst xs)" a] distinct_kids_of [OF assms(2), of "set (map fst xs)" a]
  have "kids_of (set (map fst xs)) xs a = [] \<longleftrightarrow> kids_of (set (map fst xs)) ys a = []"
    using k(1) by (metis mset_zero_iff)
  then show "fmlookup (rga_children xs) a = fmlookup (rga_children ys) a"
    using sort_key_determined [OF k] by (simp only: lookup_rga_children P)
qed

section \<open>The walk\<close>

definition vals :: "(eid, (eid \<times> bool) list) fmap \<Rightarrow> (eid \<times> bool) set" where
  "vals ch = {p. \<exists>a kids. fmlookup ch a = Some kids \<and> p \<in> set kids}"

text \<open>Every anchor is itself still to come, and elements are newer than what they are anchored to.\<close>

definition anchored :: "(eid, (eid \<times> bool) list) fmap \<Rightarrow> (eid \<times> bool) list \<Rightarrow> bool" where
  "anchored ch st \<longleftrightarrow>
     (\<forall>a kids. fmlookup ch a = Some kids \<longrightarrow> a \<in> fst ` (set st \<union> vals ch) \<and> (\<forall>p\<in>set kids. a < fst p))"

definition separate :: "(eid, (eid \<times> bool) list) fmap \<Rightarrow> (eid \<times> bool) list \<Rightarrow> bool" where
  "separate ch st \<longleftrightarrow>
     distinct (map fst st) \<and>
     (\<forall>a kids. fmlookup ch a = Some kids \<longrightarrow> distinct (map fst kids) \<and> fst ` set kids \<inter> fst ` set st = {}) \<and>
     (\<forall>a b ka kb. fmlookup ch a = Some ka \<longrightarrow> fmlookup ch b = Some kb \<longrightarrow> a \<noteq> b \<longrightarrow> fst ` set ka \<inter> fst ` set kb = {})"

lemma vals_drop: "fmlookup ch e = Some kids \<Longrightarrow> vals ch = vals (fmdrop e ch) \<union> set kids"
  by (auto simp: vals_def split: if_splits)

lemma stack_split: "stack \<noteq> [] \<Longrightarrow> set stack = insert (last stack) (set (butlast stack))"
  by (cases stack rule: rev_cases) simp_all

lemma anchored_empty:
  assumes "anchored ch []"
  shows "vals ch = {}"
proof (rule ccontr)
  assume "vals ch \<noteq> {}"
  then have ne: "fmdom ch \<noteq> {||}" by (auto simp: vals_def dest: fmdomI)
  let ?a = "fMin (fmdom ch)"
  have "?a |\<in>| fmdom ch" using ne by simp
  then obtain kids where "fmlookup ch ?a = Some kids" by (auto simp: fmlookup_dom_iff)
  then have "?a \<in> fst ` vals ch" using assms unfolding anchored_def by auto
  then obtain b kb p where b: "fmlookup ch b = Some kb" "p \<in> set kb" "fst p = ?a"
    unfolding vals_def by auto
  have "\<forall>p\<in>set kb. b < fst p" using assms b(1) unfolding anchored_def by blast
  then have "b < ?a" using b(2,3) by force
  moreover have "?a \<le> b" using b(1) by (intro fMin_le) (rule fmdomI)
  ultimately show False by simp
qed

lemma anchored_kids:
  assumes "anchored ch stack" "stack \<noteq> []" "last stack = (e, alive)" "fmlookup ch e = Some kids"
  shows "anchored (fmdrop e ch) (butlast stack @ kids)"
  unfolding anchored_def
proof (intro allI impI)
  fix a ks
  assume "fmlookup (fmdrop e ch) a = Some ks"
  then have a: "a \<noteq> e" "fmlookup ch a = Some ks" by (auto split: if_splits)
  then have "a \<in> fst ` (set stack \<union> vals ch)" "\<forall>p\<in>set ks. a < fst p"
    using assms(1) by (auto simp: anchored_def)
  moreover have "set stack \<union> vals ch = insert (e, alive) (set (butlast stack @ kids) \<union> vals (fmdrop e ch))"
    using stack_split [OF assms(2)] vals_drop [OF assms(4)] assms(3) by auto
  ultimately show "a \<in> fst ` (set (butlast stack @ kids) \<union> vals (fmdrop e ch)) \<and> (\<forall>p\<in>set ks. a < fst p)"
    using a(1) by auto
qed

lemma anchored_no_kids:
  assumes "anchored ch stack" "stack \<noteq> []" "last stack = (e, alive)" "fmlookup ch e = None"
  shows "anchored ch (butlast stack)"
  unfolding anchored_def
proof (intro allI impI)
  fix a ks
  assume a: "fmlookup ch a = Some ks"
  then have "a \<in> fst ` (set stack \<union> vals ch)" "\<forall>p\<in>set ks. a < fst p" "a \<noteq> e"
    using assms(1,4) by (auto simp: anchored_def)
  then show "a \<in> fst ` (set (butlast stack) \<union> vals ch) \<and> (\<forall>p\<in>set ks. a < fst p)"
    using stack_split [OF assms(2)] assms(3) by auto
qed

lemma set_rga_walk: "anchored ch stack \<Longrightarrow> set (rga_walk ch stack) = set stack \<union> vals ch"
proof (induction ch stack rule: rga_walk.induct)
  case (1 ch stack)
  show ?case
  proof (cases "stack = []")
    case True
    then show ?thesis using anchored_empty "1.prems" by (simp add: rga_walk.simps)
  next
    case False
    obtain e alive where l: "last stack = (e, alive)" by fastforce
    show ?thesis
    proof (cases "fmlookup ch e")
      case None
      then show ?thesis
        using "1.IH"(1) [OF False refl l [symmetric] refl None] anchored_no_kids [OF "1.prems" False l None]
          False l stack_split [OF False] by (subst rga_walk.simps) auto
    next
      case (Some kids)
      then show ?thesis
        using "1.IH"(2) [OF False refl l [symmetric] refl Some] anchored_kids [OF "1.prems" False l Some]
          False l stack_split [OF False] vals_drop [OF Some] by (subst rga_walk.simps) auto
    qed
  qed
qed

lemma separateD:
  assumes "separate ch st"
  shows "distinct (map fst st)"
    "fmlookup ch a = Some ka \<Longrightarrow> distinct (map fst ka)"
    "fmlookup ch a = Some ka \<Longrightarrow> fst ` set ka \<inter> fst ` set st = {}"
    "fmlookup ch a = Some ka \<Longrightarrow> fmlookup ch b = Some kb \<Longrightarrow> a \<noteq> b \<Longrightarrow> fst ` set ka \<inter> fst ` set kb = {}"
proof -
  note s = assms [unfolded separate_def]
  show "distinct (map fst st)" using s by (rule conjunct1)
  show "distinct (map fst ka)" "fst ` set ka \<inter> fst ` set st = {}" if "fmlookup ch a = Some ka"
    using s [THEN conjunct2, THEN conjunct1, rule_format, OF that] by (rule conjunct1, rule conjunct2)
  show "fst ` set ka \<inter> fst ` set kb = {}" if "fmlookup ch a = Some ka" "fmlookup ch b = Some kb" "a \<noteq> b"
    using s [THEN conjunct2, THEN conjunct2, rule_format, OF that] .
qed

lemma separateI:
  assumes "distinct (map fst st)"
    "\<And>a ka. fmlookup ch a = Some ka \<Longrightarrow> distinct (map fst ka) \<and> fst ` set ka \<inter> fst ` set st = {}"
    "\<And>a b ka kb. fmlookup ch a = Some ka \<Longrightarrow> fmlookup ch b = Some kb \<Longrightarrow> a \<noteq> b \<Longrightarrow> fst ` set ka \<inter> fst ` set kb = {}"
  shows "separate ch st"
  unfolding separate_def
proof (intro conjI allI impI)
  show "distinct (map fst st)" by (rule assms(1))
  show "distinct (map fst ka)" "fst ` set ka \<inter> fst ` set st = {}" if "fmlookup ch a = Some ka" for a ka
    using assms(2) [OF that] by simp_all
  show "fst ` set ka \<inter> fst ` set kb = {}" if "fmlookup ch a = Some ka" "fmlookup ch b = Some kb" "a \<noteq> b" for a b ka kb
    by (rule assms(3) [OF that])
qed

lemma disjoint_mono: "A \<subseteq> C \<Longrightarrow> B \<subseteq> D \<Longrightarrow> C \<inter> D = {} \<Longrightarrow> A \<inter> B = {}"
  by blast

lemma butlast_keys: "fst ` set (butlast st) \<subseteq> fst ` set st"
  by (auto dest: in_set_butlastD)

lemma disjoint_butlast: "A \<inter> fst ` set st = {} \<Longrightarrow> A \<inter> fst ` set (butlast st) = {}"
  by (rule disjoint_mono [OF subset_refl butlast_keys])

lemma separate_kids:
  assumes "separate ch stack" "fmlookup ch e = Some kids"
  shows "separate (fmdrop e ch) (butlast stack @ kids)"
proof (rule separateI)
  note s = separateD [OF assms(1)]
  have "fst ` set kids \<inter> fst ` set (butlast stack) = {}" using s(3) [OF assms(2)] by (rule disjoint_butlast)
  moreover have "distinct (map fst (butlast stack))" using s(1) by (simp add: map_butlast distinct_butlast)
  ultimately show "distinct (map fst (butlast stack @ kids))"
    using s(2) [OF assms(2)] by (simp only: map_append distinct_append set_map Int_commute simp_thms)
next
  note s = separateD [OF assms(1)]
  fix a ka
  assume "fmlookup (fmdrop e ch) a = Some ka"
  then have a: "a \<noteq> e" "fmlookup ch a = Some ka" by (auto split: if_splits)
  have "fst ` set ka \<inter> fst ` set (butlast stack) = {}" using s(3) [OF a(2)] by (rule disjoint_butlast)
  moreover have "fst ` set ka \<inter> fst ` set kids = {}" by (rule s(4) [OF a(2) assms(2) a(1)])
  ultimately show "distinct (map fst ka) \<and> fst ` set ka \<inter> fst ` set (butlast stack @ kids) = {}"
    using s(2) [OF a(2)] by auto
next
  fix a b ka kb
  assume "fmlookup (fmdrop e ch) a = Some ka" "fmlookup (fmdrop e ch) b = Some kb" "a \<noteq> b"
  then show "fst ` set ka \<inter> fst ` set kb = {}"
    using separateD(4) [OF assms(1)] by (simp split: if_splits)
qed

lemma separate_no_kids:
  assumes "separate ch stack"
  shows "separate ch (butlast stack)"
proof (rule separateI)
  note s = separateD [OF assms]
  show "distinct (map fst (butlast stack))" using s(1) by (simp add: map_butlast distinct_butlast)
  show "distinct (map fst ka) \<and> fst ` set ka \<inter> fst ` set (butlast stack) = {}" if "fmlookup ch a = Some ka" for a ka
    using s(2) [OF that] disjoint_butlast [OF s(3) [OF that]] by (rule conjI)
  show "fst ` set ka \<inter> fst ` set kb = {}" if "fmlookup ch a = Some ka" "fmlookup ch b = Some kb" "a \<noteq> b" for a b ka kb
    by (rule s(4) [OF that])
qed

lemma rga_walk_subset: "set (rga_walk ch stack) \<subseteq> set stack \<union> vals ch"
proof (induction ch stack rule: rga_walk.induct)
  case (1 ch stack)
  show ?case
  proof (cases "stack = []")
    case True
    then show ?thesis by (simp add: rga_walk.simps)
  next
    case False
    obtain e alive where l: "last stack = (e, alive)" by fastforce
    show ?thesis
    proof (cases "fmlookup ch e")
      case None
      then show ?thesis
        using "1.IH"(1) [OF False refl l [symmetric] refl None] False l stack_split [OF False]
        by (subst rga_walk.simps) auto
    next
      case (Some kids)
      then show ?thesis
        using "1.IH"(2) [OF False refl l [symmetric] refl Some] False l stack_split [OF False] vals_drop [OF Some]
        by (subst rga_walk.simps) auto
    qed
  qed
qed

text \<open>No element is emitted twice.\<close>

lemma vals_keys_disjoint:
  assumes "separate ch stack" "stack \<noteq> []" "last stack = (e, alive)"
  shows "e \<notin> fst ` set (butlast stack)" "e \<notin> fst ` vals ch"
proof -
  obtain bl where st: "stack = bl @ [(e, alive)]" using assms(2,3) by (cases stack rule: rev_cases) auto
  show "e \<notin> fst ` set (butlast stack)" using separateD(1) [OF assms(1)] by (simp add: st)
  have "e \<notin> fst ` set ka" if "fmlookup ch a = Some ka" for a ka
    using separateD(3) [OF assms(1) that] by (simp add: st)
  then show "e \<notin> fst ` vals ch" unfolding vals_def by auto
qed

lemma distinct_rga_walk: "separate ch stack \<Longrightarrow> distinct (map fst (rga_walk ch stack))"
proof (induction ch stack rule: rga_walk.induct)
  case (1 ch stack)
  show ?case
  proof (cases "stack = []")
    case True
    then show ?thesis by (simp add: rga_walk.simps)
  next
    case False
    obtain e alive where l: "last stack = (e, alive)" by fastforce
    note d = vals_keys_disjoint [OF "1.prems" False l]
    show ?thesis
    proof (cases "fmlookup ch e")
      case None
      have "e \<notin> fst ` set (rga_walk ch (butlast stack))"
        using d image_mono [OF rga_walk_subset [of ch "butlast stack"], of fst] by (auto simp only: image_Un)
      then show ?thesis
        using "1.IH"(1) [OF False refl l [symmetric] refl None separate_no_kids [OF "1.prems"]] False l None
        by (subst rga_walk.simps) simp
    next
      case (Some kids)
      have "e \<notin> fst ` set (rga_walk (fmdrop e ch) (butlast stack @ kids))"
        using d image_mono [OF rga_walk_subset [of "fmdrop e ch" "butlast stack @ kids"], of fst] vals_drop [OF Some]
        by (auto simp only: image_Un set_append)
      then show ?thesis
        using "1.IH"(2) [OF False refl l [symmetric] refl Some separate_kids [OF "1.prems" Some]] False l Some
        by (subst rga_walk.simps) simp
    qed
  qed
qed

section \<open>The order of an array\<close>

lemma set_kids_of:
  "set (kids_of P elems a) = {(e, alive). \<exists>left. (e, left, alive) \<in> set elems \<and> rga_anchor P left = a}"
  by (force simp: kids_of_def)

definition head_kids :: "(eid \<times> eid \<times> bool) list \<Rightarrow> (eid \<times> bool) list" where
  "head_kids elems = (case fmlookup (rga_children elems) EID_HEAD of None \<Rightarrow> [] | Some v \<Rightarrow> v)"

lemma rga_order_walk: "rga_order elems = rga_walk (fmdrop EID_HEAD (rga_children elems)) (head_kids elems)"
  by (simp add: rga_order_def head_kids_def Let_def)

lemma rga_children_Some:
  "fmlookup (rga_children elems) a = Some ka \<Longrightarrow>
     set ka = {(e, alive). \<exists>left. (e, left, alive) \<in> set elems \<and> rga_anchor (set (map fst elems)) left = a}"
proof -
  assume "fmlookup (rga_children elems) a = Some ka"
  then have "ka = sort_key fst (kids_of (set (map fst elems)) elems a)"
    by (simp add: lookup_rga_children split: if_splits)
  then show ?thesis by (simp only: set_sort set_kids_of)
qed

lemma set_head_kids:
  "set (head_kids elems) = {(e, alive). \<exists>left. (e, left, alive) \<in> set elems \<and> rga_anchor (set (map fst elems)) left = EID_HEAD}"
proof (cases "fmlookup (rga_children elems) EID_HEAD")
  case None
  then have "kids_of (set (map fst elems)) elems EID_HEAD = []" by (simp add: lookup_rga_children split: if_splits)
  then have "set (kids_of (set (map fst elems)) elems EID_HEAD) = {}" by simp
  then show ?thesis using None by (simp only: set_kids_of) (simp add: head_kids_def)
next
  case (Some ka)
  then show ?thesis using rga_children_Some [OF Some] by (simp add: head_kids_def)
qed

lemma children_lookup:
  assumes "(e, left, alive) \<in> set elems"
  obtains ka where "fmlookup (rga_children elems) (rga_anchor (set (map fst elems)) left) = Some ka" "(e, alive) \<in> set ka"
proof -
  have mem: "(e, alive) \<in> set (kids_of (set (map fst elems)) elems (rga_anchor (set (map fst elems)) left))"
    using assms by (auto simp: set_kids_of)
  from this have lookup: "fmlookup (rga_children elems) (rga_anchor (set (map fst elems)) left) =
      Some (sort_key fst (kids_of (set (map fst elems)) elems (rga_anchor (set (map fst elems)) left)))"
    by (auto simp: lookup_rga_children)
  show thesis by (rule that [OF lookup]) (use mem in simp)
qed

lemma rga_items: "set (head_kids elems) \<union> vals (fmdrop EID_HEAD (rga_children elems)) = (\<lambda>(e, _, alive). (e, alive)) ` set elems"
proof (intro equalityI subsetI)
  fix p
  assume "p \<in> set (head_kids elems) \<union> vals (fmdrop EID_HEAD (rga_children elems))"
  then show "p \<in> (\<lambda>(e, _, alive). (e, alive)) ` set elems"
    by (force simp: set_head_kids vals_def dest: rga_children_Some split: if_splits)
next
  fix p
  assume "p \<in> (\<lambda>(e, _, alive). (e, alive)) ` set elems"
  then obtain e left alive where p: "p = (e, alive)" "(e, left, alive) \<in> set elems" by auto
  obtain ka where ka: "fmlookup (rga_children elems) (rga_anchor (set (map fst elems)) left) = Some ka" "(e, alive) \<in> set ka"
    using p(2) by (rule children_lookup)
  show "p \<in> set (head_kids elems) \<union> vals (fmdrop EID_HEAD (rga_children elems))"
  proof (cases "rga_anchor (set (map fst elems)) left = EID_HEAD")
    case True
    with ka p show ?thesis by (simp add: head_kids_def)
  next
    case False
    with ka p show ?thesis unfolding vals_def by auto
  qed
qed

lemma rga_anchored:
  assumes "\<And>e left alive. (e, left, alive) \<in> set elems \<Longrightarrow> left < e"
  shows "anchored (fmdrop EID_HEAD (rga_children elems)) (head_kids elems)"
  unfolding anchored_def rga_items
proof (intro allI impI conjI)
  fix a kids
  assume "fmlookup (fmdrop EID_HEAD (rga_children elems)) a = Some kids"
  then have a: "a \<noteq> EID_HEAD" "fmlookup (rga_children elems) a = Some kids" by (auto split: if_splits)
  have left: "left = a \<and> a \<in> fst ` set elems" if "rga_anchor (set (map fst elems)) left = a" for left
    using that a(1) by (auto simp: rga_anchor_def split: if_splits)
  note kids = rga_children_Some [OF a(2)]
  show "\<forall>p\<in>set kids. a < fst p" using kids left assms by fastforce
  have "kids_of (set (map fst elems)) elems a \<noteq> []" using a(2) by (simp add: lookup_rga_children split: if_splits)
  then obtain p where "p \<in> set (kids_of (set (map fst elems)) elems a)" by (meson list.set_sel(1))
  then obtain left where "rga_anchor (set (map fst elems)) left = a" unfolding set_kids_of by auto
  then have "a \<in> fst ` set elems" using left by simp
  then show "a \<in> fst ` (\<lambda>(e, _, alive). (e, alive)) ` set elems" by (force simp: image_image)
qed

lemma distinct_sort_key: "distinct (map fst (sort_key fst xs)) \<longleftrightarrow> distinct (map fst xs)"
  by (metis mset_eq_imp_distinct_iff mset_map mset_sort)

lemma rga_separate:
  assumes "distinct (map fst elems)"
  shows "separate (fmdrop EID_HEAD (rga_children elems)) (head_kids elems)"
proof -
  let ?P = "set (map fst elems)"
  have one: "rga_anchor ?P left = rga_anchor ?P left'"
    if "(e, left, alive) \<in> set elems" "(e, left', alive') \<in> set elems" for e left left' alive alive'
    using eq_key_imp_eq_value [OF assms that] by simp
  have disj: "fst ` set ka \<inter> fst ` set kb = {}"
    if "set ka = {(e, alive). \<exists>left. (e, left, alive) \<in> set elems \<and> rga_anchor ?P left = a}"
      "set kb = {(e, alive). \<exists>left. (e, left, alive) \<in> set elems \<and> rga_anchor ?P left = b}" "a \<noteq> b" for ka kb :: "(eid \<times> bool) list" and a b
  proof -
    have "a = b" if x: "x \<in> fst ` set ka" "x \<in> fst ` set kb" for x
    proof -
      obtain left alive where l: "(x, left, alive) \<in> set elems" "rga_anchor ?P left = a"
        using x(1) unfolding \<open>set ka = _\<close> by auto
      obtain left' alive' where l': "(x, left', alive') \<in> set elems" "rga_anchor ?P left' = b"
        using x(2) unfolding \<open>set kb = _\<close> by auto
      show "a = b" using one [OF l(1) l'(1)] l(2) l'(2) by simp
    qed
    then show ?thesis using \<open>a \<noteq> b\<close> by (meson disjoint_iff)
  qed
  have dist: "distinct (map fst ka)" if "fmlookup (rga_children elems) a = Some ka" for a ka
  proof -
    have "ka = sort_key fst (kids_of ?P elems a)" using that by (simp add: lookup_rga_children split: if_splits)
    then show ?thesis using distinct_kids_of [OF assms, of ?P a] by (simp only: distinct_sort_key)
  qed
  show ?thesis
  proof (rule separateI)
    show "distinct (map fst (head_kids elems))" using dist by (auto simp: head_kids_def split: option.splits)
    fix a ka
    assume "fmlookup (fmdrop EID_HEAD (rga_children elems)) a = Some ka"
    then have a: "a \<noteq> EID_HEAD" "fmlookup (rga_children elems) a = Some ka" by (auto split: if_splits)
    show "distinct (map fst ka) \<and> fst ` set ka \<inter> fst ` set (head_kids elems) = {}"
      using dist [OF a(2)] disj [OF rga_children_Some [OF a(2)] set_head_kids a(1)] by (rule conjI)
  next
    fix a b ka kb
    assume "fmlookup (fmdrop EID_HEAD (rga_children elems)) a = Some ka" "fmlookup (fmdrop EID_HEAD (rga_children elems)) b = Some kb" "a \<noteq> b"
    then show "fst ` set ka \<inter> fst ` set kb = {}"
      by (intro disj [OF rga_children_Some rga_children_Some]) (auto split: if_splits)
  qed
qed

lemma rga_order_distinct: "distinct (map fst elems) \<Longrightarrow> distinct (map fst (rga_order elems))"
  unfolding rga_order_walk by (rule distinct_rga_walk) (rule rga_separate)

lemma set_rga_order:
  "(\<And>e left alive. (e, left, alive) \<in> set elems \<Longrightarrow> left < e) \<Longrightarrow>
   set (rga_order elems) = (\<lambda>(e, _, alive). (e, alive)) ` set elems"
  unfolding rga_order_walk by (subst set_rga_walk) (auto intro: rga_anchored simp: rga_items)

lemma mset_rga_order:
  assumes "distinct (map fst elems)" "\<And>e left alive. (e, left, alive) \<in> set elems \<Longrightarrow> left < e"
  shows "mset (rga_order elems) = mset (map (\<lambda>(e, _, alive). (e, alive)) elems)"
proof (rule set_eq_iff_mset_eq_distinct [THEN iffD1])
  show "distinct (rga_order elems)" using rga_order_distinct [OF assms(1)] by (simp add: distinct_map)
  have "map fst (map (\<lambda>(e, _, alive). (e, alive)) elems) = map fst elems" by (simp add: comp_def case_prod_beta)
  then show "distinct (map (\<lambda>(e, _, alive). (e, alive)) elems)" using assms(1) by (metis distinct_map)
  show "set (rga_order elems) = set (map (\<lambda>(e, _, alive). (e, alive)) elems)" using set_rga_order [OF assms(2)] by simp
qed

section \<open>Properties\<close>

text \<open>C23: record paths decode to the segments they were made of, the last segment and the parent of a path
  are found again, and a path is a byte prefix of another one exactly when its node is an ancestor, so that
  a prefix scan reads a subtree.\<close>

theorem json_paths:
  assumes "list_all small_seg a" "list_all small_seg b" "small_seg s"
  shows "decode_path (encode_path a) = Some a \<and> split_last (encode_path (a @ [s])) = Some (encode_path a, s) \<and>
         (prefix (encode_path a) (encode_path b) \<longleftrightarrow> prefix a b)"
  using decode_path_encode [OF assms(1)] split_last_encode [OF assms(1,3)] encode_path_prefix_iff [OF assms(1,2)] by blast

theorem json_paths_witness:
  "split_last (encode_path [Field [97], Elem (Eid 7 1)]) = Some (encode_path [Field [97]], Elem (Eid 7 1))"
  using json_paths [of "[Field [97]]" "[]" "Elem (Eid 7 1)"] by simp

text \<open>C13: replicas show an array in the same order: the order depends on the elements a replica holds and not
  on the order it reads them in, and it has every element, live or dead, exactly once.\<close>

theorem rga_order_determined:
  assumes "distinct (map fst elems)" "\<And>e left alive. (e, left, alive) \<in> set elems \<Longrightarrow> left < e"
    "mset elems' = mset elems"
  shows "rga_order elems' = rga_order elems \<and>
         mset (rga_order elems) = mset (map (\<lambda>(e, _, alive). (e, alive)) elems)"
proof
  have "rga_children elems = rga_children elems'"
    by (rule rga_children_determined [OF assms(3) [symmetric] assms(1)])
  then show "rga_order elems' = rga_order elems" by (simp add: rga_order_def)
qed (rule mset_rga_order [OF assms(1,2)])

theorem rga_order_determined_witness:
  "rga_order [(Eid 2 1, EID_HEAD, True), (Eid 3 1, Eid 2 1, False)] =
   rga_order [(Eid 3 1, Eid 2 1, False), (Eid 2 1, EID_HEAD, True)]"
  by (rule rga_order_determined [THEN conjunct1]) (auto simp: EID_HEAD_def less_eid_def)

end
