(* ===== verification/Ring.thy ===== *)
theory Ring
  imports Prelude
begin

text \<open>
  \<open>marekvs-repl/src/ring.rs\<close>: the bounded replication ring. Commits append operations, which get the ring's
  own sequence numbers; readers poll it with a cursor. The ring implements the log of everything ever pushed,
  cut to the longest tail that fits its two limits.
\<close>

section \<open>Definitions\<close>

text \<open>\<open>ReplOp\<close> of \<open>marekvs-proto\<close>: a record, verbatim.\<close>

record repl_op =
  op_ikey :: bytes
  op_value :: bytes

definition RING_MAX_BYTES :: nat where "RING_MAX_BYTES = 128 * 1024 * 1024"
definition RING_MAX_OPS :: nat where "RING_MAX_OPS = 262144"

record ring_entry =
  re_seq :: u64
  re_origin :: u16
  re_op :: repl_op

record ring =
  r_buf :: "ring_entry list"
  r_bytes :: nat
  next_local_seq :: u64
  standalone_cfg :: bool
  r_members :: nat

definition buffering_needed :: "ring \<Rightarrow> bool" where
  "buffering_needed r = (\<not> standalone_cfg r \<or> r_members r > 1)"

definition new_starting_at :: "u64 \<Rightarrow> ring" where
  "new_starting_at first_seq =
     \<lparr>r_buf = [], r_bytes = 0, next_local_seq = max first_seq 1, standalone_cfg = False, r_members = 1\<rparr>"

definition entry_cost :: "repl_op \<Rightarrow> nat" where
  "entry_cost op = length (op_ikey op) + length (op_value op) + 32"

text \<open>The two loops of \<open>push\<close>: append, then drop from the front while a limit is exceeded.\<close>

fun ring_append :: "u16 \<Rightarrow> repl_op list \<Rightarrow> ring \<Rightarrow> ring" where
  "ring_append origin [] r = r"
| "ring_append origin (op # ops) r =
     ring_append origin ops
       (r\<lparr>next_local_seq := next_local_seq r + 1, r_bytes := r_bytes r + entry_cost op,
          r_buf := r_buf r @ [\<lparr>re_seq = next_local_seq r, re_origin = origin, re_op = op\<rparr>]\<rparr>)"

fun ring_evict :: "ring_entry list \<Rightarrow> nat \<Rightarrow> ring_entry list \<times> nat" where
  "ring_evict [] bytes = ([], bytes)"
| "ring_evict (e # es) bytes =
     (if bytes > RING_MAX_BYTES \<or> length (e # es) > RING_MAX_OPS
      then ring_evict es (bytes - entry_cost (re_op e)) else (e # es, bytes))"

definition ring_push :: "u16 \<Rightarrow> repl_op list \<Rightarrow> ring \<Rightarrow> ring" where
  "ring_push origin ops r =
     (let g = ring_append origin ops r; (buf, bytes) = ring_evict (r_buf g) (r_bytes g)
      in g\<lparr>r_buf := buf, r_bytes := bytes\<rparr>)"

definition read_after :: "u64 \<Rightarrow> nat \<Rightarrow> ring \<Rightarrow> ring_entry list \<times> bool" where
  "read_after after mx r =
     (let first = (case r_buf r of e # _ \<Rightarrow> re_seq e | [] \<Rightarrow> next_local_seq r)
      in (take mx (filter (\<lambda>e. re_seq e > after) (r_buf r)), after + 1 < first))"

definition occupancy :: "ring \<Rightarrow> nat \<times> nat" where
  "occupancy r = (length (r_buf r), r_bytes r)"

definition last_seq :: "ring \<Rightarrow> u64" where
  "last_seq r = (if r_buf r = [] then next_local_seq r - 1 else re_seq (last (r_buf r)))"

section \<open>The log a ring stands for\<close>

definition fits :: "ring_entry list \<Rightarrow> bool" where
  "fits es \<longleftrightarrow> sum_list (map (\<lambda>e. entry_cost (re_op e)) es) \<le> RING_MAX_BYTES \<and> length es \<le> RING_MAX_OPS"

text \<open>The longest tail that fits.\<close>

fun keep_tail :: "ring_entry list \<Rightarrow> ring_entry list" where
  "keep_tail [] = []"
| "keep_tail (e # es) = (if fits (e # es) then e # es else keep_tail es)"

text \<open>The entries a push adds to a log whose next sequence number is \<open>s\<close>.\<close>

fun stamp :: "u16 \<Rightarrow> u64 \<Rightarrow> repl_op list \<Rightarrow> ring_entry list" where
  "stamp origin s [] = []"
| "stamp origin s (op # ops) = \<lparr>re_seq = s, re_origin = origin, re_op = op\<rparr> # stamp origin (s + 1) ops"

abbreviation costs :: "ring_entry list \<Rightarrow> nat" where
  "costs es \<equiv> sum_list (map (\<lambda>e. entry_cost (re_op e)) es)"

lemma fits_suffix: "fits (xs @ ys) \<Longrightarrow> fits ys"
  by (simp add: fits_def)

lemma keep_tail_suffix: "suffix (keep_tail xs) xs"
  by (induction xs) (auto simp: suffix_Cons)

lemma fits_keep_tail: "fits (keep_tail xs)"
  by (induction xs) (simp_all add: fits_def)

lemma keep_tail_fits: "fits xs \<Longrightarrow> keep_tail xs = xs"
  by (cases xs) simp_all

lemma keep_tail_append: "keep_tail (keep_tail xs @ ys) = keep_tail (xs @ ys)"
proof (induction xs)
  case (Cons x xs)
  have "\<not> fits (x # xs @ ys)" if "\<not> fits (x # xs)"
    using that by (auto simp: fits_def)
  with Cons show ?case by simp
qed simp

lemma ring_evict_keep_tail: "ring_evict es (costs es) = (keep_tail es, costs (keep_tail es))"
proof (induction es)
  case (Cons e es)
  then show ?case by (auto simp: fits_def)
qed simp

lemma ring_append_eq:
  "ring_append origin ops r =
     r\<lparr>next_local_seq := next_local_seq r + of_nat (length ops),
       r_bytes := r_bytes r + costs (stamp origin (next_local_seq r) ops),
       r_buf := r_buf r @ stamp origin (next_local_seq r) ops\<rparr>"
  by (induction origin ops r rule: ring_append.induct) (simp_all add: ac_simps)

section \<open>Runs of a ring\<close>

text \<open>A ring that started at sequence number \<open>first\<close> after the pushes recorded in \<open>log\<close>.\<close>

inductive ring_run :: "u64 \<Rightarrow> ring_entry list \<Rightarrow> ring \<Rightarrow> bool" where
  start: "ring_run (max first_seq 1) [] (new_starting_at first_seq)"
| push: "ring_run first log r \<Longrightarrow> unat (next_local_seq r) + length ops < 2 ^ 64 \<Longrightarrow>
    ring_run first (log @ stamp origin (next_local_seq r) ops) (ring_push origin ops r)"

inductive_cases ring_runE: "ring_run first log r"

lemma stamp_nth:
  "unat s + length ops < 2 ^ 64 \<Longrightarrow> i < length ops \<Longrightarrow> unat (re_seq (stamp origin s ops ! i)) = unat s + i"
proof (induction origin s ops arbitrary: i rule: stamp.induct)
  case (2 origin s op ops)
  have "unat (s + 1) = unat s + 1" using 2(2) unat_add64 [of s 1] by simp
  with 2 show ?case by (cases i) simp_all
qed simp

lemma length_stamp [simp]: "length (stamp origin s ops) = length ops"
  by (induction origin s ops rule: stamp.induct) simp_all

definition ring_inv :: "u64 \<Rightarrow> ring_entry list \<Rightarrow> ring \<Rightarrow> bool" where
  "ring_inv first log r \<longleftrightarrow> 1 \<le> unat first \<and> unat (next_local_seq r) = unat first + length log \<and>
     (\<forall>i<length log. unat (re_seq (log ! i)) = unat first + i) \<and>
     r_buf r = keep_tail log \<and> r_bytes r = costs (r_buf r)"

lemma ring_push_inv:
  assumes "ring_inv first log r" "unat (next_local_seq r) + length ops < 2 ^ 64"
  shows "ring_inv first (log @ stamp origin (next_local_seq r) ops) (ring_push origin ops r)"
proof -
  let ?new = "stamp origin (next_local_seq r) ops"
  note inv = assms(1) [unfolded ring_inv_def]
  have bytes: "r_bytes r + costs ?new = costs (r_buf r @ ?new)" using inv by simp
  have push_eq: "ring_push origin ops r = r\<lparr>next_local_seq := next_local_seq r + of_nat (length ops),
      r_bytes := costs (keep_tail (r_buf r @ ?new)), r_buf := keep_tail (r_buf r @ ?new)\<rparr>"
    using ring_evict_keep_tail [of "r_buf r @ ?new"] bytes
    by (simp add: ring_push_def ring_append_eq Let_def)
  have "unat (of_nat (length ops) :: u64) = length ops"
    using assms(2) by (simp add: unat_of_nat take_bit_nat_eq_self)
  then have next': "unat (next_local_seq r + of_nat (length ops)) = unat first + length (log @ ?new)"
    using assms(2) inv unat_add64 [of "next_local_seq r" "of_nat (length ops)"] by simp
  have seqs: "unat (re_seq ((log @ ?new) ! i)) = unat first + i" if "i < length (log @ ?new)" for i
    using that inv stamp_nth [OF assms(2), of "i - length log" origin] by (auto simp: nth_append)
  show ?thesis
    unfolding ring_inv_def push_eq using inv next' seqs by (simp add: keep_tail_append)
qed

lemma ring_run_inv: "ring_run first log r \<Longrightarrow> ring_inv first log r"
proof (induction rule: ring_run.induct)
  case (start first_seq)
  have "max first_seq 1 \<noteq> 0" by (auto simp: max_def)
  then have "1 \<le> unat (max first_seq 1)" using unat_eq_0 [of "max first_seq 1"] by linarith
  then show ?case by (simp add: ring_inv_def new_starting_at_def)
qed (simp add: ring_push_inv)

section \<open>Reading\<close>

lemma filter_after:
  assumes "\<forall>i<length es. unat (re_seq (es ! i)) = f + i"
  shows "filter (\<lambda>e. re_seq e > after) es = drop (unat after + 1 - f) es"
  using assms
proof (induction es arbitrary: f)
  case (Cons e es)
  have e: "unat (re_seq e) = f" and tl: "\<forall>i<length es. unat (re_seq (es ! i)) = Suc f + i"
    using Cons.prems by (force, fastforce)
  note IH = Cons.IH [OF tl]
  show ?case
  proof (cases "unat after < f")
    case True
    then have "unat after + 1 - f = 0" "unat after + 1 - Suc f = 0" by simp_all
    with IH True e show ?thesis by (simp add: word_less_nat_alt)
  next
    case False
    then have "unat after + 1 - f = Suc (unat after + 1 - Suc f)" by simp
    with IH False e show ?thesis by (simp add: word_less_nat_alt)
  qed
qed simp

lemma read_after_log:
  assumes "ring_inv first log r" "unat after + 1 < 2 ^ 64"
  defines "k \<equiv> length log - length (r_buf r)"
  shows "read_after after mx r =
    (take mx (drop (max k (unat after + 1 - unat first)) log), unat after + 1 < unat first + k)"
proof -
  note inv = assms(1) [unfolded ring_inv_def]
  have suf: "suffix (r_buf r) log" using inv keep_tail_suffix by simp
  then have buf: "r_buf r = drop k log" and kle: "k \<le> length log"
    by (auto simp: k_def suffix_def)
  have seqs: "\<forall>i<length (r_buf r). unat (re_seq (r_buf r ! i)) = (unat first + k) + i"
  proof -
    have "\<forall>i<length log. unat (re_seq (log ! i)) = unat first + i" using inv by blast
    then show ?thesis unfolding buf by (simp add: add.assoc)
  qed
  have first: "unat (case r_buf r of e # _ \<Rightarrow> re_seq e | [] \<Rightarrow> next_local_seq r) = unat first + k"
  proof (cases "r_buf r")
    case Nil
    then show ?thesis using buf kle inv by simp
  next
    case (Cons e es)
    then show ?thesis using seqs by force
  qed
  have after: "unat (after + 1) = unat after + 1" using assms(2) unat_add64 [of after 1] by simp
  have "a - (b + k) + k = max k (a - b)" for a b :: nat by linarith
  then have "drop (unat after + 1 - (unat first + k)) (r_buf r) = drop (max k (unat after + 1 - unat first)) log"
    by (simp only: buf drop_drop)
  then show ?thesis
    using filter_after [OF seqs, of after] first after
    by (simp add: read_after_def Let_def word_less_nat_alt)
qed

lemma last_seq_log:
  assumes "ring_inv first log r"
  shows "unat (last_seq r) + 1 = unat first + length log"
proof (cases "r_buf r = []")
  case True
  have "next_local_seq r \<noteq> 0" and n: "unat (next_local_seq r) = unat first + length log"
    using assms by (auto simp: ring_inv_def)
  then have "unat (next_local_seq r - 1) = unat (next_local_seq r) - 1" by (simp add: unat_minus_one)
  moreover have "0 < unat (next_local_seq r)" using \<open>next_local_seq r \<noteq> 0\<close> by (simp add: unat_gt_0)
  ultimately show ?thesis using True n by (simp add: last_seq_def)
next
  case False
  note inv = assms(1) [unfolded ring_inv_def]
  have "suffix (r_buf r) log" using inv keep_tail_suffix by simp
  then have "last (r_buf r) = last log" "log \<noteq> []" using False by (auto simp: suffix_def)
  with False inv show ?thesis by (simp add: last_seq_def last_conv_nth)
qed

text \<open>C8: The ring implements the log of everything pushed, within its limits: it never holds more than its byte and
entry limits, it holds exactly the longest tail of the log that fits, and its sequence numbers are consecutive.
A read after a cursor returns the next entries of the log in order, and it reports a gap exactly when an entry
behind the cursor (or a start behind it) is no longer held; without a gap nothing is skipped.\<close>

theorem ring_refines_log:
  assumes "ring_run first log r" "unat after + 1 < 2 ^ 64"
  shows "r_buf r = keep_tail log \<and> fits (r_buf r) \<and> occupancy r = (length (keep_tail log), costs (keep_tail log)) \<and>
    (\<forall>i<length log. unat (re_seq (log ! i)) = unat first + i) \<and>
    unat (last_seq r) + 1 = unat first + length log \<and>
    (let (entries, gap) = read_after after mx r; evicted = length log - length (r_buf r)
     in gap = (unat after + 1 < unat first + evicted) \<and>
        entries = take mx (drop (max evicted (unat after + 1 - unat first)) log) \<and>
        (\<not> gap \<longrightarrow> entries = take mx (filter (\<lambda>e. re_seq e > after) log)))"
proof -
  note inv = ring_run_inv [OF assms(1)]
  note read = read_after_log [OF inv assms(2), of mx]
  have seqs: "\<forall>i<length log. unat (re_seq (log ! i)) = unat first + i" and buf: "r_buf r = keep_tail log"
    and bytes: "r_bytes r = costs (r_buf r)"
    using inv by (simp_all add: ring_inv_def)
  have "drop (max (length log - length (r_buf r)) (unat after + 1 - unat first)) log = filter (\<lambda>e. re_seq e > after) log"
    if "\<not> unat after + 1 < unat first + (length log - length (r_buf r))"
    using that filter_after [OF seqs, of after] by (simp add: max_def)
  then show ?thesis
    using seqs buf bytes last_seq_log [OF inv] fits_keep_tail [of log]
    by (simp add: read occupancy_def Let_def del: max_def)
qed

theorem ring_refines_log_witness:
  "read_after 1 8 (ring_push 3 [\<lparr>op_ikey = [7], op_value = []\<rparr>, \<lparr>op_ikey = [8], op_value = [1]\<rparr>] (new_starting_at 0)) =
     ([\<lparr>re_seq = 2, re_origin = 3, re_op = \<lparr>op_ikey = [8], op_value = [1]\<rparr>\<rparr>], False)"
proof -
  let ?ops = "[\<lparr>op_ikey = [7], op_value = []\<rparr>, \<lparr>op_ikey = [8], op_value = [1]\<rparr>]"
  let ?log = "[\<lparr>re_seq = 1, re_origin = 3, re_op = \<lparr>op_ikey = [7], op_value = []\<rparr>\<rparr>,
               \<lparr>re_seq = 2, re_origin = 3, re_op = \<lparr>op_ikey = [8], op_value = [1]\<rparr>\<rparr>]"
  let ?r = "ring_push 3 ?ops (new_starting_at 0)"
  have one: "next_local_seq (new_starting_at 0) = 1" "max 0 1 = (1 :: u64)" by (simp_all add: new_starting_at_def)
  have run: "ring_run 1 ?log ?r"
    using ring_run.push [OF ring_run.start [of 0], of ?ops 3] one by simp
  have "unat (1 :: u64) + 1 < 2 ^ 64" by simp
  note R = ring_refines_log [OF run this, of 8, unfolded Let_def split_beta]
  have fit: "fits ?log" by (simp add: fits_def entry_cost_def RING_MAX_BYTES_def RING_MAX_OPS_def)
  have "r_buf ?r = keep_tail ?log" using R by blast
  then have "length (r_buf ?r) = length ?log" by (simp only: keep_tail_fits [OF fit])
  then have gap: "\<not> snd (read_after 1 8 ?r)" using R by simp
  moreover have "fst (read_after 1 8 ?r) = take 8 (filter (\<lambda>e. re_seq e > 1) ?log)"
    using R gap by blast
  ultimately show ?thesis by (simp add: prod_eq_iff)
qed

end
