(* ===== verification/Placement.thy ===== *)
theory Placement
  imports Ikey Sorted_Lists Decimal
begin

text \<open>
  \<open>marekvs-cluster/src/placement.rs\<close> and the placement part of \<open>marekvs-cluster/src/lib.rs\<close>: rendezvous
  (highest random weight) ranking of the members of a partition, spreading over failure zones, the
  membership view built from gossip with its placement tables, and the plans of a joining node.

  The hash \<open>xxh3_64\<close> of the \<open>xxhash_rust\<close> package is an argument of every definition that ranks; nothing
  is assumed of it. The parser of socket addresses is an argument of \<open>rebuild_members\<close>.
\<close>

section \<open>Ranking\<close>

definition score :: "(bytes \<Rightarrow> u64) \<Rightarrow> node_id \<Rightarrow> pid \<Rightarrow> u64" where
  "score xxh3_64 node p = xxh3_64 (le16 node @ le16 p)"

record candidate =
  cand_node :: node_id
  cand_active :: bool
  cand_zone :: "bytes option"

definition candidate_new :: "node_id \<Rightarrow> bool \<Rightarrow> candidate" where
  "candidate_new node active = \<lparr>cand_node = node, cand_active = active, cand_zone = None\<rparr>"

type_synonym scored = "u64 \<times> node_id \<times> bytes option"

definition scored_key :: "scored \<Rightarrow> u64 \<times> node_id" where
  "scored_key b = (fst b, fst (snd b))"

definition scored_candidates :: "(bytes \<Rightarrow> u64) \<Rightarrow> candidate list \<Rightarrow> pid \<Rightarrow> scored list" where
  "scored_candidates xxh3_64 candidates p =
     sort_desc scored_key
       (map (\<lambda>c. (score xxh3_64 (cand_node c) p, cand_node c, cand_zone c)) candidates)"

text \<open>The two loops of \<open>owners_for_zoned\<close>: one owner per zone, then the remaining slots in score order.\<close>

fun spread_pass :: "nat \<Rightarrow> scored list \<Rightarrow> bytes list \<Rightarrow> node_id list \<Rightarrow> node_id list" where
  "spread_pass n [] used out = out"
| "spread_pass n ((s, i, zone) # rest) used out =
     (if length out = n then out
      else case zone of
             Some z \<Rightarrow> if z \<notin> set used then spread_pass n rest (used @ [z]) (out @ [i])
                       else spread_pass n rest used out
           | None \<Rightarrow> spread_pass n rest used out)"

fun fill_pass :: "nat \<Rightarrow> scored list \<Rightarrow> node_id list \<Rightarrow> node_id list" where
  "fill_pass n [] out = out"
| "fill_pass n ((s, i, zone) # rest) out =
     (if length out = n then out
      else if i \<notin> set out then fill_pass n rest (out @ [i]) else fill_pass n rest out)"

definition owners_for_zoned ::
    "(bytes \<Rightarrow> u64) \<Rightarrow> candidate list \<Rightarrow> pid \<Rightarrow> nat \<Rightarrow> bool \<Rightarrow> node_id list" where
  "owners_for_zoned xxh3_64 candidates p n zone_spread =
     (let scored = scored_candidates xxh3_64 candidates p
      in if \<not> zone_spread then map (\<lambda>(_, i, _). i) (take n scored)
         else fill_pass n scored (spread_pass n scored [] []))"

definition owners_for :: "(bytes \<Rightarrow> u64) \<Rightarrow> candidate list \<Rightarrow> pid \<Rightarrow> nat \<Rightarrow> node_id list" where
  "owners_for xxh3_64 candidates p n = owners_for_zoned xxh3_64 candidates p n False"

section \<open>The membership view\<close>

datatype node_phase = Joining | Active | Leaving

fun phase_as_str :: "node_phase \<Rightarrow> bytes" where
  "phase_as_str Joining = [106, 111, 105, 110, 105, 110, 103]"
| "phase_as_str Active = [97, 99, 116, 105, 118, 101]"
| "phase_as_str Leaving = [108, 101, 97, 118, 105, 110, 103]"

definition phase_parse :: "bytes \<Rightarrow> node_phase option" where
  "phase_parse s =
     (if s = phase_as_str Joining then Some Joining
      else if s = phase_as_str Active then Some Active
      else if s = phase_as_str Leaving then Some Leaving else None)"

definition owns_data :: "node_phase \<Rightarrow> bool" where
  "owns_data phase = (phase = Active \<or> phase = Leaving)"

text \<open>A socket address: the bytes of the IP address and the port.\<close>

type_synonym socket_addr = "bytes \<times> u16"

record member =
  m_node :: node_id
  m_mesh_addr :: socket_addr
  m_gossip_addr :: socket_addr
  m_resp_addr :: "socket_addr option"
  m_generation :: u64
  m_phase :: node_phase
  m_zone :: "bytes option"

record view =
  v_members :: "member list"
  v_epoch :: u64
  v_owners_tbl :: "node_id list list"
  v_h1_tbl :: "node_id option list"
  v_tbl_n :: nat

definition view_default :: view where
  "view_default = \<lparr>v_members = [], v_epoch = 0, v_owners_tbl = [], v_h1_tbl = [], v_tbl_n = 0\<rparr>"

definition owner_candidates :: "view \<Rightarrow> candidate list" where
  "owner_candidates v =
     map (\<lambda>m. \<lparr>cand_node = m_node m, cand_active = (m_phase m = Active), cand_zone = m_zone m\<rparr>)
       (filter (\<lambda>m. owns_data (m_phase m)) (v_members v))"

definition h1_uncached :: "view \<Rightarrow> node_id list \<Rightarrow> node_id option" where
  "h1_uncached v owners =
     (case find (\<lambda>i. \<exists>m\<in>set (v_members v). m_node m = i \<and> m_phase m = Active) owners of
        Some i \<Rightarrow> Some i
      | None \<Rightarrow> (case owners of [] \<Rightarrow> None | i # _ \<Rightarrow> Some i))"

definition pids :: "pid list" where
  "pids = map of_nat [0..<unat PARTITIONS]"

definition with_tables :: "(bytes \<Rightarrow> u64) \<Rightarrow> bool \<Rightarrow> member list \<Rightarrow> u64 \<Rightarrow> nat \<Rightarrow> view" where
  "with_tables xxh3_64 zone_spread members epoch n =
     (let v = \<lparr>v_members = members, v_epoch = epoch, v_owners_tbl = [], v_h1_tbl = [], v_tbl_n = n\<rparr>;
          candidates = owner_candidates v;
          owners_tbl = map (\<lambda>p. owners_for_zoned xxh3_64 candidates p n zone_spread) pids
      in v\<lparr>v_owners_tbl := owners_tbl, v_h1_tbl := map (h1_uncached v) owners_tbl\<rparr>)"

text \<open>Indexing a vector: \<open>None\<close> is the panic of an index out of range.\<close>

definition index :: "'a list \<Rightarrow> nat \<Rightarrow> 'a option" where
  "index xs i = (if i < length xs then Some (xs ! i) else None)"

definition view_owners :: "(bytes \<Rightarrow> u64) \<Rightarrow> bool \<Rightarrow> view \<Rightarrow> pid \<Rightarrow> nat \<Rightarrow> node_id list option" where
  "view_owners xxh3_64 zone_spread v p n =
     (if n = v_tbl_n v \<and> v_owners_tbl v \<noteq> [] then index (v_owners_tbl v) (unat p)
      else Some (owners_for_zoned xxh3_64 (owner_candidates v) p n zone_spread))"

definition view_is_owner :: "(bytes \<Rightarrow> u64) \<Rightarrow> bool \<Rightarrow> view \<Rightarrow> pid \<Rightarrow> nat \<Rightarrow> node_id \<Rightarrow> bool option" where
  "view_is_owner xxh3_64 zone_spread v p n node =
     (if n = v_tbl_n v \<and> v_owners_tbl v \<noteq> []
      then map_option (\<lambda>os. node \<in> set os) (index (v_owners_tbl v) (unat p))
      else map_option (\<lambda>os. node \<in> set os) (view_owners xxh3_64 zone_spread v p n))"

definition view_h1 :: "(bytes \<Rightarrow> u64) \<Rightarrow> bool \<Rightarrow> view \<Rightarrow> pid \<Rightarrow> nat \<Rightarrow> node_id option option" where
  "view_h1 xxh3_64 zone_spread v p n =
     (if n = v_tbl_n v \<and> v_h1_tbl v \<noteq> [] then index (v_h1_tbl v) (unat p)
      else map_option (h1_uncached v) (view_owners xxh3_64 zone_spread v p n))"

definition view_mesh_addr :: "view \<Rightarrow> node_id \<Rightarrow> socket_addr option" where
  "view_mesh_addr v node = map_option m_mesh_addr (find (\<lambda>m. m_node m = node) (v_members v))"

definition view_contains :: "view \<Rightarrow> node_id \<Rightarrow> bool" where
  "view_contains v node = (\<exists>m\<in>set (v_members v). m_node m = node)"

section \<open>Building the view from gossip\<close>

text \<open>
  A node of the gossip snapshot: its identifier (\<open>ChitchatId\<close>) and its key-value state. The snapshot is a
  \<open>BTreeMap\<close>; it is given as the list of its entries in key order.
\<close>

record gossip_node =
  g_node_id :: bytes
  g_generation_id :: u64
  g_gossip_addr :: socket_addr
  g_state :: "bytes \<Rightarrow> bytes option"

text \<open>\<open>str::parse::<u16>\<close>: an optional plus sign and decimal digits below \<open>2 ^ 16\<close>.\<close>

definition parse_u16 :: "bytes \<Rightarrow> u16 option" where
  "parse_u16 s =
     (case digits_value (case s of [] \<Rightarrow> [] | b # r \<Rightarrow> if b = 43 then r else s) of
        Some v \<Rightarrow> if v < 2 ^ 16 then Some (of_nat v) else None
      | None \<Rightarrow> None)"

abbreviation KV_MESH_ADDR :: bytes where "KV_MESH_ADDR \<equiv> [109, 101, 115, 104, 95, 97, 100, 100, 114]"
abbreviation KV_RESP_ADDR :: bytes where "KV_RESP_ADDR \<equiv> [114, 101, 115, 112, 95, 97, 100, 100, 114]"
abbreviation KV_STATE :: bytes where "KV_STATE \<equiv> [115, 116, 97, 116, 101]"
abbreviation KV_ZONE :: bytes where "KV_ZONE \<equiv> [122, 111, 110, 101]"

definition gossip_member :: "(bytes \<Rightarrow> socket_addr option) \<Rightarrow> gossip_node \<Rightarrow> member option" where
  "gossip_member parse_addr g =
     (case parse_u16 (g_node_id g) of
        None \<Rightarrow> None
      | Some node \<Rightarrow>
          (case Option.bind (g_state g KV_MESH_ADDR) parse_addr of
             None \<Rightarrow> None
           | Some addr \<Rightarrow>
               Some \<lparr>m_node = node, m_mesh_addr = addr, m_gossip_addr = g_gossip_addr g,
                     m_resp_addr = Option.bind (g_state g KV_RESP_ADDR) parse_addr,
                     m_generation = g_generation_id g,
                     m_phase = (case Option.bind (g_state g KV_STATE) phase_parse of
                                  Some ph \<Rightarrow> ph | None \<Rightarrow> Joining),
                     m_zone = (case g_state g KV_ZONE of
                                 Some z \<Rightarrow> if z \<noteq> [] then Some z else None | None \<Rightarrow> None)\<rparr>))"

definition rebuild_members :: "(bytes \<Rightarrow> socket_addr option) \<Rightarrow> gossip_node list \<Rightarrow> member list" where
  "rebuild_members parse_addr nodes =
     dedup_by m_node (sort_key m_node (List.map_filter (gossip_member parse_addr) nodes))"

definition rebuild_view ::
    "(bytes \<Rightarrow> u64) \<Rightarrow> bool \<Rightarrow> (bytes \<Rightarrow> socket_addr option) \<Rightarrow> gossip_node list \<Rightarrow> u64 \<Rightarrow> nat \<Rightarrow> view" where
  "rebuild_view xxh3_64 zone_spread parse_addr nodes epoch replicas_n =
     with_tables xxh3_64 zone_spread (rebuild_members parse_addr nodes) epoch replicas_n"

section \<open>Ownership as the cluster handle reports it\<close>

text \<open>
  The handle's configuration: the node itself, the replica count, and the two environment settings that
  placement depends on. \<open>pids\<close> are below \<open>PARTITIONS\<close>, so the tables are never indexed out of range here.
\<close>

record cluster =
  self_id :: node_id
  replicas_n :: nat
  zone_spread_enabled :: bool
  self_zone :: "bytes option"

definition owned_pids :: "(bytes \<Rightarrow> u64) \<Rightarrow> cluster \<Rightarrow> view \<Rightarrow> pid list" where
  "owned_pids xxh3_64 cl v =
     filter (\<lambda>p. view_is_owner xxh3_64 (zone_spread_enabled cl) v p (replicas_n cl) (self_id cl) = Some True) pids"

definition future_candidates :: "cluster \<Rightarrow> view \<Rightarrow> candidate list" where
  "future_candidates cl v =
     (let candidates = owner_candidates v
      in if \<exists>c\<in>set candidates. cand_node c = self_id cl then candidates
         else candidates @ [\<lparr>cand_node = self_id cl, cand_active = True, cand_zone = self_zone cl\<rparr>])"

definition future_owned_pids :: "(bytes \<Rightarrow> u64) \<Rightarrow> cluster \<Rightarrow> view \<Rightarrow> pid list" where
  "future_owned_pids xxh3_64 cl v =
     filter (\<lambda>p. self_id cl \<in> set (owners_for_zoned xxh3_64 (future_candidates cl v) p (replicas_n cl)
                                     (zone_spread_enabled cl))) pids"

definition future_co_owners :: "(bytes \<Rightarrow> u64) \<Rightarrow> cluster \<Rightarrow> view \<Rightarrow> pid \<Rightarrow> node_id list" where
  "future_co_owners xxh3_64 cl v p =
     filter (\<lambda>i. i \<noteq> self_id cl)
       (owners_for_zoned xxh3_64 (future_candidates cl v) p (replicas_n cl) (zone_spread_enabled cl))"

record cluster_stats =
  cs_members :: nat
  underreplicated_partitions :: nat
  effective_rf_min :: nat
  degraded :: bool

text \<open>\<open>usize::MAX\<close>, the start of the running minimum, is \<open>None\<close>.\<close>

fun stats_loop :: "nat \<Rightarrow> nat list \<Rightarrow> nat \<Rightarrow> nat option \<Rightarrow> nat \<times> nat option" where
  "stats_loop n [] under_n min_rf = (under_n, min_rf)"
| "stats_loop n (rf # rest) under_n min_rf =
     stats_loop n rest (if rf < n then under_n + 1 else under_n)
       (Some (case min_rf of None \<Rightarrow> rf | Some m \<Rightarrow> min m rf))"

definition cluster_stats_of :: "(bytes \<Rightarrow> u64) \<Rightarrow> cluster \<Rightarrow> view \<Rightarrow> cluster_stats" where
  "cluster_stats_of xxh3_64 cl v =
     (let candidates = owner_candidates v;
          (under_n, min_rf) = stats_loop (replicas_n cl)
            (map (\<lambda>p. length (owners_for_zoned xxh3_64 candidates p (replicas_n cl) (zone_spread_enabled cl))) pids)
            0 None
      in \<lparr>cs_members = length (v_members v), underreplicated_partitions = under_n,
          effective_rf_min = (case min_rf of None \<Rightarrow> 0 | Some m \<Rightarrow> m), degraded = (under_n > 0)\<rparr>)"

section \<open>The ranking is determined by the set of candidates\<close>

abbreviation distinct_nodes :: "candidate list \<Rightarrow> bool" where
  "distinct_nodes cs \<equiv> distinct (map cand_node cs)"

lemma scored_image:
  "set (scored_candidates h cs p) = (\<lambda>c. (score h (cand_node c) p, cand_node c, cand_zone c)) ` set cs"
  by (simp add: scored_candidates_def)

lemma scored_nodes: "(\<lambda>x. fst (snd x)) ` set (scored_candidates h cs p) = cand_node ` set cs"
  by (simp add: scored_image image_image)

lemma length_scored [simp]: "length (scored_candidates h cs p) = length cs"
  by (simp add: scored_candidates_def)

lemma distinct_scored_nodes:
  assumes "distinct_nodes cs"
  shows "distinct (map (\<lambda>x. fst (snd x)) (scored_candidates h cs p))"
proof (rule card_distinct)
  have "card (cand_node ` set cs) = length cs"
    using distinct_card [OF assms] by simp
  then show "card (set (map (\<lambda>x. fst (snd x)) (scored_candidates h cs p)))
    = length (map (\<lambda>x. fst (snd x)) (scored_candidates h cs p))"
    by (simp add: scored_nodes)
qed

lemma desc_distinct_strict:
  "desc k xs \<Longrightarrow> distinct (map k xs) \<Longrightarrow> strictly_desc k xs"
proof (induction xs)
  case (Cons x xs)
  then have "\<forall>y\<in>set xs. k y \<le> k x" "k x \<notin> k ` set xs" by simp_all
  then have "\<forall>y\<in>set xs. k y < k x" by (metis image_eqI less_le)
  with Cons show ?case by simp
qed simp

lemma strictly_desc_scored:
  assumes "distinct_nodes cs"
  shows "strictly_desc scored_key (scored_candidates h cs p)"
proof (rule desc_distinct_strict)
  show "desc scored_key (scored_candidates h cs p)" by (simp add: scored_candidates_def desc_sort_desc)
  have "map (\<lambda>x. fst (snd x)) (scored_candidates h cs p) =
        map snd (map scored_key (scored_candidates h cs p))" by (simp add: scored_key_def)
  with distinct_scored_nodes [OF assms, of h p] show "distinct (map scored_key (scored_candidates h cs p))"
    by (metis distinct_map)
qed

definition placed :: "candidate \<Rightarrow> node_id \<times> bytes option" where
  "placed c = (cand_node c, cand_zone c)"

lemma scored_cong:
  assumes "distinct_nodes cs" "distinct_nodes ds" "placed ` set cs = placed ` set ds"
  shows "scored_candidates h cs p = scored_candidates h ds p"
proof (rule strictly_desc_unique [OF strictly_desc_scored strictly_desc_scored])
  have "set (scored_candidates h xs p) = (\<lambda>(i, z). (score h i p, i, z)) ` placed ` set xs" for xs
    by (simp add: scored_image image_image placed_def)
  with assms(3) show "set (scored_candidates h cs p) = set (scored_candidates h ds p)" by simp
qed (use assms in simp_all)

lemma owners_cong:
  assumes "distinct_nodes cs" "distinct_nodes ds" "placed ` set cs = placed ` set ds"
  shows "owners_for_zoned h cs p n zs = owners_for_zoned h ds p n zs"
  by (simp add: owners_for_zoned_def scored_cong [OF assms])

section \<open>The two passes\<close>

abbreviation node_of :: "scored \<Rightarrow> node_id" where "node_of x \<equiv> fst (snd x)"

lemma fill_pass_props:
  assumes "distinct out" "length out \<le> n"
  shows "distinct (fill_pass n xs out) \<and> length (fill_pass n xs out) \<le> n \<and>
    set out \<subseteq> set (fill_pass n xs out) \<and> set (fill_pass n xs out) \<subseteq> set out \<union> node_of ` set xs \<and>
    (length (fill_pass n xs out) = n \<or> node_of ` set xs \<subseteq> set (fill_pass n xs out))"
  using assms
proof (induction n xs out rule: fill_pass.induct)
  case (2 n s i zone rest out)
  consider "length out = n" | "length out < n" "i \<notin> set out" | "length out < n" "i \<in> set out"
    using "2.prems"(2) by linarith
  then show ?case
  proof cases
    case 1
    with 2 show ?thesis by (simp, blast)
  next
    case 2
    with "2.prems" "2.IH"(1) show ?thesis by auto
  next
    case 3
    with "2.prems" "2.IH"(2) show ?thesis by auto
  qed
qed simp

lemma spread_pass_out:
  assumes "distinct (out @ map node_of xs)" "length out \<le> n"
  shows "distinct (spread_pass n xs used out) \<and> length (spread_pass n xs used out) \<le> n \<and>
    set out \<subseteq> set (spread_pass n xs used out) \<and> set (spread_pass n xs used out) \<subseteq> set out \<union> node_of ` set xs"
  using assms
proof (induction n xs used out rule: spread_pass.induct)
  case (2 n s i zone rest used out)
  consider "length out = n" | "length out < n" "zone = None"
    | z where "length out < n" "zone = Some z" "z \<notin> set used"
    | z where "length out < n" "zone = Some z" "z \<in> set used"
    using "2.prems"(2) by (cases zone) fastforce+
  then show ?case
  proof cases
    case 1
    with "2.prems" show ?thesis by (simp, blast)
  next
    case 2
    with "2.prems" "2.IH"(1) show ?thesis by auto
  next
    case (3 z)
    with "2.prems" "2.IH"(2) show ?thesis by auto
  next
    case (4 z)
    with "2.prems" "2.IH"(3) show ?thesis by auto
  qed
qed simp

text \<open>The zones the first pass took: as many as owners, and all zones when the slots were not used up.\<close>

definition zones_taken :: "nat \<Rightarrow> scored list \<Rightarrow> bytes list \<Rightarrow> node_id list \<Rightarrow> bytes list \<Rightarrow> bool" where
  "zones_taken n xs used res us \<longleftrightarrow> distinct us \<and> length us = length res \<and>
     (\<forall>z\<in>set us. z \<in> set used \<or> (\<exists>s i. (s, i, Some z) \<in> set xs \<and> i \<in> set res)) \<and> set used \<subseteq> set us \<and>
     (length res = n \<or> (\<forall>s i z. (s, i, Some z) \<in> set xs \<longrightarrow> z \<in> set us))"

lemma zones_taken_Cons:
  assumes taken: "zones_taken n rest used' res us" and sub: "set used \<subseteq> set used'"
    and new: "\<forall>z\<in>set used'. z \<in> set used \<or> zone = Some z \<and> i \<in> set res"
    and zone: "\<forall>z. zone = Some z \<longrightarrow> z \<in> set used'"
  shows "zones_taken n ((s, i, zone) # rest) used res us"
  unfolding zones_taken_def
proof (intro conjI ballI)
  show "distinct us" "length us = length res" using taken by (simp_all add: zones_taken_def)
  show "set used \<subseteq> set us" using taken sub unfolding zones_taken_def by blast
  fix z
  assume "z \<in> set us"
  with taken consider "z \<in> set used'" | s' i' where "(s', i', Some z) \<in> set rest" "i' \<in> set res"
    unfolding zones_taken_def by blast
  then show "z \<in> set used \<or> (\<exists>s' i'. (s', i', Some z) \<in> set ((s, i, zone) # rest) \<and> i' \<in> set res)"
    using new by cases force+
next
  have "set used' \<subseteq> set us" using taken by (simp add: zones_taken_def)
  with zone taken show "length res = n \<or> (\<forall>s' i' z. (s', i', Some z) \<in> set ((s, i, zone) # rest) \<longrightarrow> z \<in> set us)"
    unfolding zones_taken_def by force
qed

lemma spread_pass_zones:
  assumes "distinct used" "length used = length out" "distinct (out @ map node_of xs)" "length out \<le> n"
  shows "\<exists>us. zones_taken n xs used (spread_pass n xs used out) us"
  using assms
proof (induction n xs used out rule: spread_pass.induct)
  case (1 n used out)
  then show ?case by (auto simp: zones_taken_def)
next
  case (2 n s i zone rest used out)
  consider "length out = n" | "length out < n" "zone = None"
    | z where "length out < n" "zone = Some z" "z \<notin> set used"
    | z where "length out < n" "zone = Some z" "z \<in> set used"
    using "2.prems"(4) by (cases zone) fastforce+
  then show ?case
  proof cases
    case 1
    with "2.prems" show ?thesis by (auto simp: zones_taken_def)
  next
    case 2
    with "2.prems" "2.IH"(1) obtain us where "zones_taken n rest used (spread_pass n rest used out) us" by auto
    then have "zones_taken n ((s, i, zone) # rest) used (spread_pass n rest used out) us"
      by (rule zones_taken_Cons) (simp_all add: 2)
    with 2 show ?thesis by auto
  next
    case (3 z)
    with "2.prems" "2.IH"(2) obtain us
      where us: "zones_taken n rest (used @ [z]) (spread_pass n rest (used @ [z]) (out @ [i])) us" by auto
    have "i \<in> set (spread_pass n rest (used @ [z]) (out @ [i]))"
      using spread_pass_out [of "out @ [i]" rest n "used @ [z]"] "2.prems" 3 by auto
    with us have "zones_taken n ((s, i, zone) # rest) used (spread_pass n rest (used @ [z]) (out @ [i])) us"
      by (intro zones_taken_Cons) (auto simp: 3)
    with 3 show ?thesis by auto
  next
    case (4 z)
    with "2.prems" "2.IH"(3) obtain us where us: "zones_taken n rest used (spread_pass n rest used out) us" by auto
    then have "zones_taken n ((s, i, zone) # rest) used (spread_pass n rest used out) us"
      by (rule zones_taken_Cons) (simp_all add: 4)
    with 4 show ?thesis by auto
  qed
qed

lemma map_node_scored: "map (\<lambda>(_, i, _). i) xs = map node_of xs"
  by (simp add: case_prod_beta)

lemma owners_props:
  assumes "distinct_nodes cs"
  shows "distinct (owners_for_zoned h cs p n zs)" "set (owners_for_zoned h cs p n zs) \<subseteq> cand_node ` set cs"
    "length (owners_for_zoned h cs p n zs) = min n (length cs)"
proof -
  let ?xs = "scored_candidates h cs p"
  let ?out = "spread_pass n ?xs [] []"
  have d: "distinct (map node_of ?xs)" by (rule distinct_scored_nodes [OF assms])
  have out: "distinct ?out" "length ?out \<le> n" "set ?out \<subseteq> node_of ` set ?xs"
    using spread_pass_out [of "[]" ?xs n "[]"] d by auto
  note fill = fill_pass_props [OF out(1,2), of ?xs]
  show dist: "distinct (owners_for_zoned h cs p n zs)"
    using d fill by (simp add: owners_for_zoned_def Let_def map_node_scored take_map [symmetric])
  show sub: "set (owners_for_zoned h cs p n zs) \<subseteq> cand_node ` set cs"
    using fill out(3) set_take_subset [of n ?xs]
    by (auto simp: owners_for_zoned_def Let_def map_node_scored scored_nodes [of h cs p, symmetric])
  show "length (owners_for_zoned h cs p n zs) = min n (length cs)"
  proof (cases zs)
    case True
    let ?o = "fill_pass n ?xs ?out"
    have o: "owners_for_zoned h cs p n zs = ?o" using True by (simp add: owners_for_zoned_def Let_def)
    have card: "card (cand_node ` set cs) = length cs" using distinct_card [OF assms] by simp
    have le: "length ?o \<le> length cs"
      using card_mono [OF _ sub] distinct_card [OF dist] o card by simp
    have "length ?o = n \<or> length cs \<le> length ?o"
      using fill card_mono [of "set ?o" "cand_node ` set cs"] distinct_card [of ?o] card
      by (auto simp: scored_nodes)
    with le fill o show ?thesis by auto
  qed (simp add: owners_for_zoned_def Let_def)
qed

lemma zones_le_owners:
  assumes "distinct_nodes cs" "finite O'"
  shows "card {z. \<exists>c\<in>set cs. cand_zone c = Some z \<and> cand_node c \<in> O'} \<le> card O'"
proof -
  let ?cs = "{c \<in> set cs. cand_node c \<in> O'}"
  have "{z. \<exists>c\<in>set cs. cand_zone c = Some z \<and> cand_node c \<in> O'} \<subseteq> (\<lambda>c. the (cand_zone c)) ` ?cs" by force
  then have "card {z. \<exists>c\<in>set cs. cand_zone c = Some z \<and> cand_node c \<in> O'} \<le> card ?cs"
    by (rule surj_card_le [rotated]) simp
  also have "\<dots> = card (cand_node ` ?cs)"
    using assms(1) by (intro card_image [symmetric]) (auto simp: distinct_map inj_on_def)
  also have "\<dots> \<le> card O'" using assms(2) by (intro card_mono) auto
  finally show ?thesis .
qed

text \<open>C16: Placement returns the members it can: for candidates with distinct node ids the owners of a
partition are distinct candidates, exactly \<open>n\<close> of them or all when there are fewer; every node that ranks the
same candidates, in any order, derives the same owners in the same order; and with zone spreading the owners
cover as many failure zones as is possible at all, \<open>n\<close> of them or every labelled zone.\<close>

theorem placement_complete:
  assumes "distinct_nodes cs"
  shows "distinct (owners_for_zoned h cs p n zs) \<and>
    set (owners_for_zoned h cs p n zs) \<subseteq> cand_node ` set cs \<and>
    length (owners_for_zoned h cs p n zs) = min n (length cs) \<and>
    (\<forall>ds. distinct_nodes ds \<and> set ds = set cs \<longrightarrow> owners_for_zoned h ds p n zs = owners_for_zoned h cs p n zs) \<and>
    card {z. \<exists>c\<in>set cs. cand_zone c = Some z \<and> cand_node c \<in> set (owners_for_zoned h cs p n True)} =
      min n (card {z. \<exists>c\<in>set cs. cand_zone c = Some z})"
proof (intro conjI allI impI)
  fix ds
  assume "distinct_nodes ds \<and> set ds = set cs"
  with assms show "owners_for_zoned h ds p n zs = owners_for_zoned h cs p n zs"
    by (intro owners_cong) simp_all
next
  let ?xs = "scored_candidates h cs p"
  let ?out = "spread_pass n ?xs [] []"
  let ?o = "owners_for_zoned h cs p n True"
  let ?all = "{z. \<exists>c\<in>set cs. cand_zone c = Some z}"
  let ?got = "{z. \<exists>c\<in>set cs. cand_zone c = Some z \<and> cand_node c \<in> set ?o}"
  have d: "distinct (map node_of ?xs)" by (rule distinct_scored_nodes [OF assms])
  have o: "?o = fill_pass n ?xs ?out" by (simp add: owners_for_zoned_def Let_def)
  have sub: "set ?out \<subseteq> set ?o" and len: "length ?out \<le> n"
    using spread_pass_out [of "[]" ?xs n "[]"] d fill_pass_props [of ?out n ?xs] by (simp_all add: o)
  obtain us where us: "zones_taken n ?xs [] ?out us"
    using spread_pass_zones [of "[]" "[]" ?xs n] d by auto
  have fin: "finite ?all" by (rule finite_subset [of _ "(\<lambda>c. the (cand_zone c)) ` set cs"]) force+
  have us_got: "set us \<subseteq> ?got"
  proof
    fix z
    assume "z \<in> set us"
    with us obtain s i where "(s, i, Some z) \<in> set ?xs" "i \<in> set ?out" by (auto simp: zones_taken_def)
    with sub show "z \<in> ?got" by (force simp: scored_image)
  qed
  have card_us: "card (set us) = length ?out" using us distinct_card [of us] by (simp add: zones_taken_def)
  have got_all: "?got \<subseteq> ?all" by blast
  note fin_got = finite_subset [OF got_all fin]
  have le: "card ?got \<le> n" using zones_le_owners [OF assms, of "set ?o"] owners_props [OF assms, of h p n True]
    by (simp add: distinct_card)
  have "\<exists>s i. (s, i, Some z) \<in> set ?xs" if "z \<in> ?all" for z
    using that by (force simp: scored_image)
  with us consider "length ?out = n" | "?all \<subseteq> set us"
    unfolding zones_taken_def by (meson subsetI)
  then show "card ?got = min n (card ?all)"
  proof cases
    case 1
    with card_mono [OF fin_got us_got] card_mono [OF fin got_all] le card_us show ?thesis by simp
  next
    case 2
    with us_got got_all have "?got = ?all" by blast
    with le show ?thesis by simp
  qed
qed (use owners_props [OF assms] in simp_all)

theorem placement_complete_witness:
  "let cs = [\<lparr>cand_node = 1, cand_active = True, cand_zone = Some [97]\<rparr>,
             \<lparr>cand_node = 2, cand_active = True, cand_zone = Some [97]\<rparr>,
             \<lparr>cand_node = 3, cand_active = False, cand_zone = Some [98]\<rparr>];
       h = (\<lambda>bs. ucast (hd bs))
   in owners_for_zoned h cs 7 2 False = [3, 2] \<and> owners_for_zoned h (rev cs) 7 2 True = [3, 2] \<and>
      card {z. \<exists>c\<in>set cs. cand_zone c = Some z \<and> cand_node c \<in> set (owners_for_zoned h cs 7 2 True)} = 2"
proof -
  let ?h = "\<lambda>bs :: bytes. ucast (hd bs) :: u64"
  let ?cs = "[\<lparr>cand_node = 1, cand_active = True, cand_zone = Some [97]\<rparr>,
             \<lparr>cand_node = 2, cand_active = True, cand_zone = Some [97]\<rparr>,
             \<lparr>cand_node = 3, cand_active = False, cand_zone = Some [98]\<rparr>] :: candidate list"
  have "distinct_nodes ?cs" by simp
  from placement_complete [OF this, of ?h 7 2 True]
  have "card {z. \<exists>c\<in>set ?cs. cand_zone c = Some z \<and> cand_node c \<in> set (owners_for_zoned ?h ?cs 7 2 True)} =
      min 2 (card {z. \<exists>c\<in>set ?cs. cand_zone c = Some z})" by blast
  moreover have "{z. \<exists>c\<in>set ?cs. cand_zone c = Some z} = {[97], [98]}" by auto
  moreover have "owners_for_zoned ?h ?cs 7 2 False = [3, 2]" "owners_for_zoned ?h (rev ?cs) 7 2 True = [3, 2]"
    by code_simp+
  ultimately show ?thesis by (simp add: Let_def)
qed

section \<open>Joins and departures move as little as possible\<close>

lemma filter_take_prefix: "prefix (filter P (take n xs)) (take n (filter P xs))"
proof -
  have "filter P xs = filter P (take n xs) @ filter P (drop n xs)"
    by (metis append_take_drop_id filter_append)
  moreover have "length (filter P (take n xs)) \<le> n"
    by (rule le_trans [OF length_filter_le]) simp
  ultimately show ?thesis by simp
qed

lemma scored_filter:
  assumes "distinct_nodes (c # cs)"
  shows "filter (\<lambda>x. node_of x \<noteq> cand_node c) (scored_candidates h (c # cs) p) = scored_candidates h cs p"
proof (rule strictly_desc_unique [of scored_key])
  show "set (filter (\<lambda>x. node_of x \<noteq> cand_node c) (scored_candidates h (c # cs) p)) = set (scored_candidates h cs p)"
    using assms by (auto simp: scored_image) (metis image_eqI)
qed (use assms strictly_desc_scored in \<open>auto intro: strictly_desc_filter\<close>)

text \<open>The zoned owners as a prefix of one list: the best candidate of each zone, then the others, each in score
order.\<close>

fun zone_reps :: "bytes set \<Rightarrow> scored list \<Rightarrow> scored list" where
  "zone_reps U [] = []"
| "zone_reps U (x # xs) =
     (case snd (snd x) of
        Some z \<Rightarrow> if z \<notin> U then x # zone_reps (insert z U) xs else zone_reps U xs
      | None \<Rightarrow> zone_reps U xs)"

fun zone_rest :: "bytes set \<Rightarrow> scored list \<Rightarrow> scored list" where
  "zone_rest U [] = []"
| "zone_rest U (x # xs) =
     (case snd (snd x) of
        Some z \<Rightarrow> if z \<notin> U then zone_rest (insert z U) xs else x # zone_rest U xs
      | None \<Rightarrow> x # zone_rest U xs)"

definition zones_of :: "scored list \<Rightarrow> bytes set" where
  "zones_of xs = {z. \<exists>x\<in>set xs. snd (snd x) = Some z}"

lemma zones_of_simps [simp]:
  "zones_of [] = {}" "zones_of (x # xs) = set_option (snd (snd x)) \<union> zones_of xs"
  by (auto simp: zones_of_def)

lemma spread_pass_reps:
  "length out \<le> n \<Longrightarrow>
     spread_pass n xs used out = out @ take (n - length out) (map node_of (zone_reps (set used) xs))"
proof (induction n xs used out rule: spread_pass.induct)
  case (2 n s i zone rest used out)
  show ?case
  proof (cases "length out = n")
    case False
    with 2 show ?thesis by (cases zone) (auto simp: Suc_diff_le take_Cons' Suc_le_eq)
  qed simp
qed simp

lemma fill_pass_take:
  "distinct (map node_of xs) \<Longrightarrow> length out \<le> n \<Longrightarrow>
     fill_pass n xs out = out @ take (n - length out) (filter (\<lambda>i. i \<notin> set out) (map node_of xs))"
proof (induction n xs out rule: fill_pass.induct)
  case (2 n s i zone rest out)
  have "filter (\<lambda>j. j \<notin> set (out @ [i])) (map node_of rest) = filter (\<lambda>j. j \<notin> set out) (map node_of rest)"
    using 2(3) by (intro filter_cong) auto
  with 2 show ?case by (auto simp: take_Cons' Suc_le_eq)
qed simp

lemma zone_reps_subset: "set (zone_reps U xs) \<subseteq> set xs"
proof (induction xs arbitrary: U)
  case (Cons x xs)
  show ?case
    using Cons.IH [of U] Cons.IH [of "insert (the (snd (snd x))) U"] by (cases "snd (snd x)") auto
qed simp

lemma rest_nodes:
  "distinct (map node_of xs) \<Longrightarrow>
     filter (\<lambda>i. i \<notin> node_of ` set (zone_reps U xs)) (map node_of xs) = map node_of (zone_rest U xs)"
proof (induction xs arbitrary: U)
  case (Cons x xs)
  have new: "node_of x \<notin> node_of ` set (zone_reps V xs)" for V
    using zone_reps_subset [of V xs] Cons.prems by auto
  have skip: "filter (\<lambda>i. i \<notin> insert (node_of x) S) (map node_of xs) = filter (\<lambda>i. i \<notin> S) (map node_of xs)" for S
    by (intro filter_cong refl) (use Cons.prems in \<open>metis distinct.simps(2) insert_iff list.simps(9)\<close>)
  show ?case
  proof (cases "\<exists>z. snd (snd x) = Some z \<and> z \<notin> U")
    case True
    then obtain V where V: "zone_reps U (x # xs) = x # zone_reps V xs" "zone_rest U (x # xs) = zone_rest V xs" by force
    show ?thesis unfolding V list.set(2) image_insert list.map(2) filter.simps skip
      using Cons.IH [of V] Cons.prems by simp
  next
    case False
    then have eqs: "zone_reps U (x # xs) = zone_reps U xs" "zone_rest U (x # xs) = x # zone_rest U xs"
      by (auto split: option.split)
    show ?thesis unfolding eqs using Cons.IH [of U] Cons.prems new [of U] by simp
  qed
qed simp

lemma owners_zoned_take:
  assumes "distinct_nodes cs"
  shows "owners_for_zoned h cs p n True =
    map node_of (take n (zone_reps {} (scored_candidates h cs p) @ zone_rest {} (scored_candidates h cs p)))"
proof -
  let ?xs = "scored_candidates h cs p"
  let ?reps = "zone_reps {} ?xs"
  have d: "distinct (map node_of ?xs)" by (rule distinct_scored_nodes [OF assms])
  have out: "spread_pass n ?xs [] [] = take n (map node_of ?reps)" by (simp add: spread_pass_reps)
  have "fill_pass n ?xs (take n (map node_of ?reps)) = map node_of (take n (?reps @ zone_rest {} ?xs))"
  proof (cases "n \<le> length ?reps")
    case True
    then show ?thesis using fill_pass_take [OF d, of "take n (map node_of ?reps)" n] by (simp add: take_map)
  next
    case False
    then show ?thesis using fill_pass_take [OF d, of "map node_of ?reps" n] rest_nodes [OF d, of "{}"]
      by (simp add: take_map)
  qed
  with out show ?thesis by (simp add: owners_for_zoned_def Let_def)
qed

lemma zone_lists_append:
  "zone_reps U (xs @ ys) = zone_reps U xs @ zone_reps (U \<union> zones_of xs) ys"
  "zone_rest U (xs @ ys) = zone_rest U xs @ zone_rest (U \<union> zones_of xs) ys"
  by (induction xs arbitrary: U) (auto split: option.split simp: insert_absorb)

text \<open>A zone that is already taken moves its best candidate from the first list to the second.\<close>

lemma zone_taken_moves:
  assumes "z \<notin> U"
  shows "zone_reps (insert z U) xs = zone_reps U xs \<and> zone_rest (insert z U) xs = zone_rest U xs \<or>
    (\<exists>M d N O1 O2. zone_reps U xs = M @ d # N \<and> zone_reps (insert z U) xs = M @ N \<and>
       zone_rest U xs = O1 @ O2 \<and> zone_rest (insert z U) xs = O1 @ d # O2)"
  using assms
proof (induction xs arbitrary: U)
  case (Cons x xs)
  consider "snd (snd x) = None \<or> (\<exists>y. snd (snd x) = Some y \<and> y \<in> U)" | "snd (snd x) = Some z"
    | y where "snd (snd x) = Some y" "y \<notin> U" "y \<noteq> z"
    by (cases "snd (snd x)") auto
  then show ?case
  proof cases
    case 1
    then have eqs: "zone_reps U (x # xs) = zone_reps U xs" "zone_reps (insert z U) (x # xs) = zone_reps (insert z U) xs"
      "zone_rest U (x # xs) = x # zone_rest U xs" "zone_rest (insert z U) (x # xs) = x # zone_rest (insert z U) xs"
      by auto
    from Cons.IH [OF Cons.prems] show ?thesis unfolding eqs
    proof (elim disjE exE conjE)
      fix M d N O1 O2
      assume "zone_reps U xs = M @ d # N" "zone_reps (insert z U) xs = M @ N"
        "zone_rest U xs = O1 @ O2" "zone_rest (insert z U) xs = O1 @ d # O2"
      then show "zone_reps (insert z U) xs = zone_reps U xs \<and> x # zone_rest (insert z U) xs = x # zone_rest U xs \<or>
        (\<exists>M d N O1 O2. zone_reps U xs = M @ d # N \<and> zone_reps (insert z U) xs = M @ N \<and>
          x # zone_rest U xs = O1 @ O2 \<and> x # zone_rest (insert z U) xs = O1 @ d # O2)"
        by (intro disjI2 exI [of _ M] exI [of _ d] exI [of _ N] exI [of _ "x # O1"] exI [of _ O2]) simp
    qed simp
  next
    case 2
    then have "zone_reps U (x # xs) = [] @ x # zone_reps (insert z U) xs" "zone_rest U (x # xs) = [] @ zone_rest (insert z U) xs"
      "zone_reps (insert z U) (x # xs) = [] @ zone_reps (insert z U) xs"
      "zone_rest (insert z U) (x # xs) = [] @ x # zone_rest (insert z U) xs"
      using Cons.prems by simp_all
    then show ?thesis by blast
  next
    case (3 y)
    let ?V = "insert y U"
    have eqs: "zone_reps U (x # xs) = x # zone_reps ?V xs" "zone_rest U (x # xs) = zone_rest ?V xs"
      "zone_reps (insert z U) (x # xs) = x # zone_reps (insert z ?V) xs" "zone_rest (insert z U) (x # xs) = zone_rest (insert z ?V) xs"
      using 3 by (simp_all add: insert_commute [of y z])
    have "z \<notin> ?V" using 3 Cons.prems by simp
    from Cons.IH [OF this] show ?thesis unfolding eqs
    proof (elim disjE exE conjE)
      fix M d N O1 O2
      assume "zone_reps ?V xs = M @ d # N" "zone_reps (insert z ?V) xs = M @ N"
        "zone_rest ?V xs = O1 @ O2" "zone_rest (insert z ?V) xs = O1 @ d # O2"
      then show "x # zone_reps (insert z ?V) xs = x # zone_reps ?V xs \<and> zone_rest (insert z ?V) xs = zone_rest ?V xs \<or>
        (\<exists>M d N O1 O2. x # zone_reps ?V xs = M @ d # N \<and> x # zone_reps (insert z ?V) xs = M @ N \<and>
          zone_rest ?V xs = O1 @ O2 \<and> zone_rest (insert z ?V) xs = O1 @ d # O2)"
        by (intro disjI2 exI [of _ "x # M"] exI [of _ d] exI [of _ N] exI [of _ O1] exI [of _ O2]) simp
    qed simp
  qed
qed simp

lemma take_insert_sub: "set (take k (P @ c # X)) \<subseteq> insert c (set (take k (P @ X)))"
proof -
  have "set (take (k - length P) (c # X)) \<subseteq> insert c (set (take (k - length P) X))"
    using set_take_subset_set_take [of "k - length P - 1" "k - length P" X, OF diff_le_self] by (auto simp: take_Cons')
  then show ?thesis by auto
qed

lemma take_move_sub: "set (take k (P @ c # M @ N @ d # Q)) \<subseteq> insert c (set (take k (P @ M @ d # N @ Q)))"
proof -
  have one: "set (take j (N @ d # Q)) \<subseteq> set (take (Suc j) (d # N @ Q))" for j
    using take_insert_sub [of j N d Q] by simp
  have two: "set (take j (M @ N @ d # Q)) \<subseteq> set (take (Suc j) (M @ d # N @ Q))" for j
  proof (cases "j < length M")
    case True
    then show ?thesis using set_take_subset_set_take [of j "Suc j" M] by auto
  next
    case False
    then show ?thesis using one [of "j - length M"] by (auto simp: Suc_diff_le)
  qed
  show ?thesis
  proof (cases "k \<le> length P")
    case False
    then obtain j where "k - length P = Suc j" by (metis diff_is_0_eq not0_implies_Suc)
    then show ?thesis using two [of j] by auto
  qed auto
qed

lemma zoned_insert:
  "set (take n (zone_reps {} (A @ c # B) @ zone_rest {} (A @ c # B)))
     \<subseteq> insert c (set (take n (zone_reps {} (A @ B) @ zone_rest {} (A @ B))))"
proof -
  let ?V = "zones_of A"
  consider "snd (snd c) = None \<or> (\<exists>z. snd (snd c) = Some z \<and> z \<in> ?V)" | z where "snd (snd c) = Some z" "z \<notin> ?V"
    by (cases "snd (snd c)") auto
  then show ?thesis
  proof cases
    case 1
    then have "zone_reps ?V (c # B) = zone_reps ?V B" "zone_rest ?V (c # B) = c # zone_rest ?V B" by auto
    then show ?thesis
      using take_insert_sub [of n "zone_reps {} A @ zone_reps ?V B @ zone_rest {} A" c "zone_rest ?V B"]
      by (simp add: zone_lists_append)
  next
    case (2 z)
    then have c: "zone_reps ?V (c # B) = c # zone_reps (insert z ?V) B" "zone_rest ?V (c # B) = zone_rest (insert z ?V) B"
      by auto
    from zone_taken_moves [OF 2(2), of B] show ?thesis
    proof (elim disjE exE conjE)
      assume "zone_reps (insert z ?V) B = zone_reps ?V B" "zone_rest (insert z ?V) B = zone_rest ?V B"
      then show ?thesis
        using take_insert_sub [of n "zone_reps {} A" c "zone_reps ?V B @ zone_rest {} A @ zone_rest ?V B"] c
        by (simp add: zone_lists_append)
    next
      fix M d N O1 O2
      assume "zone_reps ?V B = M @ d # N" "zone_reps (insert z ?V) B = M @ N" "zone_rest ?V B = O1 @ O2"
        "zone_rest (insert z ?V) B = O1 @ d # O2"
      then show ?thesis
        using take_move_sub [of n "zone_reps {} A" c M "N @ zone_rest {} A @ O1" d O2] c
        by (simp add: zone_lists_append)
    qed
  qed
qed

lemma scored_split:
  assumes "distinct_nodes (c # cs)"
  obtains A x B where "scored_candidates h (c # cs) p = A @ x # B" "scored_candidates h cs p = A @ B" "node_of x = cand_node c"
proof -
  let ?xs = "scored_candidates h (c # cs) p"
  have "cand_node c \<in> node_of ` set ?xs" by (simp add: scored_nodes)
  then obtain x where x: "x \<in> set ?xs" "node_of x = cand_node c" by (auto simp del: split_paired_Ex)
  from split_list [OF x(1)] x(2) obtain A B where xs: "?xs = A @ x # B" "node_of x = cand_node c" by blast
  have "distinct (map node_of ?xs)" by (rule distinct_scored_nodes [OF assms])
  then have "node_of x \<notin> node_of ` set A" "node_of x \<notin> node_of ` set B" unfolding xs(1) by simp_all
  then have "filter (\<lambda>y. node_of y \<noteq> cand_node c) A = A" "filter (\<lambda>y. node_of y \<noteq> cand_node c) B = B"
    using xs(2) by (intro filter_True ballI, metis image_eqI)+
  then have "filter (\<lambda>y. node_of y \<noteq> cand_node c) ?xs = A @ B" unfolding xs(1) by (simp add: xs(2))
  with scored_filter [OF assms, of h p] have "scored_candidates h cs p = A @ B" by (rule subst)
  from that [OF xs(1) this xs(2)] show thesis .
qed

lemma owners_insert:
  assumes "distinct_nodes (c # cs)"
  shows "set (owners_for_zoned h (c # cs) p n zs) \<subseteq> insert (cand_node c) (set (owners_for_zoned h cs p n zs))"
proof -
  obtain A x B where x: "scored_candidates h (c # cs) p = A @ x # B" "scored_candidates h cs p = A @ B"
    "node_of x = cand_node c" by (rule scored_split [OF assms])
  have cs: "distinct_nodes cs" using assms by simp
  show ?thesis
  proof (cases zs)
    case True
    then show ?thesis
      using image_mono [OF zoned_insert [of n A x B], of node_of] x
      by (simp add: owners_zoned_take [OF assms] owners_zoned_take [OF cs] del: take_append)
  next
    case False
    then show ?thesis
      using image_mono [OF take_insert_sub [of n A x B], of node_of] x
      by (simp add: owners_for_zoned_def map_node_scored del: take_append)
  qed
qed

text \<open>C6: A membership change moves only what it must: when a node is added to the candidates (or, read the
other way, leaves them), then for every partition, with and without zone spreading, the new node is the only new
owner and at most one old owner is displaced. Without zone spreading the owners among the remaining nodes also
keep their old order, and the one displaced is the last.\<close>

theorem placement_minimal_disruption:
  assumes "distinct_nodes (c # cs)"
  shows "set (owners_for_zoned h (c # cs) p n zs) \<subseteq> insert (cand_node c) (set (owners_for_zoned h cs p n zs)) \<and>
    card (set (owners_for_zoned h cs p n zs) - set (owners_for_zoned h (c # cs) p n zs)) \<le> 1 \<and>
    (\<not> zs \<longrightarrow> prefix (filter (\<lambda>i. i \<noteq> cand_node c) (owners_for_zoned h (c # cs) p n zs)) (owners_for_zoned h cs p n zs))"
proof (intro conjI impI)
  let ?P = "\<lambda>i. i \<noteq> cand_node c"
  let ?new = "owners_for_zoned h (c # cs) p n zs" and ?old = "owners_for_zoned h cs p n zs"
  have cs: "distinct_nodes cs" using assms by simp
  show sub: "set ?new \<subseteq> insert (cand_node c) (set ?old)" by (rule owners_insert [OF assms])
  have "card (set ?old) \<le> card (set ?new)"
    using owners_props(1,3) [OF assms, of h p n zs] owners_props(1,3) [OF cs, of h p n zs]
    by (simp add: distinct_card)
  also have "\<dots> \<le> card (insert (cand_node c) (set ?old \<inter> set ?new))"
    using sub by (intro card_mono) auto
  also have "\<dots> \<le> Suc (card (set ?old \<inter> set ?new))" by (simp add: card_insert_le_m1 card_insert_if)
  finally show "card (set ?old - set ?new) \<le> 1" by (simp add: card_Diff_subset_Int)
  assume "\<not> zs"
  then have os: "owners_for_zoned h ds p n zs = map node_of (take n (scored_candidates h ds p))" for ds
    by (simp add: owners_for_zoned_def map_node_scored)
  show "prefix (filter ?P ?new) ?old"
    using filter_take_prefix [of "\<lambda>x. ?P (node_of x)" n "scored_candidates h (c # cs) p"] scored_filter [OF assms, of h p]
    by (simp add: os filter_map o_def map_mono_prefix)
qed

theorem placement_minimal_disruption_witness:
  "let h = (\<lambda>bs. ucast (hd bs));
       cs = [\<lparr>cand_node = 8, cand_active = True, cand_zone = Some [1]\<rparr>, \<lparr>cand_node = 6, cand_active = True, cand_zone = Some [1]\<rparr>,
             \<lparr>cand_node = 4, cand_active = True, cand_zone = Some [2]\<rparr>, \<lparr>cand_node = 2, cand_active = True, cand_zone = None\<rparr>];
       c = \<lparr>cand_node = 7, cand_active = True, cand_zone = Some [2]\<rparr>
   in owners_for_zoned h cs 5 3 True = [8, 4, 6] \<and> owners_for_zoned h (c # cs) 5 3 True = [8, 7, 6] \<and>
      card (set (owners_for_zoned h cs 5 3 True) - set (owners_for_zoned h (c # cs) 5 3 True)) \<le> 1"
proof -
  let ?h = "\<lambda>bs :: bytes. ucast (hd bs) :: u64"
  let ?cs = "[\<lparr>cand_node = 8, cand_active = True, cand_zone = Some [1]\<rparr>, \<lparr>cand_node = 6, cand_active = True, cand_zone = Some [1]\<rparr>,
             \<lparr>cand_node = 4, cand_active = True, cand_zone = Some [2]\<rparr>, \<lparr>cand_node = 2, cand_active = True, cand_zone = None\<rparr>]"
  let ?c = "\<lparr>cand_node = 7, cand_active = True, cand_zone = Some [2]\<rparr>"
  have "distinct_nodes (?c # ?cs)" by simp
  note placement_minimal_disruption [OF this, of ?h 5 3 True]
  moreover have "owners_for_zoned ?h ?cs 5 3 True = [8, 4, 6]" "owners_for_zoned ?h (?c # ?cs) 5 3 True = [8, 7, 6]"
    by code_simp+
  ultimately show ?thesis unfolding Let_def by blast
qed

section \<open>Tables and the plans of a joining node\<close>

lemma index_map [simp]: "index (map f xs) i = map_option f (index xs i)"
  by (simp add: index_def)

lemma index_pids: "p < PARTITIONS \<Longrightarrow> index pids (unat p) = Some p"
  by (simp add: index_def pids_def word_less_nat_alt)

lemma with_tables_simps [simp]:
  "v_members (with_tables h zs ms e n) = ms" "v_tbl_n (with_tables h zs ms e n) = n"
  "owner_candidates (with_tables h zs ms e n) =
     map (\<lambda>m. \<lparr>cand_node = m_node m, cand_active = (m_phase m = Active), cand_zone = m_zone m\<rparr>)
       (filter (\<lambda>m. owns_data (m_phase m)) ms)"
  by (simp_all add: with_tables_def Let_def owner_candidates_def)

lemma h1_uncached_cong: "v_members v = v_members w \<Longrightarrow> h1_uncached v os = h1_uncached w os"
  by (simp add: h1_uncached_def)

lemma length_pids: "length pids = unat PARTITIONS" "0 < unat PARTITIONS"
  by (simp_all add: pids_def PARTITIONS_def)

lemma pids_nonempty: "pids \<noteq> []"
  by (simp add: pids_def PARTITIONS_def)

lemma view_lookup:
  fixes h zs ms e n
  assumes "p < PARTITIONS"
  defines "v \<equiv> with_tables h zs ms e n"
  shows "view_owners h zs v p n = Some (owners_for_zoned h (owner_candidates v) p n zs)"
    "view_h1 h zs v p n = Some (h1_uncached v (owners_for_zoned h (owner_candidates v) p n zs))"
    "view_is_owner h zs v p n i = Some (i \<in> set (owners_for_zoned h (owner_candidates v) p n zs))"
proof -
  let ?cs = "owner_candidates v"
  have v: "v_tbl_n v = n" "v_owners_tbl v = map (\<lambda>p. owners_for_zoned h ?cs p n zs) pids"
    unfolding v_def by (simp_all add: with_tables_def Let_def owner_candidates_def)
  have h1: "v_h1_tbl v = map (h1_uncached v) (v_owners_tbl v)"
    unfolding v_def by (auto simp: with_tables_def Let_def intro: h1_uncached_cong)
  show "view_owners h zs v p n = Some (owners_for_zoned h ?cs p n zs)"
    "view_h1 h zs v p n = Some (h1_uncached v (owners_for_zoned h ?cs p n zs))"
    "view_is_owner h zs v p n i = Some (i \<in> set (owners_for_zoned h ?cs p n zs))"
    by (simp_all add: view_owners_def view_h1_def view_is_owner_def v h1 pids_nonempty index_pids [OF assms(1)])
qed

lemma in_pids: "p \<in> set pids \<Longrightarrow> p < PARTITIONS"
  by (auto simp: pids_def PARTITIONS_def word_less_nat_alt unat_of_nat take_bit_nat_eq_self)

lemma strict_sorted_dedup_by:
  fixes k :: "'a \<Rightarrow> 'k::linorder"
  shows "sorted (map k xs) \<Longrightarrow> sorted_wrt (\<lambda>a b. k a < k b) (dedup_by k xs)"
proof (induction k xs rule: dedup_by.induct)
  case (3 k x y xs)
  show ?case
  proof (cases "k x = k y")
    case False
    then have "\<forall>z\<in>set (y # xs). k x < k z" using 3(3) by (auto simp: less_le)
    then have "\<forall>z\<in>set (dedup_by k (y # xs)). k x < k z" using set_dedup_by_subset by fastforce
    with 3 False show ?thesis by simp
  qed (use 3 in simp)
qed simp_all

lemma rebuild_members_sorted:
  "sorted_wrt (\<lambda>a b. m_node a < m_node b) (rebuild_members pa nodes)"
  by (simp add: rebuild_members_def strict_sorted_dedup_by)

lemma sorted_members_distinct:
  "sorted_wrt (\<lambda>a b. m_node a < m_node b) ms \<Longrightarrow> distinct (map m_node ms)"
  by (induction ms) auto

lemma distinct_owner_candidates:
  "distinct (map m_node (v_members v)) \<Longrightarrow> distinct_nodes (owner_candidates v)"
  by (simp add: owner_candidates_def o_def distinct_map_filter)

lemma stats_loop_const:
  "stats_loop n (replicate k rf) u m =
     (if rf < n then u + k else u,
      if k = 0 then m else Some (case m of None \<Rightarrow> rf | Some m \<Rightarrow> min m rf))"
  by (induction k arbitrary: u m) (auto split: option.splits)

lemma find_eq_filter: "find P xs = (case filter P xs of [] \<Rightarrow> None | x # _ \<Rightarrow> Some x)"
  by (induction xs) simp_all

lemma view_consistent:
  fixes h cl pa nodes e
  defines "v \<equiv> rebuild_view h (zone_spread_enabled cl) pa nodes e (replicas_n cl)"
  defines "eligible \<equiv> length (filter (\<lambda>m. owns_data (m_phase m)) (v_members v))"
  shows "sorted_wrt (\<lambda>a b. m_node a < m_node b) (v_members v) \<and>
    (\<forall>p<PARTITIONS. \<exists>os. view_owners h (zone_spread_enabled cl) v p (replicas_n cl) = Some os \<and>
       os = owners_for_zoned h (owner_candidates v) p (replicas_n cl) (zone_spread_enabled cl) \<and>
       length os = min (replicas_n cl) eligible \<and>
       view_h1 h (zone_spread_enabled cl) v p (replicas_n cl) =
         Some (case filter (\<lambda>i. \<exists>m\<in>set (v_members v). m_node m = i \<and> m_phase m = Active) os @ os of
                 [] \<Rightarrow> None | i # _ \<Rightarrow> Some i)) \<and>
    cluster_stats_of h cl v =
      \<lparr>cs_members = length (v_members v),
       underreplicated_partitions = (if eligible < replicas_n cl then unat PARTITIONS else 0),
       effective_rf_min = min (replicas_n cl) eligible, degraded = (eligible < replicas_n cl)\<rparr>"
proof (intro conjI allI impI)
  show sorted: "sorted_wrt (\<lambda>a b. m_node a < m_node b) (v_members v)"
    by (simp add: v_def rebuild_view_def rebuild_members_sorted)
  note cands = distinct_owner_candidates [OF sorted_members_distinct [OF sorted]]
  have len: "length (owners_for_zoned h (owner_candidates v) p (replicas_n cl) zs) = min (replicas_n cl) eligible" for p zs
    using owners_props(3) [OF cands] by (simp add: eligible_def owner_candidates_def)
  have find: "(case find P os of Some i \<Rightarrow> Some i | None \<Rightarrow> (case os of [] \<Rightarrow> None | i # _ \<Rightarrow> Some i)) =
      (case filter P os @ os of [] \<Rightarrow> None | i # _ \<Rightarrow> Some i)" for P and os :: "node_id list"
    by (cases "filter P os") (simp_all add: find_eq_filter)
  { fix p
    assume "p < PARTITIONS"
    note look = view_lookup [OF this, of h "zone_spread_enabled cl"]
    show "\<exists>os. view_owners h (zone_spread_enabled cl) v p (replicas_n cl) = Some os \<and>
       os = owners_for_zoned h (owner_candidates v) p (replicas_n cl) (zone_spread_enabled cl) \<and>
       length os = min (replicas_n cl) eligible \<and>
       view_h1 h (zone_spread_enabled cl) v p (replicas_n cl) =
         Some (case filter (\<lambda>i. \<exists>m\<in>set (v_members v). m_node m = i \<and> m_phase m = Active) os @ os of
                 [] \<Rightarrow> None | i # _ \<Rightarrow> Some i)"
      using len unfolding v_def rebuild_view_def look h1_uncached_def find by simp }
  show "cluster_stats_of h cl v =
      \<lparr>cs_members = length (v_members v),
       underreplicated_partitions = (if eligible < replicas_n cl then unat PARTITIONS else 0),
       effective_rf_min = min (replicas_n cl) eligible, degraded = (eligible < replicas_n cl)\<rparr>"
    using length_pids(2) by (auto simp: cluster_stats_of_def Let_def len map_replicate_const stats_loop_const length_pids(1))
qed

text \<open>The view a node builds from any gossip snapshot is consistent: its members are sorted by node id
without duplicates, the cached tables agree with ranking the members directly on every partition, the primary
home is the first Active owner (the first owner when none is Active), and the statistics report a degraded
cluster exactly when fewer members than replicas can own data.\<close>

theorem view_is_consistent:
  "let v = rebuild_view h (zone_spread_enabled cl) pa nodes e (replicas_n cl);
       eligible = length (filter (\<lambda>m. owns_data (m_phase m)) (v_members v))
   in sorted_wrt (\<lambda>a b. m_node a < m_node b) (v_members v) \<and>
       (\<forall>p<PARTITIONS. \<exists>os. view_owners h (zone_spread_enabled cl) v p (replicas_n cl) = Some os \<and>
          os = owners_for_zoned h (owner_candidates v) p (replicas_n cl) (zone_spread_enabled cl) \<and>
          length os = min (replicas_n cl) eligible \<and>
          view_h1 h (zone_spread_enabled cl) v p (replicas_n cl) =
            Some (case filter (\<lambda>i. \<exists>m\<in>set (v_members v). m_node m = i \<and> m_phase m = Active) os @ os of
                    [] \<Rightarrow> None | i # _ \<Rightarrow> Some i)) \<and>
       cluster_stats_of h cl v =
         \<lparr>cs_members = length (v_members v),
          underreplicated_partitions = (if eligible < replicas_n cl then unat PARTITIONS else 0),
          effective_rf_min = min (replicas_n cl) eligible, degraded = (eligible < replicas_n cl)\<rparr>"
  unfolding Let_def by (rule view_consistent)

theorem view_is_consistent_witness:
  "let cl = \<lparr>self_id = 5, replicas_n = 2, zone_spread_enabled = False, self_zone = None\<rparr>;
       g = \<lparr>g_node_id = [53], g_generation_id = 1, g_gossip_addr = ([], 0),
            g_state = [KV_MESH_ADDR \<mapsto> [], KV_STATE \<mapsto> phase_as_str Active]\<rparr>;
       v = rebuild_view (\<lambda>bs. ucast (hd bs)) False (\<lambda>_. Some ([127, 0, 0, 1], 7946)) [g] 1 2
   in \<exists>os. view_owners (\<lambda>bs. ucast (hd bs)) False v 4095 2 = Some os \<and> length os = 1 \<and>
        degraded (cluster_stats_of (\<lambda>bs. ucast (hd bs)) cl v)"
proof -
  let ?h = "\<lambda>bs :: bytes. ucast (hd bs) :: u64"
  let ?pa = "\<lambda>_ :: bytes. Some ([127, 0, 0, 1] :: bytes, 7946 :: u16)"
  let ?cl = "\<lparr>self_id = 5, replicas_n = 2, zone_spread_enabled = False, self_zone = None\<rparr>"
  let ?g = "\<lparr>g_node_id = [53], g_generation_id = 1, g_gossip_addr = ([], 0),
            g_state = [KV_MESH_ADDR \<mapsto> [], KV_STATE \<mapsto> phase_as_str Active]\<rparr> :: gossip_node"
  let ?v = "rebuild_view ?h False ?pa [?g] 1 2"
  have "parse_u16 [53] = Some 5" by (simp add: parse_u16_def digits_value_def is_digit_def)
  then have one: "length (filter (\<lambda>m. owns_data (m_phase m)) (v_members ?v)) = 1"
    by (simp add: rebuild_view_def rebuild_members_def gossip_member_def List.map_filter_simps phase_parse_def
        owns_data_def)
  note consistent = view_is_consistent [of ?h ?cl ?pa "[?g]" 1, unfolded Let_def, simplified cluster.simps one]
  have "degraded (cluster_stats_of ?h ?cl ?v)" using consistent by simp
  moreover have "(4095 :: pid) < PARTITIONS" by (simp add: PARTITIONS_def)
  then have "\<exists>os. view_owners ?h False ?v 4095 2 = Some os \<and> length os = 1" using consistent by fastforce
  ultimately show ?thesis by (auto simp: Let_def)
qed

text \<open>The members once the gossiped phase of \<open>node\<close> is Active.\<close>

definition activate :: "node_id \<Rightarrow> member list \<Rightarrow> member list" where
  "activate node = map (\<lambda>m. if m_node m = node then m\<lparr>m_phase := Active\<rparr> else m)"

lemma nodes_activate: "map m_node (activate node ms) = map m_node ms"
  by (simp add: activate_def)

lemma future_owners:
  assumes "distinct (map m_node ms)" "me \<in> set ms" "m_node me = self_id cl" "m_phase me = Joining"
    "m_zone me = self_zone cl"
  shows "owners_for_zoned h (future_candidates cl (with_tables h' zs' ms e n')) p n zs =
    owners_for_zoned h (owner_candidates (with_tables h'' zs'' (activate (self_id cl) ms) e' n'')) p n zs"
proof (rule owners_cong)
  let ?v = "with_tables h' zs' ms e n'" and ?v' = "with_tables h'' zs'' (activate (self_id cl) ms) e' n''"
  have only: "m = me" if "m \<in> set ms" "m_node m = self_id cl" for m
    using assms that by (auto simp: distinct_map inj_on_def)
  have nself: "\<not> (\<exists>c\<in>set (owner_candidates ?v). cand_node c = self_id cl)"
    using only assms(4) by (auto simp: owns_data_def)
  then have fut: "future_candidates cl ?v =
      owner_candidates ?v @ [\<lparr>cand_node = self_id cl, cand_active = True, cand_zone = self_zone cl\<rparr>]"
    by (simp add: future_candidates_def Let_def)
  have "distinct_nodes (owner_candidates ?v)"
    using assms(1) by (intro distinct_owner_candidates) simp
  with nself show "distinct_nodes (future_candidates cl ?v)" by (auto simp: fut simp del: with_tables_simps(3))
  show "distinct_nodes (owner_candidates ?v')"
    using assms(1) by (intro distinct_owner_candidates) (simp add: nodes_activate)
  let ?pair = "\<lambda>m. (m_node m, m_zone m)"
  let ?g = "\<lambda>m. if m_node m = self_id cl then m\<lparr>m_phase := Active\<rparr> else m"
  have g: "?pair (?g m) = ?pair m" "owns_data (m_phase (?g m)) \<longleftrightarrow> m_node m = self_id cl \<or> owns_data (m_phase m)" for m
    by (simp_all add: owns_data_def)
  have placed: "placed ` set (owner_candidates (with_tables k z xs ep r)) =
      ?pair ` {m \<in> set xs. owns_data (m_phase m)}" for k z xs ep r
    by (simp add: image_image placed_def)
  have "{m \<in> set (activate (self_id cl) ms). owns_data (m_phase m)} =
      ?g ` {m \<in> set ms. owns_data (m_phase (?g m))}" by (auto simp: activate_def)
  also have "{m \<in> set ms. owns_data (m_phase (?g m))} = insert me {m \<in> set ms. owns_data (m_phase m)}"
    using only assms(2,3) unfolding g by blast
  finally have "placed ` set (owner_candidates ?v') =
      (\<lambda>m. ?pair (?g m)) ` insert me {m \<in> set ms. owns_data (m_phase m)}"
    unfolding placed by (simp only: image_image)
  then have "placed ` set (owner_candidates ?v') = insert (self_id cl, self_zone cl) (placed ` set (owner_candidates ?v))"
    unfolding g placed using assms(3,5) by simp
  then show "placed ` set (future_candidates cl ?v) = placed ` set (owner_candidates ?v')"
    unfolding fut by (simp add: placed_def [of "\<lparr>cand_node = _, cand_active = _, cand_zone = _\<rparr>"] del: with_tables_simps(3))
qed

text \<open>C25: The join gate and the placement tables agree: the partitions a Joining node plans for are exactly the
partitions it owns in the view in which it has become Active, and its planned co-owners are the other owners
there.\<close>

theorem join_gate_agrees:
  assumes "distinct (map m_node ms)" "me \<in> set ms" "m_node me = self_id cl" "m_phase me = Joining"
    "m_zone me = self_zone cl"
  shows "let v = with_tables h (zone_spread_enabled cl) ms e (replicas_n cl);
             v' = with_tables h (zone_spread_enabled cl) (activate (self_id cl) ms) e' (replicas_n cl)
         in future_owned_pids h cl v = owned_pids h cl v' \<and>
            (\<forall>p<PARTITIONS. \<exists>os. view_owners h (zone_spread_enabled cl) v' p (replicas_n cl) = Some os \<and>
               future_co_owners h cl v p = filter (\<lambda>i. i \<noteq> self_id cl) os)"
proof -
  let ?v = "with_tables h (zone_spread_enabled cl) ms e (replicas_n cl)"
  let ?v' = "with_tables h (zone_spread_enabled cl) (activate (self_id cl) ms) e' (replicas_n cl)"
  note own = future_owners [OF assms, where h = h and e' = e' and h'' = h and zs'' = "zone_spread_enabled cl"
      and n'' = "replicas_n cl"]
  have "future_owned_pids h cl ?v = owned_pids h cl ?v'"
    unfolding future_owned_pids_def owned_pids_def own
    by (rule filter_cong) (simp_all add: view_lookup in_pids del: with_tables_simps(3))
  moreover have "\<forall>p<PARTITIONS. \<exists>os. view_owners h (zone_spread_enabled cl) ?v' p (replicas_n cl) = Some os \<and>
      future_co_owners h cl ?v p = filter (\<lambda>i. i \<noteq> self_id cl) os"
    unfolding future_co_owners_def own by (simp add: view_lookup del: with_tables_simps(3))
  ultimately show ?thesis by (simp add: Let_def)
qed

theorem join_gate_agrees_witness:
  "let h = (\<lambda>bs. ucast (hd bs));
       cl = \<lparr>self_id = 5, replicas_n = 2, zone_spread_enabled = False, self_zone = None\<rparr>;
       m = (\<lambda>i ph. \<lparr>m_node = i, m_mesh_addr = ([], 0), m_gossip_addr = ([], 0), m_resp_addr = None,
                    m_generation = 1, m_phase = ph, m_zone = None\<rparr>);
       ms = [m 3 Active, m 4 Leaving, m 5 Joining]
   in future_owned_pids h cl (with_tables h False ms 1 2) =
      owned_pids h cl (with_tables h False (activate 5 ms) 2 2)"
proof -
  let ?h = "\<lambda>bs :: bytes. ucast (hd bs) :: u64"
  let ?cl = "\<lparr>self_id = 5, replicas_n = 2, zone_spread_enabled = False, self_zone = None\<rparr>"
  let ?m = "\<lambda>i ph. \<lparr>m_node = i, m_mesh_addr = ([], 0), m_gossip_addr = ([], 0), m_resp_addr = None,
                    m_generation = 1, m_phase = ph, m_zone = None\<rparr>"
  let ?ms = "[?m 3 Active, ?m 4 Leaving, ?m 5 Joining]"
  have "distinct (map m_node ?ms)" "?m 5 Joining \<in> set ?ms" "m_node (?m 5 Joining) = self_id ?cl"
    "m_phase (?m 5 Joining) = Joining" "m_zone (?m 5 Joining) = self_zone ?cl" by simp_all
  from join_gate_agrees [OF this, of ?h 1 2] show ?thesis by (simp add: Let_def)
qed

end
