(* ===== verification/Interest.thy ===== *)
theory Interest
  imports Partition "HOL-Library.AList"
begin

text \<open>
  \<open>marekvs-repl/src/lib.rs\<close>, the interest table: which peers hold a lease on which user key of which
  partition. The table is a map of maps of maps; a running total of its leaves enforces a hard cap. The
  hash maps are association lists, whose order is the order of iteration; times are milliseconds.
\<close>

section \<open>Definitions\<close>

type_synonym instant = nat
type_synonym leases = "(node_id \<times> instant) list"
type_synonym lease_keys = "(bytes \<times> leases) list"
type_synonym interest_map = "(pid \<times> lease_keys) list"

record interest =
  i_map :: interest_map
  i_total :: nat
  i_max :: nat

text \<open>
  \<open>HashMap::retain\<close> with a closure that may change the value and a captured counter, and that returns
  whether the entry stays.
\<close>

fun retain_mut :: "('v \<Rightarrow> nat \<Rightarrow> 'v \<times> nat \<times> bool) \<Rightarrow> ('k \<times> 'v) list \<Rightarrow> nat \<Rightarrow> ('k \<times> 'v) list \<times> nat" where
  "retain_mut f [] t = ([], t)"
| "retain_mut f ((k, v) # xs) t =
     (let (v', t', keep) = f v t; (xs', t'') = retain_mut f xs t'
      in (if keep then (k, v') # xs' else xs', t''))"

text \<open>A closure that filters an inner map and keeps it when it is not empty.\<close>

definition retain_nonempty ::
    "('v \<Rightarrow> nat \<Rightarrow> 'v \<times> nat \<times> bool) \<Rightarrow> ('k \<times> 'v) list \<Rightarrow> nat \<Rightarrow> ('k \<times> 'v) list \<times> nat \<times> bool" where
  "retain_nonempty f m t = (let (m', t') = retain_mut f m t in (m', t', m' \<noteq> []))"

definition interest_new :: "nat \<Rightarrow> interest" where
  "interest_new mx = \<lparr>i_map = [], i_total = 0, i_max = mx\<rparr>"

definition interest_subs :: "interest \<Rightarrow> pid \<Rightarrow> bytes \<Rightarrow> leases option" where
  "interest_subs i p userkey = Option.bind (map_of (i_map i) p) (\<lambda>keys. map_of keys userkey)"

text \<open>\<open>entry(k).or_default()\<close>, modified by \<open>f\<close>.\<close>

definition or_default :: "'k \<Rightarrow> (('a list) \<Rightarrow> ('a list)) \<Rightarrow> ('k \<times> 'a list) list \<Rightarrow> ('k \<times> 'a list) list" where
  "or_default k f m = AList.update k (f (case map_of m k of Some v \<Rightarrow> v | None \<Rightarrow> [])) m"

definition interest_register :: "pid \<Rightarrow> bytes \<Rightarrow> node_id \<Rightarrow> instant \<Rightarrow> interest \<Rightarrow> interest \<times> bool" where
  "interest_register p userkey node ex i =
     (let put = or_default p (or_default userkey (AList.update node ex)) (i_map i)
      in case Option.bind (interest_subs i p userkey) (\<lambda>subs. map_of subs node) of
           Some _ \<Rightarrow> (i\<lparr>i_map := put\<rparr>, True)
         | None \<Rightarrow> if i_total i \<ge> i_max i then (i, False)
                   else (i\<lparr>i_map := put, i_total := i_total i + 1\<rparr>, True))"

definition remove_peer_subs :: "node_id \<Rightarrow> leases \<Rightarrow> nat \<Rightarrow> leases \<times> nat \<times> bool" where
  "remove_peer_subs node subs t =
     (let subs' = AList.delete node subs
      in (subs', if map_of subs node \<noteq> None then t - 1 else t, subs' \<noteq> []))"

definition interest_remove_peer :: "node_id \<Rightarrow> interest \<Rightarrow> interest" where
  "interest_remove_peer node i =
     (let (m, t) = retain_mut (retain_nonempty (remove_peer_subs node)) (i_map i) (i_total i)
      in i\<lparr>i_map := m, i_total := t\<rparr>)"

definition gc_lease :: "instant \<Rightarrow> instant \<Rightarrow> nat \<Rightarrow> instant \<times> nat \<times> bool" where
  "gc_lease now ex t = (let live = now < ex in (ex, if \<not> live then t - 1 else t, live))"

definition interest_gc :: "instant \<Rightarrow> interest \<Rightarrow> interest" where
  "interest_gc now i =
     (let (m, t) = retain_mut (retain_nonempty (retain_nonempty (gc_lease now))) (i_map i) (i_total i)
      in i\<lparr>i_map := m, i_total := t\<rparr>)"

section \<open>Counted retention\<close>

text \<open>
  What a closure passed to \<open>retain\<close> promises: on well-formed values it changes the value by \<open>g\<close>, keeps
  the entry by \<open>keep\<close>, and lowers the counter by exactly the weight the entry loses.
\<close>

abbreviation weight_of :: "('v \<Rightarrow> nat) \<Rightarrow> ('k \<times> 'v) list \<Rightarrow> nat" where
  "weight_of w xs \<equiv> sum_list (map (\<lambda>x. w (snd x)) xs)"

definition retained :: "('v \<Rightarrow> 'v) \<Rightarrow> ('v \<Rightarrow> bool) \<Rightarrow> ('k \<times> 'v) list \<Rightarrow> ('k \<times> 'v) list" where
  "retained g keep xs = map (\<lambda>x. (fst x, g (snd x))) (filter (\<lambda>x. keep (snd x)) xs)"

lemma retained_simps [simp]:
  "retained g keep [] = []"
  "retained g keep (x # xs) =
     (if keep (snd x) then (fst x, g (snd x)) # retained g keep xs else retained g keep xs)"
  by (simp_all add: retained_def)

lemma map_of_retained:
  assumes "distinct (map fst xs)"
  shows "map_of (retained g keep xs) k = Option.bind (map_of xs k) (\<lambda>v. if keep v then Some (g v) else None)"
  using assms
proof (induction xs)
  case (Cons x xs)
  then have "fst x \<notin> fst ` set xs" by simp
  moreover have "fst ` set (retained g keep xs) \<subseteq> fst ` set xs" by (force simp: retained_def)
  ultimately have "map_of (retained g keep xs) (fst x) = None" by (auto simp: map_of_eq_None_iff)
  with Cons show ?case by auto
qed simp

lemma distinct_retained: "distinct (map fst xs) \<Longrightarrow> distinct (map fst (retained g keep xs))"
  by (simp add: retained_def o_def distinct_map_filter)

locale counted_retain =
  fixes f :: "'v \<Rightarrow> nat \<Rightarrow> 'v \<times> nat \<times> bool" and g :: "'v \<Rightarrow> 'v" and keep :: "'v \<Rightarrow> bool"
    and w :: "'v \<Rightarrow> nat" and ok :: "'v \<Rightarrow> bool"
  assumes step: "ok v \<Longrightarrow> w v \<le> t \<Longrightarrow> f v t = (g v, t - (w v - (if keep v then w (g v) else 0)), keep v)"
    and shrink: "ok v \<Longrightarrow> w (g v) \<le> w v"
    and ok_g: "ok v \<Longrightarrow> keep v \<Longrightarrow> ok (g v)"
begin

lemma weight_retained_le:
  assumes "\<forall>x\<in>set xs. ok (snd x)"
  shows "weight_of w (retained g keep xs) \<le> weight_of w xs"
  using assms
proof (induction xs)
  case (Cons x xs)
  then have "w (g (snd x)) \<le> w (snd x)" by (simp add: shrink)
  with Cons show ?case by simp
qed simp

lemma retain_mut_eq:
  assumes "\<forall>x\<in>set xs. ok (snd x)" "weight_of w xs \<le> t"
  shows "retain_mut f xs t = (retained g keep xs, t - (weight_of w xs - weight_of w (retained g keep xs)))"
  using assms
proof (induction xs arbitrary: t)
  case (Cons x xs)
  obtain k v where x: "x = (k, v)" by (cases x)
  let ?t = "t - (w v - (if keep v then w (g v) else 0))"
  have "weight_of w xs \<le> ?t" using Cons.prems x by simp
  with Cons have rest: "retain_mut f xs ?t = (retained g keep xs, ?t - (weight_of w xs - weight_of w (retained g keep xs)))"
    by simp
  have v: "f v t = (g v, ?t, keep v)" using Cons.prems x step by simp
  have le: "weight_of w (retained g keep xs) \<le> weight_of w xs" "w (g v) \<le> w v"
    using weight_retained_le [of xs] shrink [of v] Cons.prems x by simp_all
  show ?case
    using v rest le Cons.prems(2) by (auto simp: x Let_def add.assoc)
qed simp

lemma nested:
  "counted_retain (retain_nonempty f) (retained g keep) (\<lambda>m. retained g keep m \<noteq> []) (weight_of w)
     (\<lambda>m. distinct (map fst m) \<and> (\<forall>x\<in>set m. ok (snd x)))"
proof
  fix m :: "('k \<times> 'v) list" and t
  assume ok: "distinct (map fst m) \<and> (\<forall>x\<in>set m. ok (snd x))"
  show "weight_of w (retained g keep m) \<le> weight_of w m" using ok weight_retained_le by blast
  show "distinct (map fst (retained g keep m)) \<and> (\<forall>x\<in>set (retained g keep m). ok (snd x))" if "retained g keep m \<noteq> []"
    using ok distinct_retained [of m] ok_g by (auto simp: retained_def)
  assume "weight_of w m \<le> t"
  with ok show "retain_nonempty f m t =
      (retained g keep m, t - (weight_of w m - (if retained g keep m \<noteq> [] then weight_of w (retained g keep m) else 0)), retained g keep m \<noteq> [])"
    by (auto simp: retain_nonempty_def retain_mut_eq)
qed

end

interpretation gc_exp: counted_retain "gc_lease now" "\<lambda>ex. ex" "\<lambda>ex. now < ex" "\<lambda>_. 1" "\<lambda>_. True" for now
  by unfold_locales (auto simp: gc_lease_def)

lemma length_delete:
  "distinct (map fst xs) \<Longrightarrow> length (AList.delete k xs) = length xs - (if map_of xs k \<noteq> None then 1 else 0)"
proof (induction xs)
  case (Cons x xs)
  have "AList.delete k xs = xs" if "k = fst x"
    using Cons.prems that by (intro delete_id) simp
  moreover have "xs \<noteq> []" if "map_of xs k \<noteq> None" using that by auto
  ultimately show ?case using Cons by (cases x) (auto simp: Suc_diff_le)
qed simp

interpretation drop_peer: counted_retain "remove_peer_subs node" "AList.delete node"
  "\<lambda>subs. AList.delete node subs \<noteq> []" "weight_of (\<lambda>_. 1)" "\<lambda>subs. distinct (map fst subs)" for node
proof
  fix subs :: leases and t
  assume d: "distinct (map fst subs)"
  show "weight_of (\<lambda>_. 1) (AList.delete node subs) \<le> weight_of (\<lambda>_. 1) subs"
    by (simp add: sum_list_triv length_delete_le)
  show "distinct (map fst (AList.delete node subs))" using d by (rule distinct_delete)
  assume "weight_of (\<lambda>_. 1) subs \<le> t"
  then have le: "length subs \<le> t" by (simp add: sum_list_triv)
  note len = length_delete [OF d, of node]
  show "remove_peer_subs node subs t = (AList.delete node subs,
      t - (weight_of (\<lambda>_. 1) subs - (if AList.delete node subs \<noteq> [] then weight_of (\<lambda>_. 1) (AList.delete node subs) else 0)),
      AList.delete node subs \<noteq> [])"
  proof (cases "map_of subs node")
    case None
    with len show ?thesis by (auto simp: remove_peer_subs_def Let_def sum_list_triv)
  next
    case (Some y)
    then have "0 < length subs" by (cases subs) simp_all
    moreover have "length (AList.delete node subs) = length subs - 1" using Some len by simp
    ultimately have "t - 1 = t - (length subs - length (AList.delete node subs))" using le by arith
    with Some show ?thesis by (simp add: remove_peer_subs_def Let_def sum_list_triv)
  qed
qed

section \<open>The table as a bounded map of leases\<close>

abbreviation leases_ok :: "leases \<Rightarrow> bool" where
  "leases_ok subs \<equiv> distinct (map fst subs)"

definition keys_ok :: "lease_keys \<Rightarrow> bool" where
  "keys_ok keys \<longleftrightarrow> distinct (map fst keys) \<and> (\<forall>x\<in>set keys. leases_ok (snd x))"

definition leaves :: "interest_map \<Rightarrow> nat" where
  "leaves = weight_of (weight_of (weight_of (\<lambda>_. 1)))"

definition interest_ok :: "interest \<Rightarrow> bool" where
  "interest_ok i \<longleftrightarrow> distinct (map fst (i_map i)) \<and> (\<forall>x\<in>set (i_map i). keys_ok (snd x)) \<and>
     i_total i = leaves (i_map i) \<and> i_total i \<le> i_max i"

definition interest_abs :: "interest \<Rightarrow> pid \<times> bytes \<times> node_id \<Rightarrow> instant option" where
  "interest_abs i = (\<lambda>(p, userkey, node). Option.bind (interest_subs i p userkey) (\<lambda>subs. map_of subs node))"

lemma weight_update:
  "distinct (map fst xs) \<Longrightarrow>
     weight_of w (AList.update k v xs) + (case map_of xs k of Some u \<Rightarrow> w u | None \<Rightarrow> 0) = weight_of w xs + w v"
proof (induction xs)
  case (Cons x xs)
  have "map_of xs k = None" if "fst x = k" using Cons.prems that by (simp add: map_of_eq_None_iff)
  with Cons show ?case by (cases x) (auto split: option.splits)
qed simp

lemma set_update_subset: "set (AList.update k v xs) \<subseteq> insert (k, v) (set xs)"
  by (induction xs) auto

abbreviation get_or_nil :: "('k \<times> 'a list) list \<Rightarrow> 'k \<Rightarrow> 'a list" where
  "get_or_nil m k \<equiv> (case map_of m k of Some v \<Rightarrow> v | None \<Rightarrow> [])"

lemma weight_or_default:
  assumes "distinct (map fst m)" "W [] = 0"
  shows "weight_of W (or_default k F m) + W (get_or_nil m k) = weight_of W m + W (F (get_or_nil m k))"
  using weight_update [OF assms(1), of W k "F (get_or_nil m k)"] assms(2)
  by (auto simp: or_default_def split: option.splits)

lemma or_default_ok:
  assumes "distinct (map fst m)" "\<forall>x\<in>set m. P (snd x)" "P (F (get_or_nil m k))"
  shows "distinct (map fst (or_default k F m)) \<and> (\<forall>x\<in>set (or_default k F m). P (snd x))"
  using assms set_update_subset [of k _ m] by (fastforce simp: or_default_def distinct_update)

lemma map_of_or_default:
  "map_of (or_default k F m) k' =
     (if k' = k then Some (F (get_or_nil m k)) else map_of m k')"
  by (simp add: or_default_def update_conv')

lemma get_or_nil_ok: "\<forall>x\<in>set m. P (snd x) \<Longrightarrow> P [] \<Longrightarrow> P (get_or_nil m k)"
  by (auto split: option.splits dest!: map_of_SomeD)

lemma weight_card:
  fixes D :: "'v \<Rightarrow> 'a set" and xs :: "('k \<times> 'v) list"
  assumes "distinct (map fst xs)" "\<forall>x\<in>set xs. finite (D (snd x)) \<and> w (snd x) = card (D (snd x))"
  shows "finite {(k, y). \<exists>v. map_of xs k = Some v \<and> y \<in> D v} \<and>
    weight_of w xs = card {(k, y). \<exists>v. map_of xs k = Some v \<and> y \<in> D v}"
  using assms
proof (induction xs)
  case (Cons x xs)
  let ?S = "\<lambda>xs. {(k, y). \<exists>v. map_of xs k = Some v \<and> y \<in> D v}"
  obtain k v where x: "x = (k, v)" by (cases x)
  have none: "map_of xs k = None" using Cons.prems x by (simp add: map_of_eq_None_iff)
  have split: "?S (x # xs) = Pair k ` D v \<union> ?S xs" using none by (auto simp: x split: if_splits)
  have disj: "Pair k ` D v \<inter> ?S xs = {}" using none by auto
  have fin: "finite (D v)" "w v = card (D v)" and IH: "finite (?S xs)" "weight_of w xs = card (?S xs)"
    using Cons x by simp_all
  have "card (Pair k ` D v) = card (D v)" by (simp add: card_image inj_on_def)
  then show ?case
    unfolding split using fin IH disj by (simp add: card_Un_disjoint x)
qed simp

lemma interest_count:
  assumes "interest_ok i"
  shows "finite (dom (interest_abs i)) \<and> i_total i = card (dom (interest_abs i))"
proof -
  let ?K = "\<lambda>keys :: lease_keys. {(uk, n). \<exists>subs. map_of keys uk = Some subs \<and> n \<in> dom (map_of subs)}"
  let ?P = "\<lambda>m :: interest_map. {(p, x). \<exists>keys. map_of m p = Some keys \<and> x \<in> ?K keys}"
  have lv: "finite (dom (map_of subs)) \<and> weight_of (\<lambda>_. 1) subs = card (dom (map_of subs))"
    if "leases_ok subs" for subs :: leases
    using distinct_card [OF that] by (simp add: sum_list_triv dom_map_of_conv_image_fst finite_dom_map_of)
  have "finite (?K keys) \<and> weight_of (weight_of (\<lambda>_. 1)) keys = card (?K keys)" if "keys_ok keys" for keys
    using that lv by (intro weight_card) (simp_all add: keys_ok_def)
  then have "finite (?P (i_map i)) \<and> leaves (i_map i) = card (?P (i_map i))"
    unfolding leaves_def using assms by (intro weight_card) (simp_all add: interest_ok_def)
  moreover have "dom (interest_abs i) = ?P (i_map i)"
    by (auto simp: interest_abs_def interest_subs_def split: Option.bind_splits)
  ultimately show ?thesis using assms by (simp add: interest_ok_def)
qed

lemma retain_table:
  fixes f g keep i
  assumes cr: "counted_retain f g keep (weight_of (\<lambda>_. 1)) leases_ok" and ok: "interest_ok i"
  defines "i' \<equiv> (let (m, t) = retain_mut (retain_nonempty f) (i_map i) (i_total i) in i\<lparr>i_map := m, i_total := t\<rparr>)"
  shows "interest_ok i'"
    "interest_subs i' p uk = Option.bind (interest_subs i p uk) (\<lambda>s. if keep s then Some (g s) else None)"
proof -
  let ?G = "retained g keep :: lease_keys \<Rightarrow> lease_keys"
  let ?m = "retained ?G (\<lambda>m. ?G m \<noteq> []) (i_map i)"
  let ?W = "weight_of (weight_of (weight_of (\<lambda>_ :: instant. 1)))"
  have keys: "counted_retain (retain_nonempty f) ?G (\<lambda>m. ?G m \<noteq> []) (weight_of (weight_of (\<lambda>_. 1))) keys_ok"
    unfolding keys_ok_def [abs_def] by (rule counted_retain.nested [OF cr])
  have pre: "\<forall>x\<in>set (i_map i). keys_ok (snd x)" "distinct (map fst (i_map i))"
    "i_total i = ?W (i_map i)" "i_total i \<le> i_max i"
    using ok by (simp_all add: interest_ok_def leaves_def)
  have le: "?W ?m \<le> ?W (i_map i)" using counted_retain.weight_retained_le [OF keys pre(1)] .
  have "retain_mut (retain_nonempty f) (i_map i) (i_total i) = (?m, i_total i - (?W (i_map i) - ?W ?m))"
    using counted_retain.retain_mut_eq [OF keys pre(1)] pre(3) by simp
  then have i': "i' = i\<lparr>i_map := ?m, i_total := ?W ?m\<rparr>"
    using le pre(3) by (simp add: i'_def)
  have "\<forall>x\<in>set ?m. keys_ok (snd x)"
    using counted_retain.ok_g [OF keys] pre(1) by (auto simp: retained_def)
  then show "interest_ok i'"
    using pre le distinct_retained by (simp add: i' interest_ok_def leaves_def)
  have inner: "map_of (?G keys) uk = Option.bind (map_of keys uk) (\<lambda>s. if keep s then Some (g s) else None)"
    if "map_of (i_map i) p = Some keys" for keys
    using pre(1) map_of_SomeD [OF that] by (intro map_of_retained) (force simp: keys_ok_def)
  show "interest_subs i' p uk = Option.bind (interest_subs i p uk) (\<lambda>s. if keep s then Some (g s) else None)"
  proof (cases "map_of (i_map i) p")
    case (Some keys)
    from inner [OF this] show ?thesis
      using pre(2) Some by (cases "?G keys = []") (simp_all add: i' interest_subs_def map_of_retained)
  qed (use pre(2) in \<open>simp add: i' interest_subs_def map_of_retained\<close>)
qed

lemma remove_peer_ok:
  assumes "interest_ok i"
  shows "interest_ok (interest_remove_peer node i)"
    "interest_abs (interest_remove_peer node i) = (\<lambda>(p, userkey, n). if n = node then None else interest_abs i (p, userkey, n))"
proof -
  note table = retain_table [OF drop_peer.counted_retain_axioms assms, folded interest_remove_peer_def]
  show "interest_ok (interest_remove_peer node i)" by (rule table(1))
  have del: "Option.bind (if AList.delete node s \<noteq> [] then Some (AList.delete node s) else None) (\<lambda>s. map_of s n) =
      (if n = node then None else map_of s n)" for s :: leases and n
    using fun_cong [OF delete_conv' [of node s], of n] by auto
  show "interest_abs (interest_remove_peer node i) = (\<lambda>(p, userkey, n). if n = node then None else interest_abs i (p, userkey, n))"
  proof (rule ext, clarify)
    fix p uk n
    show "interest_abs (interest_remove_peer node i) (p, uk, n) = (if n = node then None else interest_abs i (p, uk, n))"
      using del by (cases "interest_subs i p uk") (simp_all add: interest_abs_def table(2))
  qed
qed

lemma gc_ok:
  assumes "interest_ok i"
  shows "interest_ok (interest_gc now i)"
    "interest_abs (interest_gc now i) = (\<lambda>x. Option.bind (interest_abs i x) (\<lambda>ex. if now < ex then Some ex else None))"
proof -
  let ?g = "retained (\<lambda>ex. ex) (\<lambda>ex. now < ex) :: leases \<Rightarrow> leases"
  have leases: "counted_retain (retain_nonempty (gc_lease now)) ?g (\<lambda>s. ?g s \<noteq> []) (weight_of (\<lambda>_. 1)) leases_ok"
    using gc_exp.nested [of now, where 'a = node_id] by simp
  note table = retain_table [OF leases assms, folded interest_gc_def]
  show "interest_ok (interest_gc now i)" by (rule table(1))
  show "interest_abs (interest_gc now i) = (\<lambda>x. Option.bind (interest_abs i x) (\<lambda>ex. if now < ex then Some ex else None))"
  proof (rule ext)
    fix x :: "pid \<times> bytes \<times> node_id"
    obtain p uk n where x: "x = (p, uk, n)" by (cases x)
    show "interest_abs (interest_gc now i) x = Option.bind (interest_abs i x) (\<lambda>ex. if now < ex then Some ex else None)"
    proof (cases "interest_subs i p uk")
      case (Some s)
      then have "leases_ok s"
        using assms by (force simp: interest_ok_def keys_ok_def interest_subs_def split: Option.bind_splits dest!: map_of_SomeD)
      then have "map_of (?g s) n = Option.bind (map_of s n) (\<lambda>ex. if now < ex then Some ex else None)"
        by (rule map_of_retained)
      with Some show ?thesis by (cases "?g s = []") (simp_all add: interest_abs_def table(2) x)
    qed (simp add: interest_abs_def table(2) x)
  qed
qed

lemma register_ok:
  fixes p userkey node ex i
  assumes "interest_ok i"
  defines "r \<equiv> interest_register p userkey node ex i"
  shows "interest_ok (fst r)"
    "interest_abs (fst r) = (if snd r then (interest_abs i)((p, userkey, node) \<mapsto> ex) else interest_abs i)"
    "snd r \<longleftrightarrow> interest_abs i (p, userkey, node) \<noteq> None \<or> i_total i < i_max i"
proof -
  let ?m = "i_map i" and ?nw = "\<lambda>s. map_of s node"
  let ?keys = "get_or_nil ?m p"
  let ?subs = "get_or_nil ?keys userkey"
  let ?put = "or_default p (or_default userkey (AList.update node ex)) ?m"
  have pre: "\<forall>x\<in>set ?m. keys_ok (snd x)" "distinct (map fst ?m)" using assms(1) by (simp_all add: interest_ok_def)
  have keys: "keys_ok ?keys" using get_or_nil_ok [OF pre(1)] by (simp add: keys_ok_def)
  have subs: "leases_ok ?subs" using keys get_or_nil_ok [of ?keys leases_ok] by (simp add: keys_ok_def)
  have "keys_ok (or_default userkey (AList.update node ex) ?keys)"
    using keys subs or_default_ok [of ?keys leases_ok "AList.update node ex" userkey]
    by (simp add: keys_ok_def distinct_update)
  then have ok: "distinct (map fst ?put) \<and> (\<forall>x\<in>set ?put. keys_ok (snd x))"
    using pre by (intro or_default_ok)
  have old: "interest_abs i (p, userkey, node) = map_of ?subs node"
    by (auto simp: interest_abs_def interest_subs_def split: option.splits)
  have new: "interest_abs (i\<lparr>i_map := ?put, i_total := n\<rparr>) = (interest_abs i)((p, userkey, node) \<mapsto> ex)" for n
  proof (rule ext, clarify)
    fix p' uk' n'
    show "interest_abs (i\<lparr>i_map := ?put, i_total := n\<rparr>) (p', uk', n') = ((interest_abs i)((p, userkey, node) \<mapsto> ex)) (p', uk', n')"
      by (cases "map_of ?m p"; cases "map_of ?keys userkey")
        (auto simp: interest_abs_def interest_subs_def map_of_or_default update_conv')
  qed
  have count: "leaves ?put + (if map_of ?subs node = None then 0 else 1) = leaves ?m + 1"
  proof -
    define w where "w = weight_of (\<lambda>_ :: instant. 1 :: nat) \<circ> (\<lambda>s :: leases. s)"
    have "w (AList.update node ex ?subs) + (if map_of ?subs node = None then 0 else 1) = w ?subs + 1"
      using weight_update [OF subs, of "\<lambda>_. 1" node ex] by (cases "map_of ?subs node") (simp_all only: w_def o_def option.case refl if_True simp_thms if_False option.distinct)
    moreover have "weight_of w (or_default userkey (AList.update node ex) ?keys) + w ?subs =
        weight_of w ?keys + w (AList.update node ex ?subs)"
      using keys by (intro weight_or_default) (simp_all add: w_def keys_ok_def)
    moreover have "weight_of (weight_of w) ?put + weight_of w ?keys =
        weight_of (weight_of w) ?m + weight_of w (or_default userkey (AList.update node ex) ?keys)"
      using pre(2) by (intro weight_or_default) simp_all
    moreover have "leaves m = weight_of (weight_of w) m" for m by (simp add: leaves_def w_def)
    ultimately show ?thesis by simp
  qed
  have r: "r = (case map_of ?subs node of
        Some _ \<Rightarrow> (i\<lparr>i_map := ?put, i_total := i_total i\<rparr>, True)
      | None \<Rightarrow> if i_max i \<le> i_total i then (i, False) else (i\<lparr>i_map := ?put, i_total := i_total i + 1\<rparr>, True))"
    using old by (auto simp: r_def interest_register_def Let_def interest_abs_def split: option.splits)
  have total: "i_total i = leaves ?m" "i_total i \<le> i_max i" using assms(1) by (simp_all add: interest_ok_def)
  show "interest_ok (fst r)" using ok count total assms(1)
    by (cases "map_of ?subs node") (simp_all add: r interest_ok_def)
  show "interest_abs (fst r) = (if snd r then (interest_abs i)((p, userkey, node) \<mapsto> ex) else interest_abs i)"
    by (cases "map_of ?subs node") (use new [of "i_total i"] new in \<open>simp_all add: r\<close>)
  show "snd r \<longleftrightarrow> interest_abs i (p, userkey, node) \<noteq> None \<or> i_total i < i_max i"
    by (cases "map_of ?subs node") (auto simp: r old)
qed

inductive interest_reachable :: "nat \<Rightarrow> interest \<Rightarrow> bool" for mx where
  new: "interest_reachable mx (interest_new mx)"
| register: "interest_reachable mx i \<Longrightarrow> interest_reachable mx (fst (interest_register p userkey node ex i))"
| remove_peer: "interest_reachable mx i \<Longrightarrow> interest_reachable mx (interest_remove_peer node i)"
| gc: "interest_reachable mx i \<Longrightarrow> interest_reachable mx (interest_gc now i)"

text \<open>C18: The interest table implements a bounded map from (partition, key, peer) to leases, and its running total
never drifts: in every reachable table the total is the number of leases and is at most the cap. A registration
is refused exactly when the lease is new and the table is full, and otherwise sets that one lease; a lost peer
loses exactly its leases; garbage collection removes exactly the expired ones.\<close>

theorem interest_refines:
  assumes "interest_reachable mx i"
  shows "finite (dom (interest_abs i)) \<and> i_total i = card (dom (interest_abs i)) \<and> i_total i \<le> mx \<and>
    (let (i', accepted) = interest_register p userkey node ex i
     in accepted = (interest_abs i (p, userkey, node) \<noteq> None \<or> card (dom (interest_abs i)) < mx) \<and>
        interest_abs i' = (if accepted then (interest_abs i)((p, userkey, node) \<mapsto> ex) else interest_abs i)) \<and>
    interest_abs (interest_remove_peer node i) =
      (\<lambda>(p, userkey, n). if n = node then None else interest_abs i (p, userkey, n)) \<and>
    interest_abs (interest_gc now i) =
      (\<lambda>x. Option.bind (interest_abs i x) (\<lambda>ex. if now < ex then Some ex else None))"
proof -
  have reach: "interest_ok i \<and> i_max i = mx"
    using assms
  proof induction
    case (register i p userkey node ex)
    then show ?case using register_ok(1) by (simp add: interest_register_def Let_def split: option.splits)
  next
    case (remove_peer i node)
    then show ?case using remove_peer_ok(1) by (simp add: interest_remove_peer_def split_beta)
  next
    case (gc i now)
    then show ?case using gc_ok(1) by (simp add: interest_gc_def split_beta)
  qed (simp add: interest_new_def interest_ok_def leaves_def)
  then have ok: "interest_ok i" by blast
  have le: "i_total i \<le> mx" using reach by (simp add: interest_ok_def)
  note count = interest_count [OF ok]
  have reg: "let (i', accepted) = interest_register p userkey node ex i
     in accepted = (interest_abs i (p, userkey, node) \<noteq> None \<or> card (dom (interest_abs i)) < mx) \<and>
        interest_abs i' = (if accepted then (interest_abs i)((p, userkey, node) \<mapsto> ex) else interest_abs i)"
    using register_ok(2,3) [OF ok, of p userkey node ex] count reach by (simp add: split_beta)
  show ?thesis using count le reg remove_peer_ok(2) [OF ok] gc_ok(2) [OF ok] by blast
qed

theorem interest_refines_witness:
  "interest_reachable 1 (fst (interest_register 7 [1] 2 60 (interest_new 1))) \<and>
   \<not> snd (interest_register 7 [1] 3 60 (fst (interest_register 7 [1] 2 60 (interest_new 1))))"
proof -
  let ?i = "fst (interest_register 7 [1] 2 60 (interest_new 1))"
  have reach: "interest_reachable 1 ?i" by (intro interest_reachable.intros)
  have "?i = \<lparr>i_map = [(7, [([1], [(2, 60)])])], i_total = 1, i_max = 1\<rparr>" by code_simp
  then have "interest_abs ?i (7, [1], 3) = None" by (simp add: interest_abs_def interest_subs_def)
  moreover have "card (dom (interest_abs ?i)) = 1"
    using interest_refines [OF reach] \<open>?i = _\<close> by simp
  ultimately show ?thesis using reach interest_refines [OF reach, of 7 "[1]" 3 60 0] by (simp add: split_beta)
qed

end
