(* ===== verification/Lane.thy ===== *)
theory Lane
  imports Ring Placement Interest
begin

text \<open>
  \<open>marekvs-repl/src/lib.rs\<close>, the replication lane to one peer: the per-peer flow state with its window of
  unacknowledged bytes, the pump that drains the ring under the fan-out rule, the receiver's handling of a
  batch, acknowledgements and resumption after a reconnect. The last section puts them together as a step
  relation in which pushes, pump passes, messages, connection losses and reconnects interleave.
\<close>

section \<open>Flow state\<close>

definition BATCH_MAX_OPS :: nat where "BATCH_MAX_OPS = 256"
definition BATCH_MAX_BYTES :: nat where "BATCH_MAX_BYTES = 1024 * 1024"
definition STALL_WARN :: nat where "STALL_WARN = 5000"

record peer_flow =
  pf_sent :: u64
  pf_acked :: u64
  pf_inflight :: "(u64 \<times> nat) list"
  pf_inflight_bytes :: nat
  pf_stalled_since :: "instant option"
  pf_stall_warned :: bool

definition flow_at :: "u64 \<Rightarrow> peer_flow" where
  "flow_at seq = \<lparr>pf_sent = seq, pf_acked = seq, pf_inflight = [], pf_inflight_bytes = 0,
                 pf_stalled_since = None, pf_stall_warned = False\<rparr>"

definition window_full :: "nat \<Rightarrow> peer_flow \<Rightarrow> bool" where
  "window_full window f = (pf_inflight_bytes f \<ge> window)"

definition on_send :: "u64 \<Rightarrow> nat \<Rightarrow> peer_flow \<Rightarrow> peer_flow" where
  "on_send seq bytes f =
     f\<lparr>pf_sent := seq, pf_inflight := pf_inflight f @ [(seq, bytes)],
       pf_inflight_bytes := pf_inflight_bytes f + bytes\<rparr>"

text \<open>The loop of \<open>on_ack\<close> over the batches in flight.\<close>

fun pop_acked :: "u64 \<Rightarrow> (u64 \<times> nat) list \<Rightarrow> nat \<Rightarrow> (u64 \<times> nat) list \<times> nat" where
  "pop_acked acked [] bytes = ([], bytes)"
| "pop_acked acked ((s, b) # rest) bytes =
     (if s \<le> acked then pop_acked acked rest (bytes - b) else ((s, b) # rest, bytes))"

definition on_ack :: "u64 \<Rightarrow> peer_flow \<Rightarrow> peer_flow" where
  "on_ack seq f =
     (let seq = min seq (pf_sent f);
          acked = (if seq > pf_acked f then seq else pf_acked f);
          (inflight, bytes) = pop_acked acked (pf_inflight f) (pf_inflight_bytes f)
      in f\<lparr>pf_acked := acked, pf_inflight := inflight, pf_inflight_bytes := bytes,
           pf_stalled_since := None, pf_stall_warned := False\<rparr>)"

definition clear_inflight :: "peer_flow \<Rightarrow> peer_flow" where
  "clear_inflight f =
     f\<lparr>pf_inflight := [], pf_inflight_bytes := 0, pf_stalled_since := None, pf_stall_warned := False\<rparr>"

section \<open>The pump\<close>

text \<open>What the pump reads besides the ring: the node, the placement view with its parameters, the interest
table and the time.\<close>

record pump_env =
  pe_self :: node_id
  pe_xxh3 :: "bytes \<Rightarrow> u64"
  pe_zone_spread :: bool
  pe_view :: view
  pe_n :: nat
  pe_interest :: interest
  pe_now :: instant

text \<open>What happens to an entry: passed over, held back with everything behind it, sent, or a panic of an
out-of-range table lookup.\<close>

datatype route = Skip | Defer | Send | Panic

definition route_entry :: "pump_env \<Rightarrow> node_id \<Rightarrow> ring_entry \<Rightarrow> route" where
  "route_entry env peer e =
     (case ikey_parse (op_ikey (re_op e)) of
        None \<Rightarrow> Skip
      | Some p \<Rightarrow>
          (case view_owners (pe_xxh3 env) (pe_zone_spread env) (pe_view env) (pk_pid p) (pe_n env) of
             None \<Rightarrow> Panic
           | Some owners \<Rightarrow>
               if owners = [] \<or> length owners = 1 \<and> owners ! 0 = pe_self env
               then if \<exists>m\<in>set (v_members (pe_view env)). m_node m \<noteq> pe_self env then Defer else Skip
               else case view_h1 (pe_xxh3 env) (pe_zone_spread env) (pe_view env) (pk_pid p) (pe_n env) of
                      None \<Rightarrow> Panic
                    | Some h1 \<Rightarrow>
                        let is_h1 = (h1 = Some (pe_self env));
                            home = (re_origin e = pe_self env \<and> peer \<in> set owners \<and> peer \<noteq> pe_self env);
                            leased = (case interest_subs (pe_interest env) (pk_pid p) (pk_userkey p) of
                                        Some subs \<Rightarrow> (case map_of subs peer of Some ex \<Rightarrow> ex > pe_now env | None \<Rightarrow> False)
                                      | None \<Rightarrow> False)
                        in if home \<or> is_h1 \<and> re_origin e \<noteq> peer \<and> peer \<notin> set owners \<and> leased
                           then Send else Skip))"

text \<open>The walk over the entries read: the operations to send, the new cursor and the bytes.\<close>

fun pump_walk ::
    "(ring_entry \<Rightarrow> route) \<Rightarrow> ring_entry list \<Rightarrow> repl_op list \<Rightarrow> u64 \<Rightarrow> nat \<Rightarrow> (repl_op list \<times> u64 \<times> nat) option" where
  "pump_walk rt [] ops cursor bytes = Some (ops, cursor, bytes)"
| "pump_walk rt (e # es) ops cursor bytes =
     (case rt e of
        Panic \<Rightarrow> None
      | Defer \<Rightarrow> Some (ops, cursor, bytes)
      | Skip \<Rightarrow> pump_walk rt es ops (re_seq e) bytes
      | Send \<Rightarrow>
          let bytes' = bytes + length (op_ikey (re_op e)) + length (op_value (re_op e));
              ops' = ops @ [re_op e]
          in if bytes' \<ge> BATCH_MAX_BYTES then Some (ops', re_seq e, bytes')
             else pump_walk rt es ops' (re_seq e) bytes')"

record pump_plan =
  pl_cursor :: u64
  pl_first_seq :: u64
  pl_ops :: "repl_op list"
  pl_new_cursor :: u64
  pl_bytes :: nat

text \<open>The window gate and the cursor, under the first lock.\<close>

definition pump_gate :: "nat \<Rightarrow> instant \<Rightarrow> u64 \<Rightarrow> peer_flow option \<Rightarrow> peer_flow \<times> u64 option" where
  "pump_gate window now lst flow =
     (let f = (case flow of Some f \<Rightarrow> f | None \<Rightarrow> flow_at lst)
      in if window_full window f
         then (case pf_stalled_since f of
                 None \<Rightarrow> f\<lparr>pf_stalled_since := Some now\<rparr>
               | Some t \<Rightarrow> if \<not> pf_stall_warned f \<and> now - t \<ge> STALL_WARN then f\<lparr>pf_stall_warned := True\<rparr> else f,
               None)
         else (f, if pf_sent f \<ge> lst then None else Some (pf_sent f)))"

text \<open>Reading the ring and walking the entries; \<open>None\<close> is a panic, \<open>Some None\<close> an empty read.\<close>

definition pump_read :: "(ring_entry \<Rightarrow> route) \<Rightarrow> u64 \<Rightarrow> ring \<Rightarrow> pump_plan option option" where
  "pump_read rt cursor r =
     (case fst (read_after cursor BATCH_MAX_OPS r) of
        [] \<Rightarrow> Some None
      | e # es \<Rightarrow>
          (case pump_walk rt (e # es) [] cursor 0 of
             None \<Rightarrow> None
           | Some (ops, new_cursor, bytes) \<Rightarrow>
               Some (Some \<lparr>pl_cursor = cursor, pl_first_seq = re_seq e, pl_ops = ops,
                           pl_new_cursor = new_cursor, pl_bytes = bytes\<rparr>)))"

record repl_batch =
  rb_origin :: node_id
  rb_first_seq :: u64
  rb_last_seq :: u64
  rb_ops :: "repl_op list"
  rb_implicit_sub :: bool

definition plan_batch :: "node_id \<Rightarrow> pump_plan \<Rightarrow> repl_batch" where
  "plan_batch self pl = \<lparr>rb_origin = self, rb_first_seq = pl_first_seq pl, rb_last_seq = pl_new_cursor pl,
                        rb_ops = pl_ops pl, rb_implicit_sub = False\<rparr>"

text \<open>The second lock: advance the cursor unless a resumption moved it meanwhile.\<close>

definition pump_commit :: "pump_plan \<Rightarrow> bool \<Rightarrow> peer_flow option \<Rightarrow> peer_flow option" where
  "pump_commit pl sent_ok =
     map_option (\<lambda>f.
       if pl_ops pl = [] then (if pf_sent f = pl_cursor pl then f\<lparr>pf_sent := pl_new_cursor pl\<rparr> else f)
       else if sent_ok then (if pf_sent f = pl_cursor pl then on_send (pl_new_cursor pl) (pl_bytes pl) f else f)
       else f)"

text \<open>One pass for one peer when nothing interleaves: the flow state afterwards and the batch, if one was sent.\<close>

definition pump_peer ::
    "node_id \<Rightarrow> (ring_entry \<Rightarrow> route) \<Rightarrow> nat \<Rightarrow> instant \<Rightarrow> bool \<Rightarrow> ring \<Rightarrow> peer_flow option
      \<Rightarrow> (peer_flow option \<times> repl_batch option) option" where
  "pump_peer self rt window now sent_ok r flow =
     (case pump_gate window now (last_seq r) flow of
        (f, None) \<Rightarrow> Some (Some f, None)
      | (f, Some cursor) \<Rightarrow>
          (case pump_read rt cursor r of
             None \<Rightarrow> None
           | Some None \<Rightarrow> Some (Some f, None)
           | Some (Some pl) \<Rightarrow>
               Some (pump_commit pl sent_ok (Some f),
                     if pl_ops pl \<noteq> [] \<and> sent_ok then Some (plan_batch self pl) else None)))"

text \<open>\<open>pending_backlog\<close> over the flows of the connected peers.\<close>

definition flow_backlog :: "u64 \<Rightarrow> peer_flow option \<Rightarrow> nat" where
  "flow_backlog lst flow =
     (case flow of
        Some f \<Rightarrow> (unat lst - unat (pf_sent f)) + (if pf_inflight f \<noteq> [] then 1 else 0)
      | None \<Rightarrow> 0)"

definition pending_backlog :: "ring \<Rightarrow> peer_flow option list \<Rightarrow> nat" where
  "pending_backlog r flows = foldr max (map (flow_backlog (last_seq r)) flows) 0"

section \<open>The lane as a state machine\<close>

datatype lane_msg = AckSeq u64 | ResumeFrom u64

text \<open>
  Sender (ring, flow, the plan of a pump pass and the outcome of its send, connection losses its event task has
  yet to handle), connection (whether it is up, the messages of both directions that are queued, on the wire or
  waiting for their handler), receiver (the persisted sequence number, what it applied, connects its event task
  has yet to handle, the number that task read and has yet to send). The steps are the sections the code runs
  without giving way: the two locks of a pump pass and the send between them are three steps, the handlers run
  after the fact, and messages that arrived before a connection was lost are handled after it. A connection that
  is replaced while still registered is a loss followed by a connect.

  \<open>ln_log\<close> is the history of the ring; \<open>ln_delivered\<close> the operations the receiver applied. Four observers do not
  influence the steps: \<open>ln_resumed\<close> (a resume message was handled since the connection was last lost and the flow
  it set up still exists), \<open>ln_current\<close> (the pump pass in progress began in such a state and no connection was
  lost since), \<open>ln_gapped\<close> (a pump pass reported a ring gap) and \<open>ln_raced\<close> (a pump pass that was not current sent
  a batch or advanced the cursor over one).
\<close>

record lane =
  ln_ring :: ring
  ln_log :: "ring_entry list"
  ln_flow :: "peer_flow option"
  ln_plan :: "pump_plan option"
  ln_sent :: "bool option"
  ln_lost :: nat
  ln_conn :: bool
  ln_to_peer :: "repl_batch list"
  ln_from_peer :: "lane_msg list"
  ln_up :: nat
  ln_resume :: "u64 option"
  ln_applied :: u64
  ln_delivered :: "repl_op set"
  ln_resumed :: bool
  ln_current :: bool
  ln_gapped :: bool
  ln_raced :: bool

text \<open>A lane whose receiver has persisted \<open>q\<close> for this sender: 0 for a sender it does not know, a number of an
earlier life of the sender otherwise.\<close>

definition lane_init :: "u64 \<Rightarrow> u64 \<Rightarrow> lane" where
  "lane_init first_seq q =
     \<lparr>ln_ring = new_starting_at first_seq, ln_log = [], ln_flow = None, ln_plan = None, ln_sent = None, ln_lost = 0,
      ln_conn = False, ln_to_peer = [], ln_from_peer = [], ln_up = 0, ln_resume = None, ln_applied = q,
      ln_delivered = {}, ln_resumed = False, ln_current = False, ln_gapped = False, ln_raced = False\<rparr>"

text \<open>The receiver's \<open>Repl\<close> handler: apply, persist the covered sequence number, acknowledge it. The
acknowledgement is dropped when there is no connection or its queue is full.\<close>

definition receive_batch :: "bool \<Rightarrow> repl_batch \<Rightarrow> lane \<Rightarrow> lane" where
  "receive_batch ok b s =
     s\<lparr>ln_delivered := ln_delivered s \<union> set (rb_ops b), ln_applied := rb_last_seq b,
       ln_from_peer := (if ok \<and> ln_conn s then ln_from_peer s @ [AckSeq (rb_last_seq b)] else ln_from_peer s)\<rparr>"

text \<open>The sender's handlers of \<open>AckSeq\<close> and \<open>ResumeFrom\<close>.\<close>

fun receive_msg :: "lane_msg \<Rightarrow> lane \<Rightarrow> lane" where
  "receive_msg (AckSeq q) s = s\<lparr>ln_flow := map_option (on_ack q) (ln_flow s)\<rparr>"
| "receive_msg (ResumeFrom q) s = s\<lparr>ln_flow := Some (flow_at q), ln_resumed := True\<rparr>"

text \<open>A connection comes up: both sides register it and queue an event for their event task.\<close>

definition lane_connect :: "lane \<Rightarrow> lane" where
  "lane_connect s = s\<lparr>ln_conn := True, ln_up := ln_up s + 1\<rparr>"

text \<open>A connection is lost: of the messages that were under way, the first \<open>i\<close> and \<open>j\<close> had arrived and will be
handled; the rest is gone.\<close>

definition lane_disconnect :: "nat \<Rightarrow> nat \<Rightarrow> lane \<Rightarrow> lane" where
  "lane_disconnect i j s =
     s\<lparr>ln_conn := False, ln_to_peer := take i (ln_to_peer s), ln_from_peer := take j (ln_from_peer s),
       ln_lost := ln_lost s + 1, ln_resumed := False, ln_current := False\<rparr>"

text \<open>The event task: the receiver answers a connect with a resume message, in two steps because it waits for the
store in between; the sender clears what was in flight on a lost connection.\<close>

definition resume_read :: "lane \<Rightarrow> lane" where
  "resume_read s = s\<lparr>ln_up := ln_up s - 1, ln_resume := Some (ln_applied s)\<rparr>"

definition resume_send :: "bool \<Rightarrow> u64 \<Rightarrow> lane \<Rightarrow> lane" where
  "resume_send ok q s =
     s\<lparr>ln_resume := None,
       ln_from_peer := (if ok \<and> ln_conn s then ln_from_peer s @ [ResumeFrom q] else ln_from_peer s)\<rparr>"

definition lane_notice :: "lane \<Rightarrow> lane" where
  "lane_notice s = s\<lparr>ln_lost := ln_lost s - 1, ln_flow := map_option clear_inflight (ln_flow s)\<rparr>"

text \<open>Between the locks of a pump pass: the batch is handed to the connection, or not.\<close>

definition lane_send :: "node_id \<Rightarrow> bool \<Rightarrow> pump_plan \<Rightarrow> lane \<Rightarrow> lane" where
  "lane_send self ok pl s =
     s\<lparr>ln_sent := Some ok, ln_to_peer := (if ok then ln_to_peer s @ [plan_batch self pl] else ln_to_peer s),
       ln_raced := (ln_raced s \<or> ok \<and> \<not> ln_current s)\<rparr>"

definition lane_commit :: "bool \<Rightarrow> pump_plan \<Rightarrow> lane \<Rightarrow> lane" where
  "lane_commit ok pl s =
     s\<lparr>ln_plan := None, ln_sent := None, ln_flow := pump_commit pl ok (ln_flow s),
       ln_raced := (ln_raced s \<or> ok \<and> \<not> ln_current s)\<rparr>"

inductive lane_step :: "node_id \<Rightarrow> (ring_entry \<Rightarrow> bool) \<Rightarrow> lane \<Rightarrow> lane \<Rightarrow> bool" for self wanted where
  push: "unat (next_local_seq (ln_ring s)) + length ops < 2 ^ 64 \<Longrightarrow>
    lane_step self wanted s
      (s\<lparr>ln_ring := ring_push origin ops (ln_ring s),
         ln_log := ln_log s @ stamp origin (next_local_seq (ln_ring s)) ops\<rparr>)"
| stall: "ln_conn s \<Longrightarrow> ln_plan s = None \<Longrightarrow>
    pump_gate window now (last_seq (ln_ring s)) (ln_flow s) = (f, None) \<Longrightarrow>
    lane_step self wanted s (s\<lparr>ln_flow := Some f\<rparr>)"
| read: "ln_conn s \<Longrightarrow> ln_plan s = None \<Longrightarrow>
    pump_gate window now (last_seq (ln_ring s)) (ln_flow s) = (f, Some cursor) \<Longrightarrow>
    \<forall>e. wanted e \<longrightarrow> rt e = Send \<or> rt e = Defer \<Longrightarrow>
    pump_read rt cursor (ln_ring s) = Some (Some pl) \<Longrightarrow>
    lane_step self wanted s
      (s\<lparr>ln_flow := Some f, ln_plan := Some pl, ln_sent := None, ln_current := ln_resumed s,
         ln_gapped := (ln_gapped s \<or> snd (read_after cursor BATCH_MAX_OPS (ln_ring s)))\<rparr>)"
| send: "ln_plan s = Some pl \<Longrightarrow> pl_ops pl \<noteq> [] \<Longrightarrow> ln_sent s = None \<Longrightarrow> ok \<longrightarrow> ln_conn s \<Longrightarrow>
    lane_step self wanted s (lane_send self ok pl s)"
| commit: "ln_plan s = Some pl \<Longrightarrow> ln_sent s = Some ok \<Longrightarrow> lane_step self wanted s (lane_commit ok pl s)"
| skip: "ln_plan s = Some pl \<Longrightarrow> pl_ops pl = [] \<Longrightarrow> lane_step self wanted s (lane_commit False pl s)"
| deliver: "ln_to_peer s = b # bs \<Longrightarrow> lane_step self wanted s (receive_batch ok b (s\<lparr>ln_to_peer := bs\<rparr>))"
| msg: "ln_from_peer s = m # ms \<Longrightarrow> lane_step self wanted s (receive_msg m (s\<lparr>ln_from_peer := ms\<rparr>))"
| disconnect: "ln_conn s \<Longrightarrow> lane_step self wanted s (lane_disconnect i j s)"
| connect: "\<not> ln_conn s \<Longrightarrow> lane_step self wanted s (lane_connect s)"
| resume_read: "0 < ln_up s \<Longrightarrow> ln_resume s = None \<Longrightarrow> lane_step self wanted s (resume_read s)"
| resume_send: "ln_resume s = Some q \<Longrightarrow> lane_step self wanted s (resume_send ok q s)"
| notice: "0 < ln_lost s \<Longrightarrow> lane_step self wanted s (lane_notice s)"
| forget: "\<not> ln_conn s \<Longrightarrow> lane_step self wanted s (s\<lparr>ln_flow := None, ln_resumed := False\<rparr>)"

text \<open>The receiver starts with a number below the sender's first: a restarted sender jumps above every number it
handed out before.\<close>

inductive lane_reach :: "node_id \<Rightarrow> (ring_entry \<Rightarrow> bool) \<Rightarrow> u64 \<Rightarrow> lane \<Rightarrow> bool" for self wanted first_seq where
  init: "q < max first_seq 1 \<Longrightarrow> lane_reach self wanted first_seq (lane_init first_seq q)"
| step: "lane_reach self wanted first_seq s \<Longrightarrow> lane_step self wanted s s' \<Longrightarrow> lane_reach self wanted first_seq s'"

section \<open>The fan-out rule\<close>

text \<open>An operation this node accepted, on a partition the peer owns, is never passed over.\<close>

lemma home_entry_not_skipped:
  assumes "ikey_parse (op_ikey (re_op e)) = Some p" "re_origin e = pe_self env" "peer \<noteq> pe_self env"
    and "view_owners (pe_xxh3 env) (pe_zone_spread env) (pe_view env) (pk_pid p) (pe_n env) = Some owners"
    and "peer \<in> set owners \<or> owners = []" "view_contains (pe_view env) peer"
  shows "route_entry env peer e \<in> {Send, Defer, Panic}"
proof -
  have "\<exists>m\<in>set (v_members (pe_view env)). m_node m \<noteq> pe_self env"
    using assms(3,6) by (auto simp: view_contains_def)
  then show ?thesis
    using assms by (auto simp: route_entry_def Let_def split: option.splits)
qed

section \<open>The walk\<close>

text \<open>The walk takes a prefix of what was read: it sends exactly what routing sends there and stops at its end.\<close>

lemma pump_walk_prefix:
  assumes "pump_walk rt es ops c b = Some (ops', c', b')"
  obtains pre suf where "es = pre @ suf" "ops' = ops @ map re_op (filter (\<lambda>e. rt e = Send) pre)"
    "c' = (if pre = [] then c else re_seq (last pre))" "\<forall>e\<in>set pre. rt e = Send \<or> rt e = Skip"
    "pre = [] \<longrightarrow> es = [] \<or> rt (hd es) = Defer"
proof -
  have "\<exists>pre suf. es = pre @ suf \<and> ops' = ops @ map re_op (filter (\<lambda>e. rt e = Send) pre) \<and>
    c' = (if pre = [] then c else re_seq (last pre)) \<and> (\<forall>e\<in>set pre. rt e = Send \<or> rt e = Skip) \<and>
    (pre = [] \<longrightarrow> es = [] \<or> rt (hd es) = Defer)"
    using assms
  proof (induction rt es ops c b rule: pump_walk.induct)
    case (2 rt e es ops c b)
    let ?b = "b + length (op_ikey (re_op e)) + length (op_value (re_op e))"
    show ?case
    proof (cases "rt e")
      case Skip
      with 2(1) 2(3) obtain pre suf where "es = pre @ suf"
        "ops' = ops @ map re_op (filter (\<lambda>e. rt e = Send) pre)"
        "c' = (if pre = [] then re_seq e else re_seq (last pre))" "\<forall>e\<in>set pre. rt e = Send \<or> rt e = Skip" by auto
      with Skip show ?thesis by (intro exI [of _ "e # pre"] exI [of _ suf]) simp
    next
      case Send
      show ?thesis
      proof (cases "BATCH_MAX_BYTES \<le> ?b")
        case True
        with Send 2(3) show ?thesis by (intro exI [of _ "[e]"] exI [of _ es]) (simp add: Let_def)
      next
        case False
        with Send 2(2) [OF _ refl refl False] 2(3) obtain pre suf where "es = pre @ suf"
          "ops' = (ops @ [re_op e]) @ map re_op (filter (\<lambda>e. rt e = Send) pre)"
          "c' = (if pre = [] then re_seq e else re_seq (last pre))" "\<forall>e\<in>set pre. rt e = Send \<or> rt e = Skip"
          by (auto simp: Let_def)
        with Send show ?thesis by (intro exI [of _ "e # pre"] exI [of _ suf]) simp
      qed
    qed (use 2(3) in auto)
  qed simp
  then show thesis using that by blast
qed

end
