(* ===== verification/Lane_Properties.thy ===== *)
theory Lane_Properties
  imports Lane
begin

text \<open>
  What the replication lane guarantees: nothing between the receiver's persisted sequence number and the log
  is skipped while the pump waits for the resume message of a connection (and what happens when it does not
  wait), and an undisturbed lane drains.
\<close>

section \<open>What a stretch of the stream covers\<close>

definition covers :: "ring_entry list \<Rightarrow> (ring_entry \<Rightarrow> bool) \<Rightarrow> u64 \<Rightarrow> u64 \<Rightarrow> repl_op list \<Rightarrow> bool" where
  "covers log wanted lo hi ops \<longleftrightarrow>
     lo \<le> hi \<and> (\<forall>e\<in>set log. wanted e \<and> lo < re_seq e \<and> re_seq e \<le> hi \<longrightarrow> re_op e \<in> set ops)"

lemma covers_refl: "covers log wanted a a ops"
  by (auto simp: covers_def)

lemma covers_push: "covers log wanted lo hi ops \<Longrightarrow> \<forall>e\<in>set new. hi < re_seq e \<Longrightarrow> covers (log @ new) wanted lo hi ops"
  by (auto simp: covers_def)

section \<open>A pump pass covers what it passes\<close>

lemma log_sorted:
  assumes "ring_inv first log r"
  shows "sorted_wrt (\<lambda>a b. re_seq a < re_seq b) log"
  using assms by (auto simp: ring_inv_def sorted_wrt_iff_nth_less word_less_nat_alt)

lemma log_below_next:
  assumes "ring_inv first log r" "e \<in> set log"
  shows "re_seq e < next_local_seq r"
  using assms by (auto simp: ring_inv_def in_set_conv_nth word_less_nat_alt)

lemma prefix_by_seq:
  assumes "sorted_wrt (\<lambda>a b. re_seq a < re_seq b) (pre @ suf)" "e \<in> set (pre @ suf)" "pre \<noteq> []"
    "re_seq e \<le> re_seq (last pre)"
  shows "e \<in> set pre"
proof (rule ccontr)
  assume "e \<notin> set pre"
  with assms(2) have "e \<in> set suf" by simp
  with assms(1,3) have "re_seq (last pre) < re_seq e" by (simp add: sorted_wrt_append)
  with assms(4) show False by simp
qed

lemma read_after_full:
  assumes inv: "ring_inv first log r" and bound: "unat cursor + 1 < 2 ^ 64" and gap: "\<not> snd (read_after cursor mx r)"
  shows "fst (read_after cursor mx r) = take mx (filter (\<lambda>e. re_seq e > cursor) log)"
proof -
  have seqs: "\<forall>i<length log. unat (re_seq (log ! i)) = unat first + i" using inv by (simp add: ring_inv_def)
  show ?thesis
    using gap filter_after [OF seqs, of cursor] by (simp add: read_after_log [OF inv bound] max_def)
qed

lemma pump_read_covers:
  assumes inv: "ring_inv first log r" and cur: "cursor < next_local_seq r"
    and gap: "\<not> snd (read_after cursor BATCH_MAX_OPS r)"
    and wanted: "\<forall>e. wanted e \<longrightarrow> rt e = Send \<or> rt e = Defer"
    and read: "pump_read rt cursor r = Some (Some pl)"
  shows "pl_cursor pl = cursor" "covers log wanted cursor (pl_new_cursor pl) (pl_ops pl)"
    "pl_new_cursor pl < next_local_seq r"
proof -
  have bound: "unat cursor + 1 < 2 ^ 64"
    using cur unat_bound(4) [of "next_local_seq r"] by (simp add: word_less_nat_alt)
  let ?es = "fst (read_after cursor BATCH_MAX_OPS r)"
  have es: "?es = take BATCH_MAX_OPS (filter (\<lambda>e. re_seq e > cursor) log)"
    using read_after_full [OF inv bound gap] .
  obtain b where walk: "pump_walk rt ?es [] cursor 0 = Some (pl_ops pl, pl_new_cursor pl, b)"
    and pl: "pl_cursor pl = cursor"
    using read by (auto simp: pump_read_def split: list.splits option.splits prod.splits)
  show "pl_cursor pl = cursor" by (rule pl)
  obtain pre suf where pre: "?es = pre @ suf" "pl_ops pl = map re_op (filter (\<lambda>e. rt e = Send) pre)"
    "pl_new_cursor pl = (if pre = [] then cursor else re_seq (last pre))"
    "\<forall>e\<in>set pre. rt e = Send \<or> rt e = Skip"
    using pump_walk_prefix [OF walk] by (metis append_Nil)
  have sub: "set pre \<subseteq> {e \<in> set log. cursor < re_seq e}"
    using pre(1) es set_take_subset [of BATCH_MAX_OPS "filter (\<lambda>e. re_seq e > cursor) log"] by (metis Un_upper1 dual_order.trans set_append set_filter)
  show "pl_new_cursor pl < next_local_seq r"
    using pre(3) cur sub log_below_next [OF inv] by (auto dest!: last_in_set)
  show "covers log wanted cursor (pl_new_cursor pl) (pl_ops pl)"
  proof (cases "pre = []")
    case True
    then show ?thesis using pre(3) by (simp add: covers_refl)
  next
    case False
    let ?after = "filter (\<lambda>e. re_seq e > cursor) log"
    have split: "?after = pre @ (suf @ drop BATCH_MAX_OPS ?after)"
      using pre(1) es by (metis append.assoc append_take_drop_id)
    have "re_op e \<in> set (pl_ops pl)"
      if "e \<in> set log" "wanted e" "cursor < re_seq e" "re_seq e \<le> re_seq (last pre)" for e
    proof -
      have "e \<in> set ?after" using that by simp
      moreover have "sorted_wrt (\<lambda>a b. re_seq a < re_seq b) ?after"
        using log_sorted [OF inv] by (rule sorted_wrt_filter)
      ultimately have "e \<in> set pre" using prefix_by_seq [of pre "suf @ drop BATCH_MAX_OPS ?after" e] split False that(4) by simp
      with pre(2,4) wanted that(2) show ?thesis by fastforce
    qed
    moreover have "cursor \<le> re_seq (last pre)" using sub False by (auto dest!: last_in_set)
    ultimately show ?thesis using pre(3) False by (simp add: covers_def)
  qed
qed

section \<open>Nothing is skipped\<close>

text \<open>Everything that is to go to the peer with a number of at most \<open>q\<close> is among \<open>D\<close>.\<close>

definition upto :: "ring_entry list \<Rightarrow> (ring_entry \<Rightarrow> bool) \<Rightarrow> u64 \<Rightarrow> repl_op set \<Rightarrow> bool" where
  "upto log wanted q D \<longleftrightarrow> (\<forall>e\<in>set log. wanted e \<and> re_seq e \<le> q \<longrightarrow> re_op e \<in> D)"

text \<open>The batches under way, given what has been applied: each number is honest once its batch is applied.\<close>

fun queued :: "ring_entry list \<Rightarrow> (ring_entry \<Rightarrow> bool) \<Rightarrow> u64 \<Rightarrow> repl_op set \<Rightarrow> repl_batch list \<Rightarrow> bool" where
  "queued log wanted nxt D [] = True"
| "queued log wanted nxt D (b # bs) =
     (rb_last_seq b < nxt \<and> upto log wanted (rb_last_seq b) (D \<union> set (rb_ops b)) \<and>
      queued log wanted nxt (D \<union> set (rb_ops b)) bs)"

definition under_way :: "lane \<Rightarrow> repl_op set" where
  "under_way s = ln_delivered s \<union> (\<Union>b\<in>set (ln_to_peer s). set (rb_ops b))"

lemma upto_mono: "upto log wanted q D \<Longrightarrow> D \<subseteq> D' \<Longrightarrow> upto log wanted q D'"
  by (auto simp: upto_def)

lemma upto_push: "upto log wanted q D \<Longrightarrow> \<forall>e\<in>set new. q < re_seq e \<Longrightarrow> upto (log @ new) wanted q D"
  by (auto simp: upto_def)

lemma upto_covers:
  "upto log wanted lo D \<Longrightarrow> covers log wanted lo hi ops \<Longrightarrow> upto log wanted hi (D \<union> set ops)"
  by (simp add: upto_def covers_def) (meson not_le)

lemma queued_take: "queued log wanted nxt D bs \<Longrightarrow> queued log wanted nxt D (take i bs)"
proof (induction bs arbitrary: D i)
  case (Cons b bs)
  then show ?case by (cases i) simp_all
qed simp

lemma queued_snoc:
  "queued log wanted nxt D bs \<Longrightarrow> rb_last_seq b < nxt \<Longrightarrow>
     upto log wanted (rb_last_seq b) (D \<union> (\<Union>b\<in>set bs. set (rb_ops b)) \<union> set (rb_ops b)) \<Longrightarrow>
     queued log wanted nxt D (bs @ [b])"
  by (induction bs arbitrary: D) (simp_all add: Un_assoc)

lemma queued_push:
  "queued log wanted nxt D bs \<Longrightarrow> nxt \<le> nxt' \<Longrightarrow> \<forall>e\<in>set new. nxt \<le> re_seq e \<Longrightarrow>
     queued (log @ new) wanted nxt' D bs"
  by (induction bs arbitrary: D) (auto intro!: upto_push)

text \<open>The invariant: what the receiver persisted, is about to report or has reported is honest; so is every batch
under way; the cursor set up by a resume message passed nothing that is neither applied nor under way; a plan
covers its stretch of the log, and if it is current starts where the cursor may stand.\<close>

definition honest :: "(ring_entry \<Rightarrow> bool) \<Rightarrow> lane \<Rightarrow> u64 \<Rightarrow> bool" where
  "honest wanted s q \<longleftrightarrow> q < next_local_seq (ln_ring s) \<and> upto (ln_log s) wanted q (ln_delivered s)"

definition safe_cursor :: "(ring_entry \<Rightarrow> bool) \<Rightarrow> lane \<Rightarrow> u64 \<Rightarrow> bool" where
  "safe_cursor wanted s q \<longleftrightarrow> q < next_local_seq (ln_ring s) \<and> upto (ln_log s) wanted q (under_way s)"

definition plan_ok :: "(ring_entry \<Rightarrow> bool) \<Rightarrow> lane \<Rightarrow> pump_plan \<Rightarrow> bool" where
  "plan_ok wanted s pl \<longleftrightarrow>
     covers (ln_log s) wanted (pl_cursor pl) (pl_new_cursor pl) (pl_ops pl) \<and>
     pl_new_cursor pl < next_local_seq (ln_ring s) \<and>
     (ln_current s \<longrightarrow> safe_cursor wanted s (pl_cursor pl)) \<and>
     (ln_current s \<and> ln_sent s = Some True \<longrightarrow> safe_cursor wanted s (pl_new_cursor pl))"

definition lane_inv :: "(ring_entry \<Rightarrow> bool) \<Rightarrow> u64 \<Rightarrow> lane \<Rightarrow> bool" where
  "lane_inv wanted first s \<longleftrightarrow> ring_inv first (ln_log s) (ln_ring s) \<and> honest wanted s (ln_applied s) \<and>
     (\<forall>q. ln_resume s = Some q \<or> ResumeFrom q \<in> set (ln_from_peer s) \<longrightarrow> honest wanted s q) \<and>
     queued (ln_log s) wanted (next_local_seq (ln_ring s)) (ln_delivered s) (ln_to_peer s) \<and>
     (ln_resumed s \<longrightarrow> (\<exists>f. ln_flow s = Some f \<and> safe_cursor wanted s (pf_sent f))) \<and>
     (\<forall>pl. ln_plan s = Some pl \<longrightarrow> plan_ok wanted s pl)"

lemma honest_safe: "honest wanted s q \<Longrightarrow> safe_cursor wanted s q"
  by (auto simp: honest_def safe_cursor_def under_way_def intro: upto_mono)

lemma stamp_ge:
  "unat s + length ops < 2 ^ 64 \<Longrightarrow> e \<in> set (stamp origin s ops) \<Longrightarrow> s \<le> re_seq e"
  by (metis in_set_conv_nth le_add1 length_stamp stamp_nth word_le_nat_alt)

lemma pf_sent_simps [simp]:
  "pf_sent (flow_at q) = q" "pf_sent (on_ack q f) = pf_sent f" "pf_sent (clear_inflight f) = pf_sent f"
  "pf_sent (on_send q b f) = q"
  by (simp_all add: flow_at_def on_ack_def clear_inflight_def on_send_def Let_def split_beta)

lemma pump_gate_sent:
  "pump_gate window now lst flow = (f, c) \<Longrightarrow> pf_sent f = (case flow of Some f' \<Rightarrow> pf_sent f' | None \<Rightarrow> lst) \<and>
     (\<forall>cursor. c = Some cursor \<longrightarrow> cursor = pf_sent f \<and> cursor < lst)"
  by (auto simp: pump_gate_def Let_def split: option.splits if_splits)

lemma push_preserves:
  fixes origin
  assumes inv: "lane_inv wanted first s"
    and room: "unat (next_local_seq (ln_ring s)) + length ops < 2 ^ 64"
  shows "lane_inv wanted first (s\<lparr>ln_ring := ring_push origin ops (ln_ring s),
                   ln_log := ln_log s @ stamp origin (next_local_seq (ln_ring s)) ops\<rparr>)"
    (is "lane_inv wanted first ?s")
proof -
  let ?new = "stamp origin (next_local_seq (ln_ring s)) ops"
  have run: "ring_inv first (ln_log s @ ?new) (ring_push origin ops (ln_ring s))"
    using inv room by (intro ring_push_inv) (simp_all add: lane_inv_def)
  have nxt: "next_local_seq (ln_ring s) \<le> next_local_seq (ln_ring ?s)"
    using inv run by (auto simp: lane_inv_def ring_inv_def word_le_nat_alt)
  have new: "\<forall>e\<in>set ?new. next_local_seq (ln_ring s) \<le> re_seq e"
    using stamp_ge [OF room] by blast
  then have above: "\<forall>e\<in>set ?new. x < re_seq e" if "x < next_local_seq (ln_ring s)" for x
    using that by (meson less_le_trans)
  have honest: "honest wanted ?s q" if "honest wanted s q" for q
    using that nxt above by (auto simp: honest_def intro!: upto_push)
  have safe: "safe_cursor wanted ?s q" if "safe_cursor wanted s q" for q
    using that nxt above by (auto simp: safe_cursor_def under_way_def intro!: upto_push)
  have "plan_ok wanted ?s pl" if "plan_ok wanted s pl" for pl
    using that nxt above safe by (auto simp: plan_ok_def intro!: covers_push)
  moreover have "queued (ln_log ?s) wanted (next_local_seq (ln_ring ?s)) (ln_delivered ?s) (ln_to_peer ?s)"
    using inv nxt new by (auto simp: lane_inv_def intro: queued_push)
  ultimately show ?thesis
    using inv run honest safe by (auto simp: lane_inv_def)
qed

lemma lane_inv_cong:
  assumes "lane_inv wanted first s" "ln_log s' = ln_log s" "ln_ring s' = ln_ring s"
    "ln_applied s' = ln_applied s" "ln_delivered s' = ln_delivered s" "ln_to_peer s' = ln_to_peer s"
    "\<And>q. ln_resume s' = Some q \<or> ResumeFrom q \<in> set (ln_from_peer s') \<Longrightarrow> honest wanted s q"
    "ln_resumed s' \<Longrightarrow> \<exists>f. ln_flow s' = Some f \<and> safe_cursor wanted s (pf_sent f)"
    "\<And>pl. ln_plan s' = Some pl \<Longrightarrow> plan_ok wanted (s\<lparr>ln_current := ln_current s', ln_sent := ln_sent s'\<rparr>) pl"
  shows "lane_inv wanted first s'"
proof -
  have "under_way s' = under_way s" using assms by (simp add: under_way_def)
  then have "safe_cursor wanted s' = safe_cursor wanted s" "honest wanted s' = honest wanted s"
    using assms by (simp_all add: fun_eq_iff safe_cursor_def honest_def)
  then show ?thesis using assms
    by (auto simp: lane_inv_def plan_ok_def safe_cursor_def under_way_def)
qed

lemma lane_invD:
  assumes "lane_inv wanted first s"
  shows "honest wanted s (ln_applied s)"
    "\<And>q. ln_resume s = Some q \<or> ResumeFrom q \<in> set (ln_from_peer s) \<Longrightarrow> honest wanted s q"
    "ln_resumed s \<Longrightarrow> \<exists>f. ln_flow s = Some f \<and> safe_cursor wanted s (pf_sent f)"
    "\<And>pl. ln_plan s = Some pl \<Longrightarrow> plan_ok wanted s pl"
  using assms by (auto simp: lane_inv_def)

lemma commit_Some: "pump_commit pl ok (Some f) = Some (if pl_ops pl = [] then (if pf_sent f = pl_cursor pl then f\<lparr>pf_sent := pl_new_cursor pl\<rparr> else f)
       else if ok then (if pf_sent f = pl_cursor pl then on_send (pl_new_cursor pl) (pl_bytes pl) f else f) else f)"
  by (simp add: pump_commit_def)

lemma gate_preserves:
  assumes inv: "lane_inv wanted first s" and gate: "pump_gate window now lst (ln_flow s) = (f, c)" and res: "ln_resumed s"
  shows "safe_cursor wanted s (pf_sent f)"
  using lane_invD(3) [OF inv res] pump_gate_sent [OF gate] by auto

lemma read_preserves:
  assumes inv: "lane_inv wanted first s"
    and gate: "pump_gate window now (last_seq (ln_ring s)) (ln_flow s) = (f, Some cursor)"
    and rt: "\<forall>e. wanted e \<longrightarrow> rt e = Send \<or> rt e = Defer"
    and read: "pump_read rt cursor (ln_ring s) = Some (Some pl)"
    and gap: "\<not> snd (read_after cursor BATCH_MAX_OPS (ln_ring s))"
  shows "plan_ok wanted (s\<lparr>ln_current := ln_resumed s, ln_sent := None\<rparr>) pl"
proof -
  have ring: "ring_inv first (ln_log s) (ln_ring s)" using inv by (simp add: lane_inv_def)
  have cur: "cursor = pf_sent f" "cursor < last_seq (ln_ring s)" using pump_gate_sent [OF gate] by auto
  have "cursor < next_local_seq (ln_ring s)"
    using cur(2) last_seq_log [OF ring] ring by (simp add: ring_inv_def word_less_nat_alt)
  from pump_read_covers [OF ring this gap rt read] gate_preserves [OF inv gate] cur(1) show ?thesis
    by (simp add: plan_ok_def safe_cursor_def under_way_def)
qed

lemma send_preserves:
  assumes inv: "lane_inv wanted first s" and pl: "ln_plan s = Some pl"
    and cur: "ok \<longrightarrow> ln_current s"
  shows "lane_inv wanted first (lane_send self ok pl s)"
proof (cases ok)
  case False
  with pl inv show ?thesis
    by (intro lane_inv_cong [OF inv]) (auto simp: lane_send_def plan_ok_def safe_cursor_def under_way_def dest: lane_invD)
next
  case True
  let ?s = "lane_send self True pl s"
  have ok: "plan_ok wanted s pl" "ln_current s" using True cur lane_invD(4) [OF inv pl] by simp_all
  have way: "under_way ?s = under_way s \<union> set (pl_ops pl)"
    by (auto simp: under_way_def lane_send_def plan_batch_def)
  have new: "safe_cursor wanted ?s (pl_new_cursor pl)"
    using ok upto_covers [of "ln_log s" wanted "pl_cursor pl" "under_way s" "pl_new_cursor pl" "pl_ops pl"] way
    by (simp add: plan_ok_def safe_cursor_def) (simp add: lane_send_def)
  have safe: "safe_cursor wanted ?s q" if "safe_cursor wanted s q" for q
    using that way upto_mono [of "ln_log s" wanted q "under_way s" "under_way ?s"]
    by (simp add: safe_cursor_def) (simp add: lane_send_def)
  have "queued (ln_log s) wanted (next_local_seq (ln_ring s)) (ln_delivered s) (ln_to_peer s @ [plan_batch self pl])"
    using inv ok(1) new way
    by (intro queued_snoc) (auto simp: lane_inv_def plan_ok_def safe_cursor_def plan_batch_def lane_send_def under_way_def)
  moreover have "plan_ok wanted ?s pl" using ok new safe by (simp add: plan_ok_def) (simp add: lane_send_def)
  moreover have "honest wanted ?s = honest wanted s" by (simp add: fun_eq_iff honest_def lane_send_def)
  ultimately show ?thesis
    using inv pl safe True by (auto simp: lane_inv_def) (auto simp: lane_send_def)
qed

lemma commit_preserves:
  assumes inv: "lane_inv wanted first s" and pl: "ln_plan s = Some pl"
    and sent: "pl_ops pl \<noteq> [] \<Longrightarrow> ln_sent s = Some ok" and cur: "ok \<longrightarrow> ln_current s"
  shows "lane_inv wanted first (lane_commit ok pl s)"
proof (rule lane_inv_cong [OF inv])
  note ok = lane_invD(4) [OF inv pl]
  assume "ln_resumed (lane_commit ok pl s)"
  then obtain f where f: "ln_flow s = Some f" "safe_cursor wanted s (pf_sent f)"
    using lane_invD(3) [OF inv] by (auto simp: lane_commit_def)
  have empty: "safe_cursor wanted s (pl_new_cursor pl)" if "pf_sent f = pl_cursor pl" "pl_ops pl = []"
    using that f(2) ok upto_covers [of "ln_log s" wanted "pl_cursor pl" "under_way s" "pl_new_cursor pl" "[]"]
    by (simp add: plan_ok_def safe_cursor_def)
  have full: "safe_cursor wanted s (pl_new_cursor pl)" if "ok" "pl_ops pl \<noteq> []"
    using that sent cur ok by (simp add: plan_ok_def)
  show "\<exists>f. ln_flow (lane_commit ok pl s) = Some f \<and> safe_cursor wanted s (pf_sent f)"
    using f empty full by (auto simp: lane_commit_def commit_Some)
qed (use lane_invD(2) [OF inv] in \<open>auto simp: lane_commit_def\<close>)

lemma deliver_preserves:
  assumes inv: "lane_inv wanted first s" and b: "ln_to_peer s = b # bs"
  shows "lane_inv wanted first (receive_batch ok b (s\<lparr>ln_to_peer := bs\<rparr>))" (is "lane_inv wanted first ?s")
proof -
  have way: "under_way ?s = under_way s" using b by (auto simp: under_way_def receive_batch_def)
  have safe: "safe_cursor wanted ?s = safe_cursor wanted s"
    by (simp add: fun_eq_iff safe_cursor_def way) (simp add: receive_batch_def)
  have honest: "honest wanted ?s q" if "honest wanted s q" for q
    using that by (auto simp: honest_def receive_batch_def intro: upto_mono)
  have "honest wanted ?s (ln_applied ?s)"
    using inv b by (simp add: lane_inv_def honest_def receive_batch_def)
  moreover have "honest wanted ?s q" if "ln_resume ?s = Some q \<or> ResumeFrom q \<in> set (ln_from_peer ?s)" for q
    using that lane_invD(2) [OF inv, of q] honest by (auto simp: receive_batch_def split: if_splits)
  moreover have "plan_ok wanted ?s pl" if "ln_plan ?s = Some pl" for pl
    using that lane_invD(4) [OF inv, of pl] by (simp add: plan_ok_def safe) (simp add: receive_batch_def)
  ultimately show ?thesis
    using inv b safe by (simp add: lane_inv_def) (simp add: receive_batch_def)
qed

lemma disconnect_preserves:
  assumes inv: "lane_inv wanted first s"
  shows "lane_inv wanted first (lane_disconnect i j s)"
  using inv by (auto simp: lane_inv_def lane_disconnect_def plan_ok_def honest_def queued_take dest: in_set_takeD)

lemma msg_preserves:
  assumes inv: "lane_inv wanted first s" and m: "ln_from_peer s = m # ms"
  shows "lane_inv wanted first (receive_msg m (s\<lparr>ln_from_peer := ms\<rparr>))"
proof (cases m)
  case (AckSeq q)
  then show ?thesis using m lane_invD(2,3,4) [OF inv]
    by (intro lane_inv_cong [OF inv]) (fastforce simp: plan_ok_def safe_cursor_def under_way_def)+
next
  case (ResumeFrom q)
  then have "safe_cursor wanted s q" using m lane_invD(2) [OF inv, of q] honest_safe by simp
  with ResumeFrom m show ?thesis using lane_invD(2,4) [OF inv]
    by (intro lane_inv_cong [OF inv]) (auto simp: plan_ok_def safe_cursor_def under_way_def)
qed

lemmas lane_step_defs = receive_batch_def lane_disconnect_def lane_connect_def resume_read_def resume_send_def
  lane_notice_def lane_send_def lane_commit_def

lemma lane_flags_mono:
  "lane_step self wanted s s' \<Longrightarrow> (ln_raced s \<longrightarrow> ln_raced s') \<and> (ln_gapped s \<longrightarrow> ln_gapped s')"
proof (induction rule: lane_step.induct)
  case (msg s m ms)
  then show ?case by (cases m) simp_all
qed (simp_all add: lane_step_defs)

text \<open>The steps of the event tasks change neither the log nor what is under way.\<close>

lemma event_preserves:
  assumes inv: "lane_inv wanted first s"
  shows "lane_inv wanted first (lane_connect s)" "lane_inv wanted first (resume_read s)"
    "ln_resume s = Some q \<Longrightarrow> lane_inv wanted first (resume_send ok q s)" "lane_inv wanted first (lane_notice s)"
    "lane_inv wanted first (s\<lparr>ln_flow := None, ln_resumed := False\<rparr>)"
proof -
  note D = lane_invD [OF inv]
  have same: "plan_ok wanted (s\<lparr>ln_current := ln_current s, ln_sent := ln_sent s\<rparr>) pl" if "ln_plan s = Some pl" for pl
    using D(4) [OF that] by (simp add: plan_ok_def safe_cursor_def under_way_def)
  note cong = lane_inv_cong [OF inv]
  show "lane_inv wanted first (lane_connect s)"
    by (rule cong) (use D same in \<open>auto simp: lane_connect_def\<close>)
  show "lane_inv wanted first (resume_read s)"
    by (rule cong) (use D same in \<open>auto simp: resume_read_def\<close>)
  show "lane_inv wanted first (resume_send ok q s)" if "ln_resume s = Some q"
    by (rule cong) (use D same that in \<open>auto simp: resume_send_def split: if_splits\<close>)
  show "lane_inv wanted first (lane_notice s)"
    by (rule cong) (use D same in \<open>auto simp: lane_notice_def\<close>)
  show "lane_inv wanted first (s\<lparr>ln_flow := None, ln_resumed := False\<rparr>)"
    by (rule cong) (use D same in auto)
qed

lemma lane_step_preserves:
  assumes step: "lane_step self wanted s s'" and inv: "lane_inv wanted first s"
    and ok: "\<not> ln_gapped s'" "\<not> ln_raced s'"
  shows "lane_inv wanted first s'"
  using step
proof (cases rule: lane_step.cases)
  case (push ops origin)
  then show ?thesis using push_preserves [OF inv] by simp
next
  case (stall window now f)
  then show ?thesis using gate_preserves [OF inv stall(4)] lane_invD(2,4) [OF inv]
    by (intro lane_inv_cong [OF inv]) auto
next
  case (read window now f cursor rt pl)
  then have "\<not> snd (read_after cursor BATCH_MAX_OPS (ln_ring s))" using ok by simp
  from read_preserves [OF inv read(4,5,6) this] read(1) gate_preserves [OF inv read(4)] lane_invD(2) [OF inv]
  show ?thesis by (intro lane_inv_cong [OF inv]) auto
next
  case (send pl ok')
  then show ?thesis using send_preserves [OF inv send(2)] ok by (simp add: lane_send_def)
next
  case (commit pl ok')
  then show ?thesis using commit_preserves [OF inv commit(2), of ok'] ok by (simp add: lane_commit_def)
next
  case (skip pl)
  then show ?thesis using commit_preserves [OF inv skip(2), of False] by simp
qed (use event_preserves [OF inv] disconnect_preserves [OF inv] deliver_preserves [OF inv] msg_preserves [OF inv] in \<open>simp_all\<close>)

lemma lane_reach_inv:
  assumes "lane_reach self wanted first_seq s" "\<not> ln_gapped s" "\<not> ln_raced s"
  shows "lane_inv wanted (max first_seq 1) s"
  using assms
proof (induction rule: lane_reach.induct)
  case (init q)
  have inv: "ring_inv (max first_seq 1) [] (new_starting_at first_seq)" by (rule ring_run_inv [OF ring_run.start])
  with init show ?case by (simp add: lane_inv_def honest_def upto_def lane_init_def new_starting_at_def)
next
  case (step s s')
  then have "lane_inv wanted (max first_seq 1) s" using lane_flags_mono [OF step(2)] by auto
  from lane_step_preserves [OF step(2) this] step(4,5) show ?case by simp
qed

section \<open>Runs\<close>

text \<open>The states of the runs below: two operations, pushed one after the other.\<close>

abbreviation race_op :: "u8 \<Rightarrow> repl_op" where
  "race_op i \<equiv> \<lparr>op_ikey = [i], op_value = []\<rparr>"

abbreviation race_entry :: "u64 \<Rightarrow> u8 \<Rightarrow> ring_entry" where
  "race_entry q i \<equiv> \<lparr>re_seq = q, re_origin = 9, re_op = race_op i\<rparr>"

abbreviation race_ring :: "ring_entry list \<Rightarrow> ring" where
  "race_ring es \<equiv> \<lparr>r_buf = es, r_bytes = 33 * length es, next_local_seq = 1 + of_nat (length es),
                   standalone_cfg = False, r_members = 1\<rparr>"

abbreviation race_plan :: "u64 \<Rightarrow> u8 \<Rightarrow> pump_plan" where
  "race_plan c i \<equiv> \<lparr>pl_cursor = c, pl_first_seq = c + 1, pl_ops = [race_op i], pl_new_cursor = c + 1, pl_bytes = 1\<rparr>"

abbreviation race_lane :: "ring_entry list \<Rightarrow> peer_flow option \<Rightarrow> u64 \<Rightarrow> repl_op set \<Rightarrow> bool \<Rightarrow> bool \<Rightarrow> bool \<Rightarrow> lane" where
  "race_lane es fl ap d rs cu rc \<equiv> \<lparr>ln_ring = race_ring es, ln_log = es, ln_flow = fl, ln_plan = None, ln_sent = None,
     ln_lost = 0, ln_conn = True, ln_to_peer = [], ln_from_peer = [], ln_up = 0, ln_resume = None, ln_applied = ap,
     ln_delivered = d, ln_resumed = rs, ln_current = cu, ln_gapped = False, ln_raced = rc\<rparr>"

lemma race_push1: "ring_push 9 [race_op 1] (race_ring []) = race_ring [race_entry 1 1]"
  by (simp add: ring_push_def entry_cost_def RING_MAX_BYTES_def RING_MAX_OPS_def)

lemma race_push2: "ring_push 9 [race_op 2] (race_ring [race_entry 1 1]) = race_ring [race_entry 1 1, race_entry 2 2]"
  by (simp add: ring_push_def entry_cost_def RING_MAX_BYTES_def RING_MAX_OPS_def)

lemma race_read1: "pump_read (\<lambda>_. Send) 0 (race_ring [race_entry 1 1]) = Some (Some (race_plan 0 1))"
  by (simp add: pump_read_def read_after_def BATCH_MAX_OPS_def BATCH_MAX_BYTES_def)

lemma race_read2:
  "pump_read (\<lambda>_. Send) 1 (race_ring [race_entry 1 1, race_entry 2 2]) = Some (Some (race_plan 1 2))"
  by (simp add: pump_read_def read_after_def BATCH_MAX_OPS_def BATCH_MAX_BYTES_def)

abbreviation race_reach :: "lane \<Rightarrow> bool" where
  "race_reach \<equiv> lane_reach 9 (\<lambda>_. True) 1"

text \<open>One operation is pushed, read, sent and its cursor advanced, on a connection that was resumed.\<close>

lemma race_sent:
  "race_reach ((race_lane [race_entry 1 1] (Some (on_send 1 1 (flow_at 0))) 0 {} True True False)\<lparr>ln_to_peer := [plan_batch 9 (race_plan 0 1)]\<rparr>)"
proof -
  have a0: "race_reach ((race_lane [] None 0 {} False False False)\<lparr>ln_conn := False\<rparr>)"
    using lane_reach.init [of 0 1 9 "\<lambda>_. True"] by (simp add: lane_init_def new_starting_at_def)
  have a1: "race_reach ((race_lane [] None 0 {} False False False)\<lparr>ln_up := 1\<rparr>)"
    using lane_reach.step [OF a0 lane_step.connect]
    by (simp add: lane_connect_def)
  have a2: "race_reach ((race_lane [] None 0 {} False False False)\<lparr>ln_resume := Some 0\<rparr>)"
    using lane_reach.step [OF a1 lane_step.resume_read]
    by (simp add: resume_read_def)
  have a3: "race_reach ((race_lane [] None 0 {} False False False)\<lparr>ln_from_peer := [ResumeFrom 0]\<rparr>)"
    using lane_reach.step [OF a2 lane_step.resume_send [of _ 0 _ _ True]]
    by (simp add: resume_send_def)
  have a4: "race_reach (race_lane [] (Some (flow_at 0)) 0 {} True False False)"
    using lane_reach.step [OF a3 lane_step.msg]
    by (simp)
  have a5: "race_reach (race_lane [race_entry 1 1] (Some (flow_at 0)) 0 {} True False False)"
    using lane_reach.step [OF a4 lane_step.push [where ops = "[race_op 1]" and origin = 9]] race_push1
    by (simp)
  have a6: "race_reach ((race_lane [race_entry 1 1] (Some (flow_at 0)) 0 {} True True False)\<lparr>ln_plan := Some (race_plan 0 1)\<rparr>)"
    using lane_reach.step [OF a5 lane_step.read [where window = 1 and now = 0 and f = "flow_at 0" and cursor = 0 and rt = "\<lambda>_. Send" and pl = "race_plan 0 1"]] race_read1
    by (simp add: pump_gate_def flow_at_def window_full_def last_seq_def read_after_def)
  have a7: "race_reach ((race_lane [race_entry 1 1] (Some (flow_at 0)) 0 {} True True False)\<lparr>ln_plan := Some (race_plan 0 1), ln_sent := Some True, ln_to_peer := [plan_batch 9 (race_plan 0 1)]\<rparr>)"
    using lane_reach.step [OF a6 lane_step.send [where ok = True and pl = "race_plan 0 1"]]
    by (simp add: lane_send_def)
  have a8: "race_reach ((race_lane [race_entry 1 1] (Some (on_send 1 1 (flow_at 0))) 0 {} True True False)\<lparr>ln_to_peer := [plan_batch 9 (race_plan 0 1)]\<rparr>)"
    using lane_reach.step [OF a7 lane_step.commit [where ok = True and pl = "race_plan 0 1"]]
    by (simp add: lane_commit_def commit_Some)
  show ?thesis by (rule a8)
qed

text \<open>C2: The lane never reports progress it did not make. In every state the protocol reaches, with pushes, pump passes
interrupted between their locks and their send, batches and acknowledgements lost or handled late, reconnects,
resume messages delayed or dropped and peer removal in any order, every logged operation that is to go to the peer
and whose sequence number is at most the one the receiver persisted has been applied by the receiver; and once a
resume message has been handled on the connection, every such operation at or below the sender's cursor has been
applied or is in a batch under way. Two conditions: no pump pass reported a ring gap, and every pump pass that
sent a batch, or advanced the cursor over one, began after a resume message had been handled since the last
connection loss and saw no connection loss before its cursor advanced. The code does not enforce the second one.\<close>

theorem lane_no_silent_loss:
  assumes "lane_reach self wanted first_seq s" "\<not> ln_gapped s" "\<not> ln_raced s"
  shows "(\<forall>e\<in>set (ln_log s). wanted e \<and> re_seq e \<le> ln_applied s \<longrightarrow> re_op e \<in> ln_delivered s) \<and>
    (\<forall>f. ln_resumed s \<and> ln_flow s = Some f \<longrightarrow>
      (\<forall>e\<in>set (ln_log s). wanted e \<and> re_seq e \<le> pf_sent f \<longrightarrow>
         re_op e \<in> ln_delivered s \<or> (\<exists>b\<in>set (ln_to_peer s). re_op e \<in> set (rb_ops b))))"
  using lane_invD(1,3) [OF lane_reach_inv [OF assms]]
  by (fastforce simp: honest_def safe_cursor_def upto_def under_way_def)

theorem lane_no_silent_loss_witness:
  "\<exists>s. lane_reach 9 (\<lambda>_. True) 1 s \<and> ln_log s = [race_entry 1 1] \<and> ln_applied s = 1 \<and>
     race_op 1 \<in> ln_delivered s"
proof -
  let ?s = "(race_lane [race_entry 1 1] (Some (on_send 1 1 (flow_at 0))) 1 {race_op 1} True True False)\<lparr>ln_from_peer := [AckSeq 1]\<rparr>"
  have s: "race_reach ?s"
    using lane_reach.step [OF race_sent lane_step.deliver [where ok = True]] by (simp add: receive_batch_def plan_batch_def)
  have "re_op (race_entry 1 1) \<in> ln_delivered ?s"
    using lane_no_silent_loss [OF s] by simp
  then show ?thesis by (intro exI [of _ ?s]) (use s in simp)
qed

section \<open>An undisturbed lane drains\<close>

text \<open>A pump pass whose batch is delivered and acknowledged before the next one.\<close>

definition lane_round :: "node_id \<Rightarrow> (ring_entry \<Rightarrow> route) \<Rightarrow> nat \<Rightarrow> instant \<Rightarrow> lane \<Rightarrow> lane" where
  "lane_round self rt window now s =
     (case pump_peer self rt window now True (ln_ring s) (ln_flow s) of
        None \<Rightarrow> s
      | Some (f, None) \<Rightarrow> s\<lparr>ln_flow := f\<rparr>
      | Some (f, Some b) \<Rightarrow>
          receive_msg (AckSeq (rb_last_seq b)) ((receive_batch True b (s\<lparr>ln_flow := f\<rparr>))\<lparr>ln_from_peer := []\<rparr>))"

definition drainable :: "u64 \<Rightarrow> ring_entry list \<Rightarrow> lane \<Rightarrow> peer_flow \<Rightarrow> bool" where
  "drainable first log s f \<longleftrightarrow> ring_inv first log (ln_ring s) \<and> ln_flow s = Some f \<and>
     pf_inflight f = [] \<and> pf_inflight_bytes f = 0 \<and> unat (pf_sent f) \<le> unat (last_seq (ln_ring s)) \<and>
     unat first + (length log - length (r_buf (ln_ring s))) \<le> unat (pf_sent f) + 1"

lemma pump_walk_total:
  "\<forall>e\<in>set es. rt e = Send \<or> rt e = Skip \<Longrightarrow> \<exists>x. pump_walk rt es ops c b = Some x"
proof (induction rt es ops c b rule: pump_walk.induct)
  case (2 rt e es ops c b)
  then show ?case by (cases "rt e") (auto simp: Let_def)
qed simp

lemma on_ack_on_send:
  "pf_inflight f = [] \<Longrightarrow> pf_inflight_bytes f = 0 \<Longrightarrow>
     pf_inflight (on_ack q (on_send q n f)) = [] \<and> pf_inflight_bytes (on_ack q (on_send q n f)) = 0"
  by (auto simp: on_ack_def on_send_def Let_def)

lemma lane_round_step:
  assumes d: "drainable first log s f" and more: "unat (pf_sent f) < unat (last_seq (ln_ring s))" and window: "0 < window"
    and rt: "\<forall>e\<in>set log. rt e = Send \<or> rt e = Skip"
  obtains f' where "drainable first log (lane_round self rt window now s) f'" "pf_sent f < pf_sent f'"
    "ln_ring (lane_round self rt window now s) = ln_ring s" "ln_delivered s \<subseteq> ln_delivered (lane_round self rt window now s)"
    "\<forall>e\<in>set log. rt e = Send \<and> pf_sent f < re_seq e \<and> re_seq e \<le> pf_sent f' \<longrightarrow>
       re_op e \<in> ln_delivered (lane_round self rt window now s)"
proof -
  let ?r = "ln_ring s" and ?c = "pf_sent f"
  have inv: "ring_inv first log ?r" and flow: "ln_flow s = Some f" "pf_inflight f = []" "pf_inflight_bytes f = 0"
    using d by (simp_all add: drainable_def)
  note last = last_seq_log [OF inv]
  have bound: "unat ?c + 1 < 2 ^ 64" using more unat_bound(4) [of "last_seq ?r"] by simp
  have gap: "\<not> snd (read_after ?c BATCH_MAX_OPS ?r)"
    using d by (simp add: read_after_log [OF inv bound] drainable_def)
  have es: "fst (read_after ?c BATCH_MAX_OPS ?r) = take BATCH_MAX_OPS (filter (\<lambda>e. re_seq e > ?c) log)"
    by (rule read_after_full [OF inv bound gap])
  have seqs: "\<forall>i<length log. unat (re_seq (log ! i)) = unat first + i" using inv by (simp add: ring_inv_def)
  have "unat first \<le> unat ?c + 1" using d by (simp add: drainable_def)
  then have "length (filter (\<lambda>e. re_seq e > ?c) log) > 0"
    using filter_after [OF seqs, of ?c] more last by simp
  then have "fst (read_after ?c BATCH_MAX_OPS ?r) \<noteq> []" unfolding es by (simp add: BATCH_MAX_OPS_def)
  then obtain e0 es' where es0: "fst (read_after ?c BATCH_MAX_OPS ?r) = e0 # es'" by (meson list.exhaust)
  have all: "\<forall>e\<in>set (e0 # es'). rt e = Send \<or> rt e = Skip"
    using rt es0 es by (metis (no_types, lifting) filter_is_subset in_set_takeD subsetD)
  obtain ops nc b where walk: "pump_walk rt (e0 # es') [] ?c 0 = Some (ops, nc, b)"
    using pump_walk_total [OF all] by (metis prod_cases3)
  let ?pl = "\<lparr>pl_cursor = ?c, pl_first_seq = re_seq e0, pl_ops = ops, pl_new_cursor = nc, pl_bytes = b\<rparr>"
  have read: "pump_read rt ?c ?r = Some (Some ?pl)" using es0 walk by (simp add: pump_read_def)
  have gate: "pump_gate window now (last_seq ?r) (ln_flow s) = (f, Some ?c)"
    using flow window more by (simp add: pump_gate_def window_full_def word_le_nat_alt)
  have cur: "?c < next_local_seq ?r" using more last inv by (simp add: ring_inv_def word_less_nat_alt)
  have cov: "covers log (\<lambda>e. rt e = Send) ?c nc ops" and nxt: "nc < next_local_seq ?r"
    using pump_read_covers [OF inv cur gap _ read, of "\<lambda>e. rt e = Send"] by simp_all
  obtain pre suf where pre: "e0 # es' = pre @ suf" "nc = (if pre = [] then ?c else re_seq (last pre))"
    "pre = [] \<longrightarrow> rt e0 = Defer"
    using pump_walk_prefix [OF walk] by (metis list.sel(1) list.distinct(1))
  then have ne: "pre \<noteq> []" using all by auto
  then have "last pre \<in> set (e0 # es')" using pre(1) by (metis UnI1 last_in_set set_append)
  then have "last pre \<in> set (filter (\<lambda>e. re_seq e > ?c) log)" using es es0 by (metis in_set_takeD)
  then have "?c < re_seq (last pre)" by simp
  then have lt: "?c < nc" using pre(2) ne by simp
  let ?s = "lane_round self rt window now s"
  let ?f = "if ops = [] then f\<lparr>pf_sent := nc\<rparr> else on_ack nc (on_send nc b f)"
  have s: "?s = (if ops = [] then s\<lparr>ln_flow := Some ?f\<rparr>
      else s\<lparr>ln_flow := Some ?f, ln_delivered := ln_delivered s \<union> set ops, ln_applied := nc, ln_from_peer := []\<rparr>)"
    using gate read flow(1)
    by (simp add: lane_round_def pump_peer_def commit_Some plan_batch_def receive_batch_def)
  have "unat nc \<le> unat (last_seq ?r)" "unat ?c \<le> unat nc"
    using nxt last inv lt by (simp_all add: ring_inv_def word_less_nat_alt)
  then have "drainable first log ?s ?f"
    using d flow on_ack_on_send [OF flow(2,3), of nc b] by (auto simp: drainable_def s)
  then show thesis
    using cov lt by (intro that [of ?f]) (auto simp: s covers_def)
qed

lemma lane_drain:
  assumes "drainable first log s f" "0 < window" "\<forall>e\<in>set log. rt e = Send \<or> rt e = Skip"
  shows "\<exists>k \<le> unat (last_seq (ln_ring s)) - unat (pf_sent f).
    \<exists>f'. drainable first log ((lane_round self rt window now ^^ k) s) f' \<and>
      pf_sent f' = last_seq (ln_ring s) \<and> ln_ring ((lane_round self rt window now ^^ k) s) = ln_ring s \<and>
      ln_delivered s \<subseteq> ln_delivered ((lane_round self rt window now ^^ k) s) \<and>
      (\<forall>e\<in>set log. rt e = Send \<and> pf_sent f < re_seq e \<longrightarrow>
         re_op e \<in> ln_delivered ((lane_round self rt window now ^^ k) s))"
  using assms(1)
proof (induction "unat (last_seq (ln_ring s)) - unat (pf_sent f)" arbitrary: s f rule: less_induct)
  case less
  show ?case
  proof (cases "unat (pf_sent f) < unat (last_seq (ln_ring s))")
    case False
    then have eq: "pf_sent f = last_seq (ln_ring s)"
      using less.prems by (simp add: drainable_def word_unat_eq_iff)
    have inv: "ring_inv first log (ln_ring s)" using less.prems by (simp add: drainable_def)
    have "re_seq e \<le> pf_sent f" if "e \<in> set log" for e
      using log_below_next [OF inv that] last_seq_log [OF inv] inv eq
      by (simp add: ring_inv_def word_less_nat_alt word_le_nat_alt)
    then have "\<forall>e\<in>set log. \<not> (rt e = Send \<and> pf_sent f < re_seq e)" by (auto simp: not_less)
    with eq less.prems show ?thesis by (intro exI [of _ 0]) auto
  next
    case True
    let ?R = "lane_round self rt window now"
    obtain f1 where f1: "drainable first log (?R s) f1" "pf_sent f < pf_sent f1" "ln_ring (?R s) = ln_ring s"
      "ln_delivered s \<subseteq> ln_delivered (?R s)"
      "\<forall>e\<in>set log. rt e = Send \<and> pf_sent f < re_seq e \<and> re_seq e \<le> pf_sent f1 \<longrightarrow> re_op e \<in> ln_delivered (?R s)"
      using lane_round_step [OF less.prems True assms(2,3)] .
    have lt: "unat (pf_sent f) < unat (pf_sent f1)" "unat (pf_sent f1) \<le> unat (last_seq (ln_ring s))"
      using f1(1-3) by (simp_all add: word_less_nat_alt drainable_def)
    have "unat (last_seq (ln_ring (?R s))) - unat (pf_sent f1) < unat (last_seq (ln_ring s)) - unat (pf_sent f)"
      using lt f1(3) by simp
    from less.hyps [OF this f1(1)] obtain k f' where k: "k \<le> unat (last_seq (ln_ring s)) - unat (pf_sent f1)"
      "drainable first log ((?R ^^ k) (?R s)) f'" "pf_sent f' = last_seq (ln_ring s)"
      "ln_ring ((?R ^^ k) (?R s)) = ln_ring s" "ln_delivered (?R s) \<subseteq> ln_delivered ((?R ^^ k) (?R s))"
      "\<forall>e\<in>set log. rt e = Send \<and> pf_sent f1 < re_seq e \<longrightarrow> re_op e \<in> ln_delivered ((?R ^^ k) (?R s))"
      unfolding f1(3) by blast
    have "re_op e \<in> ln_delivered ((?R ^^ k) (?R s))" if "e \<in> set log" "rt e = Send" "pf_sent f < re_seq e" for e
      using that f1(5) k(5,6) by (meson not_le subsetD)
    with k f1(4) lt show ?thesis
      by (intro exI [of _ "Suc k"]) (auto simp: funpow_swap1)
  qed
qed

text \<open>C17: An undisturbed lane drains: from any state of the ring in which the peer's cursor has not fallen off it and
nothing is in flight, with a window that is not zero and a view under which every entry is either sent or passed
over, at most as many pump passes as there are entries behind the cursor ship every entry that goes to the peer;
then the drain that a leaving node waits for reports no backlog.\<close>

theorem lane_drains:
  assumes "ring_run first log (ln_ring s)" "ln_flow s = Some f" "pf_inflight f = []" "pf_inflight_bytes f = 0"
    "unat (pf_sent f) \<le> unat (last_seq (ln_ring s))" "\<not> snd (read_after (pf_sent f) BATCH_MAX_OPS (ln_ring s))"
    "unat (pf_sent f) + 1 < 2 ^ 64" "0 < window" "\<forall>e\<in>set log. rt e = Send \<or> rt e = Skip"
  shows "\<exists>k \<le> unat (last_seq (ln_ring s)) - unat (pf_sent f).
    let s' = (lane_round self rt window now ^^ k) s
    in pending_backlog (ln_ring s') [ln_flow s'] = 0 \<and>
       (\<forall>e\<in>set log. rt e = Send \<and> pf_sent f < re_seq e \<longrightarrow> re_op e \<in> ln_delivered s')"
proof -
  note inv = ring_run_inv [OF assms(1)]
  have "drainable first log s f"
    using assms inv by (simp add: drainable_def read_after_log [OF inv assms(7)])
  from lane_drain [OF this assms(8,9), of self now] obtain k f' where
    "k \<le> unat (last_seq (ln_ring s)) - unat (pf_sent f)"
    "drainable first log ((lane_round self rt window now ^^ k) s) f'" "pf_sent f' = last_seq (ln_ring s)"
    "ln_ring ((lane_round self rt window now ^^ k) s) = ln_ring s"
    "\<forall>e\<in>set log. rt e = Send \<and> pf_sent f < re_seq e \<longrightarrow>
         re_op e \<in> ln_delivered ((lane_round self rt window now ^^ k) s)" by blast
  then show ?thesis
    by (intro exI [of _ k]) (simp add: Let_def pending_backlog_def flow_backlog_def drainable_def)
qed

theorem lane_drains_witness:
  "\<exists>k\<le>1. let op = \<lparr>op_ikey = [1], op_value = []\<rparr>;
       s = (lane_init 1 0)\<lparr>ln_ring := ring_push 9 [op] (new_starting_at 1), ln_flow := Some (flow_at 0)\<rparr>;
       s' = (lane_round 9 (\<lambda>_. Send) 1 0 ^^ k) s
   in pending_backlog (ln_ring s') [ln_flow s'] = 0 \<and> op \<in> ln_delivered s'"
proof -
  let ?op = "\<lparr>op_ikey = [1], op_value = []\<rparr> :: repl_op"
  let ?e = "\<lparr>re_seq = 1, re_origin = 9, re_op = ?op\<rparr>"
  let ?r = "ring_push 9 [?op] (new_starting_at 1)"
  let ?s = "(lane_init 1 0)\<lparr>ln_ring := ?r, ln_flow := Some (flow_at 0)\<rparr>"
  have r: "?r = \<lparr>r_buf = [?e], r_bytes = 33, next_local_seq = 2, standalone_cfg = False, r_members = 1\<rparr>"
    by (simp add: ring_push_def new_starting_at_def entry_cost_def RING_MAX_BYTES_def RING_MAX_OPS_def)
  have "ring_run 1 [?e] ?r"
    using ring_run.push [OF ring_run.start [of 1], of "[?op]" 9] by (simp add: new_starting_at_def)
  then have "ring_run 1 [?e] (ln_ring ?s)" by simp
  moreover have "\<not> snd (read_after (pf_sent (flow_at 0)) BATCH_MAX_OPS (ln_ring ?s))"
    unfolding lane.simps r by (simp add: read_after_def flow_at_def)
  moreover have "last_seq (ln_ring ?s) = 1" unfolding lane.simps r by (simp add: last_seq_def)
  ultimately show ?thesis
    using lane_drains [of 1 "[?e]" ?s "flow_at 0" 1 "\<lambda>_. Send" 9 0] by (simp add: flow_at_def Let_def)
qed

section \<open>A pump pass that does not wait for the resume message\<close>

text \<open>C31: A counterexample to the lane when a pump pass does not wait: the ring reports no gap, and yet an operation
below the receiver's persisted sequence number was never applied and will not be sent again: every message and
event has been handled, and the cursor stands at the end of the ring. The first batch is lost with its connection,
whose cursor stays; after the reconnect a pump pass runs before the receiver's event task reads the persisted
number, and ships the next operation, whose batch moves that number past the lost one; the resume message then
starts behind the hole.\<close>

theorem reconnect_race_skips:
  "\<exists>s. lane_reach 9 (\<lambda>_. True) 1 s \<and> \<not> ln_gapped s \<and> ln_conn s \<and> ln_resumed s \<and> ln_plan s = None \<and>
     ln_to_peer s = [] \<and> ln_from_peer s = [] \<and> ln_up s = 0 \<and> ln_resume s = None \<and>
     map_option pf_sent (ln_flow s) = Some (last_seq (ln_ring s)) \<and>
     (\<exists>e\<in>set (ln_log s). re_seq e \<le> ln_applied s \<and> re_op e \<notin> ln_delivered s)"
proof -
  let ?f = "clear_inflight (on_send 1 1 (flow_at 0))" and ?b = "plan_batch 9 (race_plan 1 2)"
  let ?g = "on_send 2 1 ?f"
  have f: "?f = \<lparr>pf_sent = 1, pf_acked = 0, pf_inflight = [], pf_inflight_bytes = 0, pf_stalled_since = None,
      pf_stall_warned = False\<rparr>" by (simp add: clear_inflight_def on_send_def flow_at_def)
  have b0: "race_reach ((race_lane [race_entry 1 1] (Some (on_send 1 1 (flow_at 0))) 0 {} True True False)\<lparr>ln_to_peer := [plan_batch 9 (race_plan 0 1)]\<rparr>)"
    by (rule race_sent)
  have b1: "race_reach ((race_lane [race_entry 1 1] (Some (on_send 1 1 (flow_at 0))) 0 {} False False False)\<lparr>ln_lost := 1, ln_conn := False\<rparr>)"
    using lane_reach.step [OF b0 lane_step.disconnect [of _ _ _ 0 0]]
    by (simp add: lane_disconnect_def)
  have b2: "race_reach ((race_lane [race_entry 1 1] (Some ?f) 0 {} False False False)\<lparr>ln_conn := False\<rparr>)"
    using lane_reach.step [OF b1 lane_step.notice]
    by (simp add: lane_notice_def)
  have b3: "race_reach ((race_lane [race_entry 1 1, race_entry 2 2] (Some ?f) 0 {} False False False)\<lparr>ln_conn := False\<rparr>)"
    using lane_reach.step [OF b2 lane_step.push [where ops = "[race_op 2]" and origin = 9]] race_push2
    by (simp)
  have b4: "race_reach ((race_lane [race_entry 1 1, race_entry 2 2] (Some ?f) 0 {} False False False)\<lparr>ln_up := 1\<rparr>)"
    using lane_reach.step [OF b3 lane_step.connect]
    by (simp add: lane_connect_def)
  have b5: "race_reach ((race_lane [race_entry 1 1, race_entry 2 2] (Some ?f) 0 {} False False False)\<lparr>ln_plan := Some (race_plan 1 2), ln_up := 1\<rparr>)"
    using lane_reach.step [OF b4 lane_step.read [where window = 1 and now = 0 and f = ?f and cursor = 1 and rt = "\<lambda>_. Send" and pl = "race_plan 1 2"]] race_read2
    by (simp add: f pump_gate_def window_full_def last_seq_def read_after_def Let_def word_le_nat_alt del: One_nat_def)
  have b6: "race_reach ((race_lane [race_entry 1 1, race_entry 2 2] (Some ?f) 0 {} False False True)\<lparr>ln_plan := Some (race_plan 1 2), ln_sent := Some True, ln_to_peer := [?b], ln_up := 1\<rparr>)"
    using lane_reach.step [OF b5 lane_step.send [where ok = True and pl = "race_plan 1 2"]]
    by (simp add: lane_send_def)
  have b7: "race_reach ((race_lane [race_entry 1 1, race_entry 2 2] (Some ?g) 0 {} False False True)\<lparr>ln_to_peer := [?b], ln_up := 1\<rparr>)"
    using lane_reach.step [OF b6 lane_step.commit [where ok = True and pl = "race_plan 1 2"]]
    by (simp add: lane_commit_def commit_Some)
  have b8: "race_reach ((race_lane [race_entry 1 1, race_entry 2 2] (Some ?g) 2 {race_op 2} False False True)\<lparr>ln_from_peer := [AckSeq 2], ln_up := 1\<rparr>)"
    using lane_reach.step [OF b7 lane_step.deliver [where ok = True]]
    by (simp add: receive_batch_def plan_batch_def)
  have b9: "race_reach ((race_lane [race_entry 1 1, race_entry 2 2] (Some ?g) 2 {race_op 2} False False True)\<lparr>ln_from_peer := [AckSeq 2], ln_resume := Some 2\<rparr>)"
    using lane_reach.step [OF b8 lane_step.resume_read]
    by (simp add: resume_read_def)
  have b10: "race_reach ((race_lane [race_entry 1 1, race_entry 2 2] (Some ?g) 2 {race_op 2} False False True)\<lparr>ln_from_peer := [AckSeq 2, ResumeFrom 2]\<rparr>)"
    using lane_reach.step [OF b9 lane_step.resume_send [of _ 2 _ _ True]]
    by (simp add: resume_send_def)
  have b11: "race_reach ((race_lane [race_entry 1 1, race_entry 2 2] (Some (on_ack 2 ?g)) 2 {race_op 2} False False True)\<lparr>ln_from_peer := [ResumeFrom 2]\<rparr>)"
    using lane_reach.step [OF b10 lane_step.msg]
    by (simp)
  have b12: "race_reach (race_lane [race_entry 1 1, race_entry 2 2] (Some (flow_at 2)) 2 {race_op 2} True False True)"
    using lane_reach.step [OF b11 lane_step.msg]
    by (simp)
  show ?thesis by (intro exI [of _ "race_lane [race_entry 1 1, race_entry 2 2] (Some (flow_at 2)) 2 {race_op 2} True False True"]) (use b12 in \<open>simp add: last_seq_def\<close>)
qed

end
