(* ===== verification/Glob.thy ===== *)
theory Glob
  imports Prelude
begin

text \<open>
  \<open>marekvs-engine/src/pubsub.rs\<close>: glob patterns, as KEYS, SCAN and PSUBSCRIBE use them. The matcher is a loop
  over two positions that remembers the last star and where it began to match; it is a partial function, so
  that returning at all is something to prove.
\<close>

section \<open>The matcher\<close>

text \<open>The loop of \<open>class_match\<close> from position \<open>i\<close>.\<close>

function class_scan :: "bytes \<Rightarrow> u8 \<Rightarrow> bool \<Rightarrow> nat \<Rightarrow> bool \<Rightarrow> bool \<Rightarrow> (bool \<times> nat) option" where
  "class_scan p c negate i matched first =
     (if length p \<le> i then None
      else if p ! i = 93 \<and> \<not> first then Some (matched \<noteq> negate, i + 1)
      else if p ! i = 92 \<and> i + 1 < length p
      then class_scan p c negate (i + 2) (matched \<or> p ! (i + 1) = c) False
      else if i + 2 < length p \<and> p ! (i + 1) = 45 \<and> p ! (i + 2) \<noteq> 93
      then class_scan p c negate (i + 3) (matched \<or> p ! i \<le> c \<and> c \<le> p ! (i + 2)) False
      else class_scan p c negate (i + 1) (matched \<or> p ! i = c) False)"
  by pat_completeness auto
termination
  by (relation "measure (\<lambda>(p, c, negate, i, matched, first). length p - i)") auto

declare class_scan.simps [simp del]

definition class_match :: "bytes \<Rightarrow> u8 \<Rightarrow> (bool \<times> nat) option" where
  "class_match p c =
     (let negate = (1 < length p \<and> p ! 1 = 33)
      in class_scan p c negate (if negate then 2 else 1) False True)"

text \<open>What one pattern item other than a star makes of a byte: how far the pattern advances if it matches.\<close>

definition glob_step :: "bytes \<Rightarrow> u8 \<Rightarrow> nat option" where
  "glob_step p c =
     (case p of
        [] \<Rightarrow> None
      | x # _ \<Rightarrow>
          if x = 63 then Some 1
          else if x = 92 \<and> 1 < length p \<and> p ! 1 = c then Some 2
          else if x = 91
          then (case class_match p c of Some (True, adv) \<Rightarrow> Some adv | _ \<Rightarrow> None)
          else if x = c then Some 1 else None)"

partial_function (option) glob_loop ::
  "bytes \<Rightarrow> bytes \<Rightarrow> nat \<Rightarrow> nat \<Rightarrow> (nat \<times> nat) option \<Rightarrow> bool option" where
  "glob_loop p t pi ti star =
     (if ti < length t
      then if pi < length p \<and> p ! pi = 42 then glob_loop p t (pi + 1) ti (Some (pi, ti))
           else case glob_step (drop pi p) (t ! ti) of
                  Some n \<Rightarrow> glob_loop p t (pi + n) (ti + 1) star
                | None \<Rightarrow>
                    (case star of
                       Some (sp, st) \<Rightarrow> glob_loop p t (sp + 1) (st + 1) (Some (sp, st + 1))
                     | None \<Rightarrow> Some False)
      else Some (dropWhile (\<lambda>c. c = 42) (drop pi p) = []))"

definition glob_inner :: "bytes \<Rightarrow> bytes \<Rightarrow> bool option" where
  "glob_inner p t = glob_loop p t 0 0 None"

definition glob_match :: "bytes \<Rightarrow> bytes \<Rightarrow> bool option" where
  "glob_match pattern t = glob_inner pattern t"

section \<open>The loop ends\<close>

text \<open>
  Every round moves one of four counters: the last star moves to the right, or its starting point does, or
  the text position does, or the pattern position passes a star.
\<close>

definition star_rank :: "bytes \<Rightarrow> nat \<Rightarrow> (nat \<times> nat) option \<Rightarrow> nat" where
  "star_rank p pi star =
     (case star of None \<Rightarrow> length p + 1 | Some (sp, _) \<Rightarrow> if sp < pi then length p - sp else length p + 2)"

definition glob_order :: "bytes \<Rightarrow> bytes \<Rightarrow> ((nat \<times> nat \<times> (nat \<times> nat) option) \<times> (nat \<times> nat \<times> (nat \<times> nat) option)) set" where
  "glob_order p t =
     measures [\<lambda>(pi, ti, star). star_rank p pi star,
               \<lambda>(pi, ti, star). case star of None \<Rightarrow> 0 | Some (_, st) \<Rightarrow> Suc (length t) - st,
               \<lambda>(pi, ti, star). length t - ti]"

lemma wf_glob_order: "wf (glob_order p t)"
  by (simp add: glob_order_def)

lemma glob_order_steps:
  assumes "ti < length t"
  shows "pi < length p \<Longrightarrow> ((pi + 1, ti, Some (pi, ti)), (pi, ti, star)) \<in> glob_order p t"
    "((pi + n, ti + 1, star), (pi, ti, star)) \<in> glob_order p t"
    "star = Some (sp, st) \<Longrightarrow> ((sp + 1, st + 1, Some (sp, st + 1)), (pi, ti, star)) \<in> glob_order p t"
  using assms by (auto simp: glob_order_def star_rank_def split: option.splits prod.splits)

lemma glob_loop_returns: "\<exists>b. glob_loop p t pi ti star = Some b"
proof (induction "(pi, ti, star)" arbitrary: pi ti star rule: wf_induct_rule [OF wf_glob_order [of p t]])
  case 1
  show ?case
  proof (cases "ti < length t")
    case True
    note steps = glob_order_steps [OF True]
    show ?thesis
      using 1 [OF steps(1)] 1 [OF steps(2)] 1 [OF steps(3)] True
      by (subst glob_loop.simps) (auto split: option.split)
  qed (subst glob_loop.simps, simp)
qed

section \<open>What the matcher decides\<close>

text \<open>The matching that the loop implements, by plain recursion: a star takes any number of bytes.\<close>

function glob_spec :: "bytes \<Rightarrow> bytes \<Rightarrow> bool" where
  "glob_spec p t =
     (case p of
        [] \<Rightarrow> t = []
      | x # p' \<Rightarrow>
          if x = 42 then glob_spec p' t \<or> (if t = [] then False else glob_spec p (tl t))
          else case t of
                 [] \<Rightarrow> False
               | c # t' \<Rightarrow> (case glob_step p c of Some n \<Rightarrow> glob_spec (drop n p) t' | None \<Rightarrow> False))"
  by pat_completeness auto
termination
  by (relation "measures [\<lambda>(p, t). length t, \<lambda>(p, t). length p]") auto

declare glob_spec.simps [simp del]

lemma glob_spec_simps:
  "glob_spec [] t \<longleftrightarrow> t = []"
  "glob_spec (42 # p) [] \<longleftrightarrow> glob_spec p []"
  "glob_spec (42 # p) (c # t) \<longleftrightarrow> glob_spec p (c # t) \<or> glob_spec (42 # p) t"
  "x \<noteq> 42 \<Longrightarrow> \<not> glob_spec (x # p) []"
  "x \<noteq> 42 \<Longrightarrow> glob_spec (x # p) (c # t) \<longleftrightarrow>
     (case glob_step (x # p) c of Some n \<Rightarrow> glob_spec (drop n (x # p)) t | None \<Rightarrow> False)"
  by (subst glob_spec.simps, simp)+

lemma glob_spec_star: "glob_spec (42 # p) t \<longleftrightarrow> (\<exists>k. glob_spec p (drop k t))"
proof (induction t)
  case (Cons c t)
  have "(\<exists>k. glob_spec p (drop k (c # t))) \<longleftrightarrow> glob_spec p (c # t) \<or> (\<exists>k. glob_spec p (drop k t))"
    by (metis drop0 drop_Suc_Cons not0_implies_Suc)
  with Cons show ?case by (simp add: glob_spec_simps)
qed (simp add: glob_spec_simps)

lemma glob_spec_end: "glob_spec p [] \<longleftrightarrow> dropWhile (\<lambda>c. c = 42) p = []"
proof (induction p)
  case (Cons x p)
  then show ?case by (cases "x = 42") (simp_all add: glob_spec_simps)
qed (simp add: glob_spec_simps)

text \<open>The length of an item does not depend on the byte it is matched with, unless it begins with a backslash.\<close>

lemma class_scan_length:
  "class_scan p c negate i matched first = Some (b, n) \<Longrightarrow> \<exists>b'. class_scan p c' negate i matched' first = Some (b', n)"
proof (induction p c negate i matched first arbitrary: matched' rule: class_scan.induct)
  case (1 p c negate i matched first)
  from 1(4) show ?case
    unfolding class_scan.simps [of p c negate i matched] class_scan.simps [of p c' negate i matched']
    using 1(1-3) by (auto split: if_splits)
qed

definition item_length :: "bytes \<Rightarrow> nat option" where
  "item_length p =
     (case p of
        [] \<Rightarrow> None
      | x # _ \<Rightarrow>
          if x = 42 then None else if x = 91 then map_option snd (class_match p 0) else Some 1)"

lemma glob_step_length:
  assumes "glob_step p c = Some n" "92 \<notin> set p" "p \<noteq> []" "hd p \<noteq> 42"
  shows "item_length p = Some n"
proof (cases "hd p = 91")
  case True
  then have "class_match p c = Some (True, n)"
    using assms(1,3) by (auto simp: glob_step_def neq_Nil_conv split: option.splits bool.splits if_splits)
  then obtain b where "class_match p 0 = Some (b, n)"
    unfolding class_match_def Let_def using class_scan_length by blast
  with True assms(3) show ?thesis by (auto simp: item_length_def neq_Nil_conv)
next
  case False
  with assms show ?thesis by (auto simp: glob_step_def item_length_def neq_Nil_conv split: if_splits)
qed

text \<open>The pattern position after \<open>n\<close> items from \<open>i\<close>.\<close>

fun items_after :: "bytes \<Rightarrow> nat \<Rightarrow> nat \<Rightarrow> nat option" where
  "items_after p i 0 = Some i"
| "items_after p i (Suc n) =
     (case items_after p i n of
        None \<Rightarrow> None
      | Some j \<Rightarrow> (case item_length (drop j p) of None \<Rightarrow> None | Some k \<Rightarrow> Some (j + k)))"

lemma glob_spec_items:
  assumes "92 \<notin> set p" "items_after p i n = Some j" "glob_spec (drop i p) (drop k t)" "k \<le> length t"
  shows "k + n \<le> length t \<and> glob_spec (drop j p) (drop (k + n) t)"
  using assms(2)
proof (induction n arbitrary: j)
  case 0
  with assms(3,4) show ?case by simp
next
  case (Suc n)
  then obtain j' l where j': "items_after p i n = Some j'" "item_length (drop j' p) = Some l" "j = j' + l"
    by (auto split: option.splits)
  note IH = Suc.IH [OF j'(1)]
  obtain x q where q: "drop j' p = x # q" "x \<noteq> 42"
    using j'(2) by (auto simp: item_length_def split: list.splits if_splits)
  show ?case
  proof (cases "drop (k + n) t")
    case Nil
    then show ?thesis using IH q by (simp add: glob_spec_simps)
  next
    case (Cons c t')
    then obtain n' where n': "glob_step (x # q) c = Some n'" "glob_spec (drop n' (x # q)) t'"
      using IH q by (auto simp: glob_spec_simps split: option.splits)
    have "92 \<notin> set (x # q)" using assms(1) q(1) in_set_dropD [of _ j' p] by metis
    then have "n' = l" using glob_step_length [OF n'(1)] j'(2) q by simp
    moreover have "t' = drop (k + Suc n) t" "k + Suc n \<le> length t"
      using Cons by (metis add_Suc_right drop_Suc tl_drop list.sel(3)) (metis Cons Suc_leI add_Suc_right drop_eq_Nil list.distinct(1) not_le)
    ultimately show ?thesis using n'(2) q(1) j'(3) by (metis drop_drop add.commute)
  qed
qed

lemma spec_star_from:
  assumes "pi < length p" "p ! pi = 42" "ti \<le> length t"
  shows "glob_spec (drop pi p) (drop ti t) \<longleftrightarrow> (\<exists>k\<ge>ti. k \<le> length t \<and> glob_spec (drop (pi + 1) p) (drop k t))"
proof -
  have "drop pi p = 42 # drop (pi + 1) p" using assms(1,2) by (metis Cons_nth_drop_Suc Suc_eq_plus1)
  then have "glob_spec (drop pi p) (drop ti t) \<longleftrightarrow> (\<exists>k. glob_spec (drop (pi + 1) p) (drop (ti + k) t))"
    by (simp add: glob_spec_star add.commute)
  also have "\<dots> \<longleftrightarrow> (\<exists>k\<ge>ti. k \<le> length t \<and> glob_spec (drop (pi + 1) p) (drop k t))"
  proof
    assume "\<exists>k. glob_spec (drop (pi + 1) p) (drop (ti + k) t)"
    then obtain k where k: "glob_spec (drop (pi + 1) p) (drop (ti + k) t)" ..
    show "\<exists>k\<ge>ti. k \<le> length t \<and> glob_spec (drop (pi + 1) p) (drop k t)"
      by (rule exI [of _ "min (ti + k) (length t)"]) (use k assms(3) in \<open>auto simp: min_def\<close>)
  qed (metis le_add_diff_inverse)
  finally show ?thesis .
qed

lemma spec_step_from:
  assumes "ti < length t" "\<not> (pi < length p \<and> p ! pi = 42)"
  shows "glob_spec (drop pi p) (drop ti t) \<longleftrightarrow>
    (case glob_step (drop pi p) (t ! ti) of Some n \<Rightarrow> glob_spec (drop (pi + n) p) (drop (ti + 1) t) | None \<Rightarrow> False)"
proof -
  have t: "drop ti t = t ! ti # drop (ti + 1) t" using assms(1) by (simp add: Cons_nth_drop_Suc)
  show ?thesis
  proof (cases "drop pi p")
    case Nil
    then show ?thesis by (simp add: t glob_spec_simps glob_step_def)
  next
    case (Cons x q)
    then have "pi < length p" "p ! pi = x" by (metis drop_eq_Nil list.distinct(1) not_le) (metis Cons nth_via_drop)
    with assms(2) have "x \<noteq> 42" by simp
    moreover have "drop n (x # q) = drop (pi + n) p" for n using Cons by (metis drop_drop add.commute)
    ultimately show ?thesis by (simp add: t Cons glob_spec_simps split: option.split)
  qed
qed

definition glob_target :: "bytes \<Rightarrow> bytes \<Rightarrow> nat \<Rightarrow> nat \<Rightarrow> (nat \<times> nat) option \<Rightarrow> bool" where
  "glob_target p t pi ti star =
     (case star of
        None \<Rightarrow> glob_spec (drop pi p) (drop ti t)
      | Some (sp, st) \<Rightarrow> \<exists>k\<ge>st. k \<le> length t \<and> glob_spec (drop (sp + 1) p) (drop k t))"

definition glob_inv :: "bytes \<Rightarrow> bytes \<Rightarrow> nat \<Rightarrow> nat \<Rightarrow> (nat \<times> nat) option \<Rightarrow> bool" where
  "glob_inv p t pi ti star \<longleftrightarrow>
     ti \<le> length t \<and>
     (case star of
        None \<Rightarrow> True
      | Some (sp, st) \<Rightarrow>
          st \<le> ti \<and> items_after p (sp + 1) (ti - st) = Some pi \<and>
          (glob_spec (drop pi p) (drop ti t) \<longrightarrow> glob_spec (drop (sp + 1) p) (drop st t)))"

lemma inv_spec:
  assumes "92 \<notin> set p" "glob_inv p t pi ti (Some (sp, st))" "k \<ge> st" "k \<le> length t"
    "glob_spec (drop (sp + 1) p) (drop k t)"
  shows "k + (ti - st) \<le> length t" "glob_spec (drop pi p) (drop (k + (ti - st)) t)"
  using glob_spec_items [OF assms(1) _ assms(5,4), of "ti - st" pi] assms(2) by (simp_all add: glob_inv_def)

lemma inv_new_star:
  assumes "92 \<notin> set p" "glob_inv p t pi ti star" "pi < length p" "p ! pi = 42"
  shows "glob_inv p t (pi + 1) ti (Some (pi, ti))"
    "glob_target p t (pi + 1) ti (Some (pi, ti)) = glob_target p t pi ti star"
proof -
  have ti: "ti \<le> length t" using assms(2) by (simp add: glob_inv_def)
  show "glob_inv p t (pi + 1) ti (Some (pi, ti))" using ti by (simp add: glob_inv_def)
  note star = spec_star_from [OF assms(3,4)]
  show "glob_target p t (pi + 1) ti (Some (pi, ti)) = glob_target p t pi ti star"
  proof (cases star)
    case None
    then show ?thesis using star [OF ti] by (simp add: glob_target_def)
  next
    case (Some s)
    obtain sp st where s: "star = Some (sp, st)" using Some by (cases s) simp
    have "\<exists>k\<ge>ti. k \<le> length t \<and> glob_spec (drop (pi + 1) p) (drop k t)"
      if k: "k \<ge> st" "k \<le> length t" "glob_spec (drop (sp + 1) p) (drop k t)" for k
    proof -
      note i = inv_spec [OF assms(1,2) [unfolded s] k]
      then obtain k' where k': "k' \<ge> k + (ti - st)" "k' \<le> length t" "glob_spec (drop (pi + 1) p) (drop k' t)"
        using star [OF i(1)] by blast
      have "ti \<le> k'" using k'(1) k(1) by simp
      with k' show ?thesis by blast
    qed
    moreover have "\<exists>k\<ge>st. k \<le> length t \<and> glob_spec (drop (sp + 1) p) (drop k t)"
      if "\<exists>k\<ge>ti. k \<le> length t \<and> glob_spec (drop (pi + 1) p) (drop k t)"
      using that star [OF ti] assms(2) by (auto simp: glob_inv_def s intro!: exI [of _ st])
    ultimately show ?thesis unfolding glob_target_def s by auto
  qed
qed

lemma inv_char:
  assumes "92 \<notin> set p" "glob_inv p t pi ti star" "ti < length t" "\<not> (pi < length p \<and> p ! pi = 42)"
    "glob_step (drop pi p) (t ! ti) = Some n"
  shows "glob_inv p t (pi + n) (ti + 1) star"
    "glob_target p t (pi + n) (ti + 1) star = glob_target p t pi ti star"
proof -
  have step: "glob_spec (drop pi p) (drop ti t) \<longleftrightarrow> glob_spec (drop (pi + n) p) (drop (ti + 1) t)"
    using spec_step_from [OF assms(3,4)] assms(5) by simp
  have ne: "drop pi p \<noteq> []" using assms(5) by (auto simp: glob_step_def)
  then have "hd (drop pi p) \<noteq> 42" using assms(4) by (auto simp: hd_drop_conv_nth)
  moreover have "92 \<notin> set (drop pi p)" using assms(1) in_set_dropD by metis
  ultimately have len: "item_length (drop pi p) = Some n" using glob_step_length [OF assms(5)] ne by blast
  show "glob_inv p t (pi + n) (ti + 1) star"
    using assms(2,3) step len
    by (auto simp: glob_inv_def Suc_diff_le split: option.splits)
  show "glob_target p t (pi + n) (ti + 1) star = glob_target p t pi ti star"
    using step by (auto simp: glob_target_def split: option.split)
qed

lemma inv_backtrack:
  assumes "92 \<notin> set p" "glob_inv p t pi ti (Some (sp, st))" "ti < length t" "\<not> (pi < length p \<and> p ! pi = 42)"
    "glob_step (drop pi p) (t ! ti) = None"
  shows "glob_inv p t (sp + 1) (st + 1) (Some (sp, st + 1))"
    "glob_target p t (sp + 1) (st + 1) (Some (sp, st + 1)) = glob_target p t pi ti (Some (sp, st))"
proof -
  have st: "st \<le> ti" using assms(2) by (simp add: glob_inv_def)
  then show "glob_inv p t (sp + 1) (st + 1) (Some (sp, st + 1))" using assms(3) by (simp add: glob_inv_def)
  have "\<not> glob_spec (drop pi p) (drop ti t)" using spec_step_from [OF assms(3,4)] assms(5) by simp
  then have "\<not> glob_spec (drop (sp + 1) p) (drop st t)"
    using inv_spec(2) [OF assms(1,2), of st] st assms(3) by auto
  then have "st + 1 \<le> k" if "st \<le> k" "glob_spec (drop (sp + 1) p) (drop k t)" for k
    using that by (cases "k = st") simp_all
  then show "glob_target p t (sp + 1) (st + 1) (Some (sp, st + 1)) = glob_target p t pi ti (Some (sp, st))"
    unfolding glob_target_def prod.case option.case by (meson add_leD1)
qed

lemma inv_end:
  assumes "92 \<notin> set p" "glob_inv p t pi ti star" "\<not> ti < length t"
  shows "glob_target p t pi ti star \<longleftrightarrow> dropWhile (\<lambda>c. c = 42) (drop pi p) = []"
proof -
  have ti: "ti = length t" using assms(2,3) by (simp add: glob_inv_def)
  show ?thesis
  proof (cases star)
    case None
    then show ?thesis by (simp add: glob_target_def ti glob_spec_end)
  next
    case (Some s)
    obtain sp st where s: "star = Some (sp, st)" using Some by (cases s) simp
    have st: "st \<le> length t" using assms(2) by (simp add: glob_inv_def s ti)
    have "glob_spec (drop pi p) []" if k: "k \<ge> st" "k \<le> length t" "glob_spec (drop (sp + 1) p) (drop k t)" for k
      using inv_spec [OF assms(1,2) [unfolded s] k] k(1) by (simp add: ti)
    moreover have "glob_spec (drop (sp + 1) p) (drop st t)" if "glob_spec (drop pi p) []"
      using that assms(2) by (simp add: glob_inv_def s ti)
    ultimately have "glob_target p t pi ti star \<longleftrightarrow> glob_spec (drop pi p) []"
      unfolding glob_target_def s option.case prod.case using st by blast
    then show ?thesis by (simp only: glob_spec_end)
  qed
qed

lemma glob_loop_target:
  assumes "92 \<notin> set p"
  shows "glob_inv p t pi ti star \<Longrightarrow> glob_loop p t pi ti star = Some (glob_target p t pi ti star)"
proof (induction "(pi, ti, star)" arbitrary: pi ti star rule: wf_induct_rule [OF wf_glob_order [of p t]])
  case 1
  note IH = 1(1) and inv = 1(2)
  show ?case
  proof (cases "ti < length t")
    case True
    note steps = glob_order_steps [OF True]
    consider (star) "pi < length p \<and> p ! pi = 42"
      | (char) n where "\<not> (pi < length p \<and> p ! pi = 42)" "glob_step (drop pi p) (t ! ti) = Some n"
      | (retry) sp st where "\<not> (pi < length p \<and> p ! pi = 42)" "glob_step (drop pi p) (t ! ti) = None" "star = Some (sp, st)"
      | (fail) "\<not> (pi < length p \<and> p ! pi = 42)" "glob_step (drop pi p) (t ! ti) = None" "star = None"
      by (cases "glob_step (drop pi p) (t ! ti)"; cases star) auto
    then show ?thesis
    proof cases
      case star
      then show ?thesis
        using IH [OF steps(1) inv_new_star(1) [OF assms inv]] inv_new_star(2) [OF assms inv] True
        by (subst glob_loop.simps) simp
    next
      case char
      then show ?thesis
        using IH [OF steps(2) inv_char(1) [OF assms inv True char]] inv_char(2) [OF assms inv True char] True
        by (subst glob_loop.simps) auto
    next
      case retry
      note inv' = inv [unfolded retry(3)]
      show ?thesis
        using IH [OF steps(3) [OF retry(3)] inv_backtrack(1) [OF assms inv' True retry(1,2)]]
          inv_backtrack(2) [OF assms inv' True retry(1,2)] True retry
        by (subst glob_loop.simps) auto
    next
      case fail
      then show ?thesis
        using spec_step_from [OF True fail(1)] True by (subst glob_loop.simps) (auto simp: glob_target_def)
    qed
  next
    case False
    then show ?thesis using inv_end [OF assms inv] by (subst glob_loop.simps) simp
  qed
qed

section \<open>Properties\<close>

text \<open>C22: glob matching always answers. The loop with its backtracking to the last star returns for every
  pattern and every text.\<close>

theorem glob_match_returns: "\<exists>b. glob_match p t = Some b"
  by (simp add: glob_match_def glob_inner_def glob_loop_returns)

text \<open>C21: remembering the last star only is enough. On a pattern without backslashes the loop answers
  as the recursive matching in which every star may take any number of bytes.\<close>

theorem glob_match_correct:
  assumes "92 \<notin> set p"
  shows "glob_match p t = Some (glob_spec p t)"
  using glob_loop_target [OF assms, of t 0 0 None]
  by (simp add: glob_match_def glob_inner_def glob_inv_def glob_target_def)

theorem glob_match_correct_witness: "glob_match [97, 42, 98, 42, 99] [97, 120, 98, 98, 121, 99] = Some True"
  using glob_match_correct [of "[97, 42, 98, 42, 99]" "[97, 120, 98, 98, 121, 99]"]
  by (simp add: glob_spec_simps glob_step_def)

lemma glob_loop_trailing_star:
  assumes "sp + 1 = length p" "st \<le> length t"
  shows "glob_loop p t (sp + 1) st (Some (sp, st)) = Some True"
  using assms
proof (induction "length t - st" arbitrary: st)
  case 0
  then show ?case by (subst glob_loop.simps) simp
next
  case (Suc n)
  then have "glob_loop p t (sp + 1) (st + 1) (Some (sp, st + 1)) = Some True" by simp
  with Suc show ?case by (subst glob_loop.simps) (simp add: glob_step_def)
qed

text \<open>C35: an escaped star is not always a literal star. The pattern backslash, star matches a text that begins
  with a backslash, whatever follows it.\<close>

theorem glob_escape_leaks: "glob_match [92, 42] (92 # t) = Some True"
proof -
  have "glob_loop [92, 42] (92 # t) 1 1 None = Some True"
  proof (cases t)
    case Nil
    then show ?thesis by (subst glob_loop.simps) simp
  next
    case (Cons c t')
    then show ?thesis
      using glob_loop_trailing_star [of 1 "[92, 42]" 1 "92 # t"] by (subst glob_loop.simps) simp
  qed
  then show ?thesis
    unfolding glob_match_def glob_inner_def by (subst glob_loop.simps) (simp add: glob_step_def)
qed

end
