(* ===== verification/Pubsub.thy ===== *)
theory Pubsub
  imports Glob "HOL-Library.AList"
begin

text \<open>
  \<open>marekvs-engine/src/pubsub.rs\<close>: the registry of subscriptions of one node and the delivery of a message. A hash
  map is an association list, whose order stands for the unspecified order of iteration. The sending half of
  a session's queue is a number; \<open>up tx\<close> says that the receiving half still exists, which is when
  \<open>UnboundedSender::send\<close> succeeds.
\<close>

section \<open>The registry\<close>

record pub_message =
  pm_pattern :: "bytes option"
  pm_channel :: bytes
  pm_payload :: bytes

type_synonym sender = nat
type_synonym subscribers = "(u64 \<times> sender) list"
type_synonym registry = "(bytes \<times> subscribers) list"

text \<open>Whether a hook for the other nodes is installed is \<open>ps_cluster\<close>.\<close>

record pubsub =
  ps_channels :: registry
  ps_patterns :: registry
  ps_cluster :: bool
  ps_next_id :: u64

definition pubsub_new :: pubsub where
  "pubsub_new = \<lparr>ps_channels = [], ps_patterns = [], ps_cluster = False, ps_next_id = 0\<rparr>"

definition new_subscriber_id :: "pubsub \<Rightarrow> pubsub \<times> u64" where
  "new_subscriber_id ps = (ps\<lparr>ps_next_id := ps_next_id ps + 1\<rparr>, ps_next_id ps)"

definition set_cluster_hook :: "pubsub \<Rightarrow> pubsub" where
  "set_cluster_hook ps = ps\<lparr>ps_cluster := True\<rparr>"

text \<open>\<open>entry(name).or_default().insert(id, tx)\<close> and the removal that drops a name without subscribers.\<close>

definition registry_insert :: "u64 \<Rightarrow> bytes \<Rightarrow> sender \<Rightarrow> registry \<Rightarrow> registry" where
  "registry_insert i name tx r =
     AList.update name (AList.update i tx (case map_of r name of Some subs \<Rightarrow> subs | None \<Rightarrow> [])) r"

definition registry_remove :: "u64 \<Rightarrow> bytes \<Rightarrow> registry \<Rightarrow> registry" where
  "registry_remove i name r =
     (case map_of r name of
        Some subs \<Rightarrow>
          let subs' = AList.delete i subs
          in if subs' = [] then AList.delete name r else AList.update name subs' r
      | None \<Rightarrow> r)"

definition subscribe :: "u64 \<Rightarrow> bytes \<Rightarrow> sender \<Rightarrow> pubsub \<Rightarrow> pubsub" where
  "subscribe i channel tx ps = ps\<lparr>ps_channels := registry_insert i channel tx (ps_channels ps)\<rparr>"

definition unsubscribe :: "u64 \<Rightarrow> bytes \<Rightarrow> pubsub \<Rightarrow> pubsub" where
  "unsubscribe i channel ps = ps\<lparr>ps_channels := registry_remove i channel (ps_channels ps)\<rparr>"

definition psubscribe :: "u64 \<Rightarrow> bytes \<Rightarrow> sender \<Rightarrow> pubsub \<Rightarrow> pubsub" where
  "psubscribe i pattern tx ps = ps\<lparr>ps_patterns := registry_insert i pattern tx (ps_patterns ps)\<rparr>"

definition punsubscribe :: "u64 \<Rightarrow> bytes \<Rightarrow> pubsub \<Rightarrow> pubsub" where
  "punsubscribe i pattern ps = ps\<lparr>ps_patterns := registry_remove i pattern (ps_patterns ps)\<rparr>"

section \<open>Delivery\<close>

definition send_all :: "(sender \<Rightarrow> bool) \<Rightarrow> pub_message \<Rightarrow> subscribers \<Rightarrow> (sender \<times> pub_message) list" where
  "send_all up msg subs = map (\<lambda>(_, tx). (tx, msg)) (filter (\<lambda>(_, tx). up tx) subs)"

text \<open>The messages sent; the code returns their number.\<close>

definition publish_local :: "(sender \<Rightarrow> bool) \<Rightarrow> bytes \<Rightarrow> bytes \<Rightarrow> pubsub \<Rightarrow> (sender \<times> pub_message) list" where
  "publish_local up channel payload ps =
     (case map_of (ps_channels ps) channel of
        Some subs \<Rightarrow> send_all up \<lparr>pm_pattern = None, pm_channel = channel, pm_payload = payload\<rparr> subs
      | None \<Rightarrow> []) @
     concat (map (\<lambda>(pat, subs).
         if glob_match pat channel = Some True
         then send_all up \<lparr>pm_pattern = Some pat, pm_channel = channel, pm_payload = payload\<rparr> subs else [])
       (ps_patterns ps))"

text \<open>The local messages, and what goes to the hook.\<close>

definition publish :: "(sender \<Rightarrow> bool) \<Rightarrow> bytes \<Rightarrow> bytes \<Rightarrow> pubsub \<Rightarrow> (sender \<times> pub_message) list \<times> (bytes \<times> bytes) option" where
  "publish up channel payload ps =
     (publish_local up channel payload ps, if ps_cluster ps then Some (channel, payload) else None)"

definition channels_matching :: "bytes option \<Rightarrow> pubsub \<Rightarrow> bytes list" where
  "channels_matching pattern ps =
     filter (\<lambda>c. case pattern of None \<Rightarrow> True | Some p \<Rightarrow> glob_match p c = Some True) (map fst (ps_channels ps))"

definition numsub :: "bytes \<Rightarrow> pubsub \<Rightarrow> nat" where
  "numsub channel ps = (case map_of (ps_channels ps) channel of None \<Rightarrow> 0 | Some s \<Rightarrow> length s)"

definition numpat :: "pubsub \<Rightarrow> nat" where
  "numpat ps = length (ps_patterns ps)"

definition drop_session :: "u64 \<Rightarrow> bytes list \<Rightarrow> bytes list \<Rightarrow> pubsub \<Rightarrow> pubsub" where
  "drop_session i channels patterns ps =
     foldl (\<lambda>s p. punsubscribe i p s) (foldl (\<lambda>s c. unsubscribe i c s) ps channels) patterns"

section \<open>The registry is a table of subscriptions\<close>

definition registry_ok :: "registry \<Rightarrow> bool" where
  "registry_ok r \<longleftrightarrow> distinct (map fst r) \<and> (\<forall>(name, subs)\<in>set r. subs \<noteq> [] \<and> distinct (map fst subs))"

definition subscription :: "registry \<Rightarrow> bytes \<Rightarrow> u64 \<Rightarrow> sender option" where
  "subscription r name i = Option.bind (map_of r name) (\<lambda>subs. map_of subs i)"

lemma in_registry_ok:
  "registry_ok r \<Longrightarrow> map_of r name = Some subs \<Longrightarrow> subs \<noteq> [] \<and> distinct (map fst subs)"
  by (auto simp: registry_ok_def dest: map_of_SomeD)

lemma set_update_distinct: "distinct (map fst r) \<Longrightarrow> set (AList.update k v r) = insert (k, v) {x \<in> set r. fst x \<noteq> k}"
  by (induction r) (auto simp: rev_image_eqI)

lemma registry_insert_ok:
  assumes "registry_ok r"
  shows "registry_ok (registry_insert i name tx r)"
    "subscription (registry_insert i name tx r) n j =
       (if n = name \<and> j = i then Some tx else subscription r n j)"
proof -
  let ?s = "case map_of r name of Some subs \<Rightarrow> subs | None \<Rightarrow> []"
  have s: "distinct (map fst ?s)" using in_registry_ok [OF assms] by (auto split: option.split)
  have "AList.update i tx ?s \<noteq> []" by (cases ?s) auto
  with s assms show "registry_ok (registry_insert i name tx r)"
    by (auto simp: registry_ok_def registry_insert_def set_update_distinct distinct_update)
  show "subscription (registry_insert i name tx r) n j =
       (if n = name \<and> j = i then Some tx else subscription r n j)"
    by (auto simp: subscription_def registry_insert_def update_conv' split: option.split)
qed

lemma registry_remove_ok:
  assumes "registry_ok r"
  shows "registry_ok (registry_remove i name r)"
    "subscription (registry_remove i name r) n j = (if n = name \<and> j = i then None else subscription r n j)"
proof -
  show "registry_ok (registry_remove i name r)"
  proof (cases "map_of r name")
    case (Some subs)
    have "distinct (map fst (AList.delete i subs))" using in_registry_ok [OF assms Some] by (simp add: distinct_delete)
    moreover have "set (AList.delete name r) \<subseteq> set r" by (auto simp: AList.delete_eq)
    ultimately show ?thesis
      using Some assms
      by (auto simp: registry_ok_def registry_remove_def Let_def set_update_distinct distinct_update distinct_delete)
  qed (use assms in \<open>simp add: registry_remove_def\<close>)
  have "map_of subs j = None" if "AList.delete i subs = []" "j \<noteq> i" for subs :: subscribers and j
    using delete_conv' [of i subs] that by (metis fun_upd_apply map_of.simps(1))
  then show "subscription (registry_remove i name r) n j = (if n = name \<and> j = i then None else subscription r n j)"
    by (auto simp: subscription_def registry_remove_def Let_def update_conv' delete_conv' split: option.split)
qed

section \<open>Sequences of operations\<close>

datatype ps_op =
  Op_Subscribe u64 bytes sender
| Op_Unsubscribe u64 bytes
| Op_Psubscribe u64 bytes sender
| Op_Punsubscribe u64 bytes
| Op_Drop u64 "bytes list" "bytes list"

fun ps_step :: "pubsub \<Rightarrow> ps_op \<Rightarrow> pubsub" where
  "ps_step ps (Op_Subscribe i c tx) = subscribe i c tx ps"
| "ps_step ps (Op_Unsubscribe i c) = unsubscribe i c ps"
| "ps_step ps (Op_Psubscribe i p tx) = psubscribe i p tx ps"
| "ps_step ps (Op_Punsubscribe i p) = punsubscribe i p ps"
| "ps_step ps (Op_Drop i cs pats) = drop_session i cs pats ps"

text \<open>The specification: who listens to which channel and to which pattern.\<close>

type_synonym table = "bytes \<Rightarrow> u64 \<Rightarrow> sender option"

definition tab_set :: "bytes \<Rightarrow> u64 \<Rightarrow> sender option \<Rightarrow> table \<Rightarrow> table" where
  "tab_set name i v t = (\<lambda>n j. if n = name \<and> j = i then v else t n j)"

definition tab_drop :: "bytes list \<Rightarrow> u64 \<Rightarrow> table \<Rightarrow> table" where
  "tab_drop names i t = (\<lambda>n j. if n \<in> set names \<and> j = i then None else t n j)"

fun tab_step :: "table \<times> table \<Rightarrow> ps_op \<Rightarrow> table \<times> table" where
  "tab_step (ct, pt) (Op_Subscribe i c tx) = (tab_set c i (Some tx) ct, pt)"
| "tab_step (ct, pt) (Op_Unsubscribe i c) = (tab_set c i None ct, pt)"
| "tab_step (ct, pt) (Op_Psubscribe i p tx) = (ct, tab_set p i (Some tx) pt)"
| "tab_step (ct, pt) (Op_Punsubscribe i p) = (ct, tab_set p i None pt)"
| "tab_step (ct, pt) (Op_Drop i cs pats) = (tab_drop cs i ct, tab_drop pats i pt)"

definition ps_inv :: "pubsub \<Rightarrow> table \<times> table \<Rightarrow> bool" where
  "ps_inv ps t \<longleftrightarrow> registry_ok (ps_channels ps) \<and> registry_ok (ps_patterns ps) \<and>
     subscription (ps_channels ps) = fst t \<and> subscription (ps_patterns ps) = snd t"

lemma tab_drop_Cons: "tab_drop (n # ns) i t = tab_drop ns i (tab_set n i None t)"
  by (auto simp: tab_drop_def tab_set_def fun_eq_iff)

lemma unsubscribe_all:
  "ps_inv ps (ct, pt) \<Longrightarrow> ps_inv (foldl (\<lambda>s c. unsubscribe i c s) ps cs) (tab_drop cs i ct, pt)"
proof (induction cs arbitrary: ps ct)
  case (Cons c cs)
  have "ps_inv (unsubscribe i c ps) (tab_set c i None ct, pt)"
    using Cons.prems by (auto simp: ps_inv_def unsubscribe_def registry_remove_ok tab_set_def fun_eq_iff)
  from Cons.IH [OF this] show ?case by (simp add: tab_drop_Cons)
qed (simp add: tab_drop_def)

lemma punsubscribe_all:
  "ps_inv ps (ct, pt) \<Longrightarrow> ps_inv (foldl (\<lambda>s p. punsubscribe i p s) ps pats) (ct, tab_drop pats i pt)"
proof (induction pats arbitrary: ps pt)
  case (Cons p pats)
  have "ps_inv (punsubscribe i p ps) (ct, tab_set p i None pt)"
    using Cons.prems by (auto simp: ps_inv_def punsubscribe_def registry_remove_ok tab_set_def fun_eq_iff)
  from Cons.IH [OF this] show ?case by (simp add: tab_drop_Cons)
qed (simp add: tab_drop_def)

lemma ps_step_inv: "ps_inv ps t \<Longrightarrow> ps_inv (ps_step ps op) (tab_step t op)"
proof (cases op)
  case (Op_Drop i cs pats)
  then show "ps_inv ps t \<Longrightarrow> ?thesis"
    using unsubscribe_all punsubscribe_all by (cases t) (simp add: drop_session_def)
qed (cases t; auto simp: ps_inv_def subscribe_def unsubscribe_def psubscribe_def punsubscribe_def
    registry_insert_ok registry_remove_ok tab_set_def fun_eq_iff)+

lemma ps_run_inv: "ps_inv ps t \<Longrightarrow> ps_inv (foldl ps_step ps ops) (foldl tab_step t ops)"
  by (induction ops arbitrary: ps t) (simp_all add: ps_step_inv)

lemma ps_inv_new: "ps_inv pubsub_new (\<lambda>_ _. None, \<lambda>_ _. None)"
  by (simp add: ps_inv_def pubsub_new_def registry_ok_def subscription_def fun_eq_iff)

section \<open>Who receives a message\<close>

lemma send_all_set: "distinct (map fst subs) \<Longrightarrow> set (send_all up m subs) = {(tx, m) | tx i. map_of subs i = Some tx \<and> up tx}"
  by (auto simp: send_all_def image_iff)

lemma send_all_length:
  assumes "distinct (map fst subs)"
  shows "length (send_all up m subs) = card {i. \<exists>tx. map_of subs i = Some tx \<and> up tx}"
proof -
  have "{i. \<exists>tx. map_of subs i = Some tx \<and> up tx} = set (map fst (filter (\<lambda>(_, tx). up tx) subs))"
    using assms by (force simp: map_of_eq_Some_iff)
  then show ?thesis
    using assms by (simp add: send_all_def distinct_card distinct_map_filter del: set_map set_filter)
qed

definition direct_ids :: "(sender \<Rightarrow> bool) \<Rightarrow> table \<Rightarrow> bytes \<Rightarrow> u64 set" where
  "direct_ids up t channel = {i. \<exists>tx. t channel i = Some tx \<and> up tx}"

definition pattern_ids :: "(sender \<Rightarrow> bool) \<Rightarrow> table \<Rightarrow> bytes \<Rightarrow> (bytes \<times> u64) set" where
  "pattern_ids up t channel = {(p, i). glob_match p channel = Some True \<and> (\<exists>tx. t p i = Some tx \<and> up tx)}"

lemma direct_part:
  assumes "registry_ok r"
  shows "length (case map_of r c of Some subs \<Rightarrow> send_all up m subs | None \<Rightarrow> []) = card (direct_ids up (subscription r) c)"
    "set (case map_of r c of Some subs \<Rightarrow> send_all up m subs | None \<Rightarrow> []) =
       {(tx, m) | tx i. subscription r c i = Some tx \<and> up tx}"
  using in_registry_ok [OF assms, of c]
  by (cases "map_of r c"; simp add: direct_ids_def subscription_def send_all_length send_all_set)+

lemma pattern_part:
  assumes "registry_ok r"
  shows "length (concat (map (\<lambda>(p, subs). if glob_match p c = Some True then send_all up (m p) subs else []) r)) =
      card (pattern_ids up (subscription r) c)"
  using assms
proof (induction r)
  case Nil
  then show ?case by (simp add: pattern_ids_def subscription_def)
next
  case (Cons x r)
  obtain p subs where x: "x = (p, subs)" by (cases x)
  have ok: "registry_ok r" "distinct (map fst subs)" "map_of r p = None"
    using Cons.prems by (auto simp: registry_ok_def x map_of_eq_None_iff)
  let ?new = "Pair p ` {i. glob_match p c = Some True \<and> (\<exists>tx. map_of subs i = Some tx \<and> up tx)}"
  have "finite (dom (map_of subs))" by (rule finite_dom_map_of)
  then have fin: "finite ?new" by (rule finite_imageI [OF finite_subset [rotated]]) auto
  have "pattern_ids up (subscription r) c \<subseteq> (SIGMA p:dom (map_of r). (\<Union>subs\<in>ran (map_of r). dom (map_of subs)))"
    by (auto simp: pattern_ids_def subscription_def bind_eq_Some_conv ran_def)
  then have fin': "finite (pattern_ids up (subscription r) c)"
    by (rule finite_subset) (auto simp: finite_dom_map_of finite_ran)
  have "pattern_ids up (subscription (x # r)) c = ?new \<union> pattern_ids up (subscription r) c"
    using ok(3) by (auto simp: pattern_ids_def subscription_def x split: if_splits)
  moreover have "?new \<inter> pattern_ids up (subscription r) c = {}"
    using ok(3) by (auto simp: pattern_ids_def subscription_def)
  ultimately have "card (pattern_ids up (subscription (x # r)) c) = card ?new + card (pattern_ids up (subscription r) c)"
    using fin fin' by (simp add: card_Un_disjoint)
  moreover have "card ?new = (if glob_match p c = Some True then length (send_all up (m p) subs) else 0)"
    using send_all_length [OF ok(2)] by (simp add: card_image inj_on_def)
  ultimately show ?case using Cons.IH [OF ok(1)] by (simp add: x)
qed

lemma pattern_part_set:
  assumes "registry_ok r"
  shows "set (concat (map (\<lambda>(p, subs). if glob_match p c = Some True then send_all up (m p) subs else []) r)) =
      {(tx, m p) | tx p i. subscription r p i = Some tx \<and> up tx \<and> glob_match p c = Some True}"
proof -
  have d: "distinct (map fst r)" and subs: "(p, s) \<in> set r \<Longrightarrow> distinct (map fst s)" for p s
    using assms by (auto simp: registry_ok_def)
  have "set (concat (map (\<lambda>(p, subs). if glob_match p c = Some True then send_all up (m p) subs else []) r)) =
      (\<Union>(p, subs)\<in>set r. if glob_match p c = Some True then set (send_all up (m p) subs) else {})"
    by (auto split: if_splits)
  also have "\<dots> = (\<Union>(p, subs)\<in>set r. {(tx, m p) | tx i. map_of subs i = Some tx \<and> up tx \<and> glob_match p c = Some True})"
    by (intro SUP_cong refl) (clarsimp simp: send_all_set [OF subs] split del: if_split split: if_split)
  also have "\<dots> = {(tx, m p) | tx p i. subscription r p i = Some tx \<and> up tx \<and> glob_match p c = Some True}"
    using d by (auto simp: subscription_def bind_eq_Some_conv map_of_eq_Some_iff)
  finally show ?thesis .
qed

lemma numsub_card:
  assumes "registry_ok r"
  shows "(case map_of r c of None \<Rightarrow> 0 | Some s \<Rightarrow> length s) = card {i. subscription r c i \<noteq> None}"
proof (cases "map_of r c")
  case (Some s)
  then have "distinct (map fst s)" using in_registry_ok [OF assms] by blast
  then have "length s = card (dom (map_of s))" by (simp add: dom_map_of_conv_image_fst) (metis distinct_card length_map set_map)
  then show ?thesis using Some by (simp add: subscription_def dom_def)
qed (simp add: subscription_def)

lemma registry_names:
  assumes "registry_ok r"
  shows "set (map fst r) = {c. \<exists>i. subscription r c i \<noteq> None}"
proof -
  have "\<exists>i. map_of s i \<noteq> None" if "map_of r c = Some s" for c s
    using in_registry_ok [OF assms that] by (cases s) auto
  then have "c \<in> dom (map_of r) \<longleftrightarrow> (\<exists>i. subscription r c i \<noteq> None)" for c
    by (cases "map_of r c") (auto simp: subscription_def)
  then show ?thesis by (simp add: dom_map_of_conv_image_fst set_eq_iff)
qed

text \<open>C9: the registry is a table of subscriptions. After any sequence of subscribes, unsubscribes and dropped
  sessions, publishing sends one message to every subscription of the channel and one to every pattern
  subscription whose pattern matches, on the sessions that still listen, and to nobody else; and the counts
  that the introspection commands report, and the channel names that a query without a pattern lists, are those
  of the table.\<close>

theorem pubsub_refines_table:
  "let ps = foldl ps_step pubsub_new ops;
       (ct, pt) = foldl tab_step (\<lambda>_ _. None, \<lambda>_ _. None) ops;
       ms = publish_local up channel payload ps;
       msg = (\<lambda>p. \<lparr>pm_pattern = p, pm_channel = channel, pm_payload = payload\<rparr>)
   in set ms = {(tx, msg None) | tx i. ct channel i = Some tx \<and> up tx} \<union>
        {(tx, msg (Some p)) | tx p i. pt p i = Some tx \<and> up tx \<and> glob_match p channel = Some True} \<and>
      length ms = card (direct_ids up ct channel) + card (pattern_ids up pt channel) \<and>
      numsub channel ps = card {i. ct channel i \<noteq> None} \<and>
      numpat ps = card {p. \<exists>i. pt p i \<noteq> None} \<and>
      set (channels_matching None ps) = {c. \<exists>i. ct c i \<noteq> None}"
proof -
  obtain ct pt where t: "foldl tab_step (\<lambda>_ _. None, \<lambda>_ _. None) ops = (ct, pt)" by fastforce
  let ?ps = "foldl ps_step pubsub_new ops"
  have ok: "registry_ok (ps_channels ?ps)" "registry_ok (ps_patterns ?ps)"
    and tab: "subscription (ps_channels ?ps) = ct" "subscription (ps_patterns ?ps) = pt"
    using ps_run_inv [OF ps_inv_new, of ops] by (simp_all add: ps_inv_def t)
  have "numpat ?ps = card (set (map fst (ps_patterns ?ps)))"
    using ok(2) distinct_card [of "map fst (ps_patterns ?ps)"] by (simp add: numpat_def registry_ok_def del: set_map)
  then have "numpat ?ps = card {p. \<exists>i. pt p i \<noteq> None}"
    by (simp only: registry_names [OF ok(2), unfolded tab(2)])
  moreover have "numsub channel ?ps = card {i. ct channel i \<noteq> None}"
    unfolding numsub_def by (rule numsub_card [OF ok(1), unfolded tab(1)])
  moreover have "set (channels_matching None ?ps) = {c. \<exists>i. ct c i \<noteq> None}"
    using registry_names [OF ok(1), unfolded tab(1)] by (simp add: channels_matching_def)
  moreover note direct_part [OF ok(1), unfolded tab(1)] pattern_part [OF ok(2), unfolded tab(2)]
    pattern_part_set [OF ok(2), unfolded tab(2)]
  ultimately show ?thesis
    by (simp only: t Let_def prod.case publish_local_def set_append length_append)
qed

end
