(* ===== verification/Store.thy ===== *)
theory Store
  imports Ikey Budget_Records Hlc "HOL-Library.RBT"
begin

text \<open>
  \<open>marekvs-engine/src/store.rs\<close>: what one storage shard reads and writes. The data column family of ondaDB is
  an ordered map from keys to values; reads, writes, deletes and bounded iteration have their documented
  meaning, on a database that reports no error. The physical expiry that ondaDB applies after the deadline of a
  record plus the grace period is left out, as is the commit hook. The system clock is an argument \<open>now\<close>, read
  once per operation.
\<close>

section \<open>The shard\<close>

record shard =
  sh_data :: "(bytes, bytes) rbt"
  sh_hlc :: u64
  sh_node_id :: node_id
  sh_epoch :: u64
  sh_pop_hints :: "(bytes, bytes) rbt"

text \<open>\<open>ctx.hlc.now()\<close>.\<close>

definition shard_hlc_now :: "u64 \<Rightarrow> shard \<Rightarrow> shard \<times> u64" where
  "shard_hlc_now now ctx = (let (st, t) = hlc_now now (sh_hlc ctx) in (ctx\<lparr>sh_hlc := st\<rparr>, t))"

definition get_raw :: "shard \<Rightarrow> bytes \<Rightarrow> bytes option" where
  "get_raw ctx k = RBT.lookup (sh_data ctx) k"

definition put_raw :: "bytes \<Rightarrow> bytes \<Rightarrow> shard \<Rightarrow> shard" where
  "put_raw k v ctx = ctx\<lparr>sh_data := RBT.insert k v (sh_data ctx)\<rparr>"

definition del_raw :: "bytes \<Rightarrow> shard \<Rightarrow> shard" where
  "del_raw k ctx = ctx\<lparr>sh_data := RBT.delete k (sh_data ctx)\<rparr>"

section \<open>Scans\<close>

text \<open>The loop of \<open>prefix_upper_bound\<close> on the bytes from the last one.\<close>

fun upper_bound_rev :: "bytes \<Rightarrow> bytes option" where
  "upper_bound_rev [] = None"
| "upper_bound_rev (b # bs) = (if b = 255 then upper_bound_rev bs else Some (rev ((b + 1) # bs)))"

definition prefix_upper_bound :: "bytes \<Rightarrow> bytes option" where
  "prefix_upper_bound p = upper_bound_rev (rev p)"

definition below :: "bytes \<Rightarrow> bytes option \<Rightarrow> bool" where
  "below k upper = (case upper of Some u \<Rightarrow> k < u | None \<Rightarrow> True)"

definition bounded_iter :: "bytes \<Rightarrow> bytes option \<Rightarrow> shard \<Rightarrow> (bytes \<times> bytes) list" where
  "bounded_iter lower upper ctx =
     filter (\<lambda>(k, _). lower \<le> k \<and> below k upper) (RBT.entries (sh_data ctx))"

text \<open>The entries a scan would visit, and the loop over them; the callback says whether to go on.\<close>

definition scan_range :: "bytes \<Rightarrow> bytes \<Rightarrow> shard \<Rightarrow> (bytes \<times> bytes) list" where
  "scan_range start pre ctx =
     takeWhile (\<lambda>(k, _). prefix pre k) (bounded_iter start (prefix_upper_bound pre) ctx)"

fun scan_loop :: "(bytes \<Rightarrow> bytes \<Rightarrow> 'a \<Rightarrow> 'a \<times> bool) \<Rightarrow> (bytes \<times> bytes) list \<Rightarrow> 'a \<Rightarrow> 'a" where
  "scan_loop f [] acc = acc"
| "scan_loop f ((k, v) # rest) acc =
     (let (acc', continue) = f k v acc in if continue then scan_loop f rest acc' else acc')"

definition scan_from :: "bytes \<Rightarrow> bytes \<Rightarrow> (bytes \<Rightarrow> bytes \<Rightarrow> 'a \<Rightarrow> 'a \<times> bool) \<Rightarrow> shard \<Rightarrow> 'a \<Rightarrow> 'a" where
  "scan_from start pre f ctx acc = scan_loop f (scan_range start pre ctx) acc"

definition scan_prefix :: "bytes \<Rightarrow> (bytes \<Rightarrow> bytes \<Rightarrow> 'a \<Rightarrow> 'a \<times> bool) \<Rightarrow> shard \<Rightarrow> 'a \<Rightarrow> 'a" where
  "scan_prefix pre f ctx acc = scan_loop f (scan_range pre pre ctx) acc"

section \<open>Pop cursors\<close>

datatype pop_hint = At bytes | Empty

definition get_pop_hint :: "shard \<Rightarrow> bytes \<Rightarrow> pop_hint option" where
  "get_pop_hint ctx p =
     map_option (\<lambda>v. if v = [] then Empty else At v) (RBT.lookup (sh_pop_hints ctx) p)"

definition set_pop_hint :: "bytes \<Rightarrow> bytes \<Rightarrow> shard \<Rightarrow> shard" where
  "set_pop_hint p last_key ctx = ctx\<lparr>sh_pop_hints := RBT.insert p last_key (sh_pop_hints ctx)\<rparr>"

definition set_pop_hint_empty :: "bytes \<Rightarrow> shard \<Rightarrow> shard" where
  "set_pop_hint_empty p ctx = ctx\<lparr>sh_pop_hints := RBT.insert p [] (sh_pop_hints ctx)\<rparr>"

definition clear_pop_hint :: "bytes \<Rightarrow> shard \<Rightarrow> shard" where
  "clear_pop_hint p ctx = ctx\<lparr>sh_pop_hints := RBT.delete p (sh_pop_hints ctx)\<rparr>"

definition pop_hint_on_insert :: "bytes \<Rightarrow> bytes \<Rightarrow> shard \<Rightarrow> shard" where
  "pop_hint_on_insert p element_key ctx =
     (case RBT.lookup (sh_pop_hints ctx) p of
        Some hint \<Rightarrow>
          if hint = [] \<or> element_key < hint
          then ctx\<lparr>sh_pop_hints := RBT.insert p element_key (sh_pop_hints ctx)\<rparr> else ctx
      | None \<Rightarrow> ctx)"

section \<open>Merged writes\<close>

definition merge_outcome_for :: "bytes \<Rightarrow> bytes \<Rightarrow> bytes \<Rightarrow> merge_outcome" where
  "merge_outcome_for ikey local incoming =
     (case ikey_parse ikey of
        Some p \<Rightarrow>
          if pk_tag p = tag_code Tag_Budget \<and> pk_suffix p \<noteq> []
          then merge_budget (pk_suffix p ! 0) local incoming else merge_values local incoming
      | None \<Rightarrow> merge_values local incoming)"

definition set_member_hook :: "bytes \<Rightarrow> bytes \<Rightarrow> shard \<Rightarrow> shard" where
  "set_member_hook ikey incoming ctx =
     (case ikey_parse ikey of
        Some p \<Rightarrow>
          if pk_tag p = tag_code Tag_SetMember \<and>
             (case envelope_decode incoming of Some (e, _) \<Rightarrow> \<not> is_tombstone e | None \<Rightarrow> False)
          then pop_hint_on_insert (collection_prefix Tag_SetMember (pk_userkey p)) ikey ctx else ctx
      | None \<Rightarrow> ctx)"

definition write_merged :: "bytes \<Rightarrow> bytes \<Rightarrow> shard \<Rightarrow> shard \<times> bool" where
  "write_merged ikey incoming ctx =
     (let (ctx', changed) =
        (case get_raw ctx ikey of
           None \<Rightarrow> (put_raw ikey incoming ctx, True)
         | Some local \<Rightarrow>
             (case merge_outcome_for ikey local incoming of
                KeepLocal \<Rightarrow> (ctx, False)
              | outcome \<Rightarrow> (put_raw ikey (resolve local incoming outcome) ctx, True)))
      in (if changed then set_member_hook ikey incoming ctx' else ctx', changed))"

section \<open>Visibility, heads and types\<close>

definition visible :: "envelope \<Rightarrow> bytes \<Rightarrow> u64 \<Rightarrow> u64 \<Rightarrow> bytes option" where
  "visible env payload del_hlc now =
     (if is_tombstone env \<or> is_expired env now \<or> hlc env \<le> del_hlc then None else Some payload)"

definition get_head :: "shard \<Rightarrow> bytes \<Rightarrow> (envelope \<times> u8 \<times> u64) option" where
  "get_head ctx userkey =
     (case Option.bind (get_raw ctx (head_key userkey)) envelope_decode of
        None \<Rightarrow> None
      | Some (env, pay) \<Rightarrow> map_option (\<lambda>(ctype, del_hlc). (env, ctype, del_hlc)) (head_decode pay))"

definition lww_visible :: "u64 \<Rightarrow> bytes option \<Rightarrow> bool" where
  "lww_visible now v =
     (case Option.bind v envelope_decode of Some (env, pay) \<Rightarrow> visible env pay 0 now \<noteq> None | None \<Rightarrow> False)"

definition collection_tag :: "u8 \<Rightarrow> tag option" where
  "collection_tag ctype =
     (if ctype = CTYPE_HASH then Some Tag_HashField
      else if ctype = CTYPE_SET then Some Tag_SetMember
      else if ctype = CTYPE_ZSET then Some Tag_ZsetMember
      else if ctype = CTYPE_STREAM then Some Tag_StreamEntry
      else if ctype = CTYPE_HLL then Some Tag_HllRegister
      else if ctype = CTYPE_LIST then Some Tag_ListElem
      else if ctype = CTYPE_JSON then Some Tag_Json
      else None)"

definition collection_nonempty :: "u64 \<Rightarrow> shard \<Rightarrow> u8 \<Rightarrow> bytes \<Rightarrow> u64 \<Rightarrow> bool" where
  "collection_nonempty now ctx ctype userkey del_hlc =
     (case collection_tag ctype of
        None \<Rightarrow> ctype = CTYPE_BUDGET \<or> ctype = CTYPE_PROTO
      | Some t \<Rightarrow>
          scan_prefix (collection_prefix t userkey)
            (\<lambda>_ v found. case envelope_decode v of
               Some (env, pay) \<Rightarrow> if visible env pay del_hlc now \<noteq> None then (True, False) else (found, True)
             | None \<Rightarrow> (found, True)) ctx False)"

definition key_type :: "u64 \<Rightarrow> shard \<Rightarrow> bytes \<Rightarrow> u8 option" where
  "key_type now ctx userkey =
     (if lww_visible now (get_raw ctx (string_key userkey)) then Some 115
      else if (case get_head ctx userkey of
                 Some (env, ctype, del_hlc) \<Rightarrow>
                   \<not> is_tombstone env \<and> \<not> is_expired env now \<and> collection_nonempty now ctx ctype userkey del_hlc
               | None \<Rightarrow> False)
      then map_option (\<lambda>(_, ctype, _). ctype) (get_head ctx userkey)
      else if lww_visible now (get_raw ctx (list_key userkey)) then Some 108
      else None)"

text \<open>The delete clock a head stands for: its own, raised by its tombstone and by its expiry.\<close>

definition head_del :: "u64 \<Rightarrow> envelope \<Rightarrow> u64 \<Rightarrow> u64" where
  "head_del now env del =
     (let d = (if is_tombstone env then max del (hlc env) else del)
      in if is_expired env now then max d (expiry_hlc env) else d)"

definition ensure_head :: "u64 \<Rightarrow> bytes \<Rightarrow> u8 \<Rightarrow> shard \<Rightarrow> shard \<times> u64" where
  "ensure_head now userkey ctype ctx =
     (let fresh = (\<lambda>prev_del.
        let (ctx', h) = shard_hlc_now now ctx;
            val = encode_with (envelope_head h (sh_node_id ctx')) (head_encode ctype prev_del)
        in (fst (write_merged (head_key userkey) val ctx'), prev_del))
      in case get_head ctx userkey of
           Some (env, t, del) \<Rightarrow>
             if t = ctype \<and> \<not> is_tombstone env \<and> \<not> is_expired env now then (ctx, del)
             else fresh (head_del now env del)
         | None \<Rightarrow> fresh 0)"

definition record_live :: "u64 \<Rightarrow> shard \<Rightarrow> bytes \<Rightarrow> bool" where
  "record_live now ctx ikey =
     (case Option.bind (get_raw ctx ikey) envelope_decode of
        Some (e, _) \<Rightarrow> \<not> is_tombstone e \<and> \<not> is_expired e now
      | None \<Rightarrow> False)"

definition head_live :: "u64 \<Rightarrow> shard \<Rightarrow> bytes \<Rightarrow> bool" where
  "head_live now ctx userkey =
     (case get_head ctx userkey of Some (e, _, _) \<Rightarrow> \<not> is_tombstone e \<and> \<not> is_expired e now | None \<Rightarrow> False)"

text \<open>\<open>None\<close> is the type error; \<open>115\<close> and \<open>108\<close> are the codes of strings and lists.\<close>

definition check_type :: "u64 \<Rightarrow> shard \<Rightarrow> bytes \<Rightarrow> u8 \<Rightarrow> u64 option" where
  "check_type now ctx userkey want =
     (if want = 115
      then if head_live now ctx userkey \<or> record_live now ctx (list_key userkey) then None else Some 0
      else if want = 108
      then if head_live now ctx userkey \<or> record_live now ctx (string_key userkey) then None else Some 0
      else if record_live now ctx (string_key userkey) \<or> record_live now ctx (list_key userkey) then None
      else case get_head ctx userkey of
             Some (env, t, del) \<Rightarrow>
               if (\<not> is_tombstone env \<and> \<not> is_expired env now) \<and> t \<noteq> want then None
               else Some (head_del now env del)
           | None \<Rightarrow> Some 0)"

text \<open>\<open>del_key_hlc\<close> of \<open>cmd/generic.rs\<close>: the delete clock stamped, \<open>None\<close> when the key is absent.\<close>

definition del_key_hlc :: "u64 \<Rightarrow> bytes \<Rightarrow> shard \<Rightarrow> shard \<times> u64 option" where
  "del_key_hlc now key ctx =
     (case key_type now ctx key of
        None \<Rightarrow> (ctx, None)
      | Some ctype \<Rightarrow>
          let (ctx', h) = shard_hlc_now now ctx
          in if ctype = 115
             then let tomb = encode_with (envelope_tombstone RT_String h (sh_node_id ctx')) []
                  in (fst (write_merged (string_key key) tomb ctx'), Some h)
             else let env = \<lparr>flags = or COLLECTION_HEAD TOMBSTONE, hlc = h, origin = sh_node_id ctx', ttl_deadline_ms = 0\<rparr>;
                      val = encode_with env (head_encode ctype h)
                  in (fst (write_merged (head_key key) val ctx'), Some h))"

section \<open>Reads and writes of whole records\<close>

definition read_lww :: "u64 \<Rightarrow> shard \<Rightarrow> bytes \<Rightarrow> u64 \<Rightarrow> (envelope \<times> bytes) option" where
  "read_lww now ctx ikey del_hlc =
     (case Option.bind (get_raw ctx ikey) envelope_decode of
        Some (env, pay) \<Rightarrow> if visible env pay del_hlc now = None then None else Some (env, pay)
      | None \<Rightarrow> None)"

definition read_lww_batch :: "u64 \<Rightarrow> shard \<Rightarrow> bytes list \<Rightarrow> u64 \<Rightarrow> (envelope \<times> bytes) option list" where
  "read_lww_batch now ctx ikeys del_hlc = map (\<lambda>k. read_lww now ctx k del_hlc) ikeys"

definition read_element :: "u64 \<Rightarrow> shard \<Rightarrow> bytes \<Rightarrow> u64 \<Rightarrow> bytes option" where
  "read_element now ctx ikey del_hlc =
     (case Option.bind (get_raw ctx ikey) envelope_decode of
        Some (env, pay) \<Rightarrow>
          if visible env pay del_hlc now = None then None else element_display_value (rtype env) pay
      | None \<Rightarrow> None)"

definition put_many_lww :: "(bytes \<times> bytes) list \<Rightarrow> shard \<Rightarrow> shard" where
  "put_many_lww items ctx = foldl (\<lambda>c (k, v). put_raw k v c) ctx items"

definition new_lww :: "u64 \<Rightarrow> record_type \<Rightarrow> bytes \<Rightarrow> u64 \<Rightarrow> shard \<Rightarrow> shard \<times> bytes" where
  "new_lww now rt payload ttl ctx =
     (let (ctx', h) = shard_hlc_now now ctx
      in (ctx', encode_with (with_ttl (envelope_new rt h (sh_node_id ctx')) ttl) payload))"

definition new_tombstone :: "u64 \<Rightarrow> record_type \<Rightarrow> shard \<Rightarrow> shard \<times> bytes" where
  "new_tombstone now rt ctx =
     (let (ctx', h) = shard_hlc_now now ctx
      in (ctx', encode_with (envelope_tombstone rt h (sh_node_id ctx')) []))"

definition expiry_tombstone :: "envelope \<Rightarrow> bytes \<Rightarrow> bytes" where
  "expiry_tombstone env payload =
     (if is_or_element (rtype env)
      then element_remove (rtype env) (expiry_hlc env) (origin env) (element_dots payload)
      else encode_with (envelope_tombstone (rtype env) (expiry_hlc env) (origin env)) [])"

text \<open>\<open>None\<close> is the error for a partition without an upper bound.\<close>

definition partition_has_data :: "shard \<Rightarrow> pid \<Rightarrow> bool option" where
  "partition_has_data ctx p =
     (if p = 65535 then None else Some (bounded_iter (be16 p) (Some (be16 (p + 1))) ctx \<noteq> []))"

section \<open>Scans visit exactly the keys with the prefix\<close>

lemma upper_bound_snoc:
  "upper_bound_rev (xs @ [a]) =
     (case upper_bound_rev xs of Some u \<Rightarrow> Some (a # u) | None \<Rightarrow> if a = 255 then None else Some [a + 1])"
  by (induction xs) simp_all

lemma prefix_upper_bound_Cons:
  "prefix_upper_bound (a # p) =
     (case prefix_upper_bound p of Some u \<Rightarrow> Some (a # u) | None \<Rightarrow> if a = 255 then None else Some [a + 1])"
  by (simp add: prefix_upper_bound_def upper_bound_snoc)

lemma word8_less_Suc: "a \<noteq> 255 \<Longrightarrow> c < a + 1 \<longleftrightarrow> c \<le> a" for a c :: u8
proof -
  assume "a \<noteq> 255"
  then have "unat a \<noteq> 255" by (simp add: word_unat_eq_iff)
  then have "unat (a + 1) = unat a + 1"
    using unat_bound(1) [of a] by (simp add: unat_word_ariths)
  then show ?thesis by (auto simp: word_less_nat_alt word_le_nat_alt)
qed

lemma word8_le_255: "(a :: u8) \<le> 255"
  using unat_bound(1) [of a] by (simp add: word_le_nat_alt)

lemma prefix_iff_between: "prefix p k \<longleftrightarrow> p \<le> k \<and> below k (prefix_upper_bound p)"
proof (induction p arbitrary: k)
  case Nil
  then show ?case by (simp add: below_def prefix_upper_bound_def)
next
  case (Cons a p)
  show ?case
  proof (cases k)
    case (Cons c k')
    have "\<not> 255 < c" using word8_le_255 [of c] by simp
    then show ?thesis
      using Cons.IH [of k'] Cons
      by (cases "prefix_upper_bound p"; cases "a = 255")
        (auto simp: below_def prefix_upper_bound_Cons word8_less_Suc)
  qed simp
qed

lemma scan_range_eq:
  assumes "prefix pre start"
  shows "scan_range start pre ctx = filter (\<lambda>(k, _). prefix pre k \<and> start \<le> k) (RBT.entries (sh_data ctx))"
proof -
  have "pre \<le> start" using assms prefix_iff_between by blast
  then have "prefix pre k \<longleftrightarrow> below k (prefix_upper_bound pre)" if "start \<le> k" for k
    using that prefix_iff_between [of pre k] by (meson order_trans)
  then have "bounded_iter start (prefix_upper_bound pre) ctx =
      filter (\<lambda>(k, _). prefix pre k \<and> start \<le> k) (RBT.entries (sh_data ctx))"
    unfolding bounded_iter_def by (intro filter_cong) auto
  then show ?thesis
    by (auto simp: scan_range_def intro!: takeWhile_eq_all_conv [THEN iffD2])
qed

lemma scan_prefix_eq: "scan_range pre pre ctx = filter (\<lambda>(k, _). prefix pre k) (RBT.entries (sh_data ctx))"
  unfolding scan_range_eq [OF prefix_order.refl] using prefix_iff_between by (intro filter_cong) auto

lemma entries_strictly_sorted: "sorted_wrt (\<lambda>a b. fst a < fst b) (RBT.entries t)"
  using RBT.sorted_entries [of t] RBT.distinct_entries [of t] strict_sorted_iff [of "map fst (RBT.entries t)"]
  by (simp add: sorted_wrt_map)

lemma scan_range_sorted: "sorted_wrt (\<lambda>a b. fst a < fst b) (scan_range start pre ctx)"
  unfolding scan_range_def bounded_iter_def
  by (subst takeWhile_eq_take) (intro sorted_wrt_take sorted_wrt_filter entries_strictly_sorted)

lemma in_scan_prefix: "(k, v) \<in> set (scan_range pre pre ctx) \<longleftrightarrow> prefix pre k \<and> get_raw ctx k = Some v"
  by (auto simp: scan_prefix_eq get_raw_def RBT.lookup_in_tree)

end
