(* ===== verification/Score.thy ===== *)
theory Score
  imports Prelude
begin

text \<open>
  \<open>marekvs-core/src/score.rs\<close>: the scores of sorted sets and their order-preserving encoding. A score is an
  IEEE 754 double, kept as its 64 bits; comparison and addition are those of the standard.
\<close>

unbundle bit_operations_syntax

section \<open>Doubles\<close>

type_synonym f64 = u64

definition f64_mag :: "f64 \<Rightarrow> nat" where
  "f64_mag f = unat (take_bit 63 f)"

definition f64_negative :: "f64 \<Rightarrow> bool" where
  "f64_negative f = bit f 63"

definition f64_infinity :: nat where "f64_infinity = 2047 * 2 ^ 52"

definition f64_is_nan :: "f64 \<Rightarrow> bool" where
  "f64_is_nan f = (f64_infinity < f64_mag f)"

text \<open>Sign and magnitude: a monotone image of the numbers, with one zero.\<close>

definition f64_key :: "f64 \<Rightarrow> int" where
  "f64_key f = (if f64_negative f then - int (f64_mag f) else int (f64_mag f))"

definition f64_eq :: "f64 \<Rightarrow> f64 \<Rightarrow> bool" where
  "f64_eq a b = (\<not> f64_is_nan a \<and> \<not> f64_is_nan b \<and> f64_key a = f64_key b)"

definition f64_less :: "f64 \<Rightarrow> f64 \<Rightarrow> bool" where
  "f64_less a b = (\<not> f64_is_nan a \<and> \<not> f64_is_nan b \<and> f64_key a < f64_key b)"

definition f64_le :: "f64 \<Rightarrow> f64 \<Rightarrow> bool" where
  "f64_le a b = (\<not> f64_is_nan a \<and> \<not> f64_is_nan b \<and> f64_key a \<le> f64_key b)"

text \<open>\<open>==\<close> on \<open>Option<f64>\<close>.\<close>

definition opt_f64_eq :: "f64 option \<Rightarrow> f64 option \<Rightarrow> bool" where
  "opt_f64_eq a b = (case (a, b) of (Some x, Some y) \<Rightarrow> f64_eq x y | (None, None) \<Rightarrow> True | _ \<Rightarrow> False)"

text \<open>
  Addition: a finite double is an integral multiple of \<open>2 ^ -1074\<close>; the exact sum of two of them is rounded
  to 53 significant bits, to nearest, ties to even.
\<close>

definition f64_units :: "f64 \<Rightarrow> int" where
  "f64_units f =
     (let e = f64_mag f div 2 ^ 52; m = f64_mag f mod 2 ^ 52;
          u = (if e = 0 then m else (2 ^ 52 + m) * 2 ^ (e - 1))
      in if f64_negative f then - int u else int u)"

fun bit_length :: "nat \<Rightarrow> nat" where
  "bit_length n = (if n = 0 then 0 else Suc (bit_length (n div 2)))"

declare bit_length.simps [simp del]

definition f64_round_mag :: "nat \<Rightarrow> nat" where
  "f64_round_mag n =
     (if n < 2 ^ 53 then n
      else let k = bit_length n - 53;
               q = n div 2 ^ k; r = n mod 2 ^ k;
               q' = (if 2 ^ k < 2 * r \<or> 2 ^ k = 2 * r \<and> odd q then q + 1 else q)
           in min f64_infinity (k * 2 ^ 52 + q'))"

definition f64_make :: "bool \<Rightarrow> nat \<Rightarrow> f64" where
  "f64_make neg mag = (if neg then push_bit 63 1 OR of_nat mag else of_nat mag)"

definition f64_nan :: f64 where "f64_nan = of_nat (f64_infinity + 2 ^ 51)"

definition f64_add :: "f64 \<Rightarrow> f64 \<Rightarrow> f64" where
  "f64_add a b =
     (if f64_is_nan a \<or> f64_is_nan b then f64_nan
      else if f64_mag a = f64_infinity
      then if f64_mag b = f64_infinity \<and> f64_negative a \<noteq> f64_negative b then f64_nan else a
      else if f64_mag b = f64_infinity then b
      else let s = f64_units a + f64_units b
           in if s = 0 then f64_make (f64_negative a \<and> f64_negative b) 0
              else f64_make (s < 0) (f64_round_mag (nat \<bar>s\<bar>)))"

section \<open>The encoding\<close>

definition encode_score :: "f64 \<Rightarrow> u64" where
  "encode_score f =
     (let f' = (if f64_eq f 0 then 0 else f)
      in if drop_bit 63 f' = 1 then NOT f' else f' XOR push_bit 63 1)"

definition decode_score :: "u64 \<Rightarrow> f64" where
  "decode_score u = (if drop_bit 63 u = 1 then u XOR push_bit 63 1 else NOT u)"

section \<open>The encoding keeps the order\<close>

lemma sign_bit: "drop_bit 63 f = 1 \<longleftrightarrow> f64_negative f"
proof -
  have "drop_bit 63 f = of_bool (bit f 63)"
  proof (rule bit_word_eqI)
    show "bit (drop_bit 63 f) n \<longleftrightarrow> bit (of_bool (bit f 63) :: u64) n" for n
      by (cases n) (auto simp: bit_simps dest: bit_imp_le_length)
  qed
  then show ?thesis by (simp add: f64_negative_def)
qed

lemma f64_mag_less: "f64_mag f < 2 ^ 63"
  using take_bit_nat_less_exp [of 63 "unat f"] by (simp add: f64_mag_def unsigned_take_bit_eq)

lemma unat_f64: "unat f = (if f64_negative f then 2 ^ 63 else 0) + f64_mag f"
proof -
  have "unat f = unat f div 2 ^ 63 * 2 ^ 63 + unat f mod 2 ^ 63" by (rule div_mult_mod_eq [symmetric])
  moreover have "unat f div 2 ^ 63 = of_bool (f64_negative f)"
  proof -
    have "unat f div 2 ^ 63 < 2" using unat_bound(4) [of f] by (simp add: less_mult_imp_div_less)
    moreover have "odd (unat f div 2 ^ 63) \<longleftrightarrow> f64_negative f"
      unfolding f64_negative_def bit_iff_odd [symmetric] by (simp add: bit_unsigned_iff)
    ultimately show ?thesis by (auto simp: less_2_cases_iff)
  qed
  moreover have "unat f mod 2 ^ 63 = f64_mag f"
    unfolding f64_mag_def unsigned_take_bit_eq by (simp only: take_bit_eq_mod)
  ultimately have "unat f = of_bool (f64_negative f) * 2 ^ 63 + f64_mag f" by (simp only:)
  then show ?thesis by simp
qed

lemma unat_not: "unat (NOT f) = 2 ^ 64 - 1 - unat f" for f :: u64
proof -
  have "NOT f = - 1 - f" by (simp add: not_eq_complement)
  then have "unat (NOT f) = unat (- 1 :: u64) - unat f"
    by (metis unat_sub word_order.extremum)
  moreover have "unat (- 1 :: u64) = 2 ^ 64 - 1" by (simp add: unsigned_minus_1_eq_mask mask_eq_exp_minus_1)
  ultimately show ?thesis by simp
qed

lemma unat_xor_sign: "\<not> f64_negative f \<Longrightarrow> unat (f XOR push_bit 63 1) = 2 ^ 63 + unat f"
proof -
  assume pos: "\<not> f64_negative f"
  have bits: "n < 63" if "n < 64" "bit f n" for n
  proof -
    have "n \<noteq> 63" using that(2) pos by (auto simp: f64_negative_def)
    with that(1) show ?thesis by simp
  qed
  have "f XOR push_bit 63 1 = f OR push_bit 63 1"
    by (rule bit_word_eqI) (use bits in \<open>auto simp: bit_simps simp del: push_bit_of_1 dest!: bits\<close>)
  also have "\<dots> = f + push_bit 63 1"
    by (rule disjunctive_add [symmetric]) (use bits in \<open>auto simp: bit_simps simp del: push_bit_of_1 dest!: bits\<close>)
  finally show ?thesis
    using unat_f64 [of f] f64_mag_less [of f] pos
    by (simp add: unat_word_ariths push_bit_eq_mult)
qed

lemma f64_zero [simp]: "f64_mag 0 = 0" "\<not> f64_negative 0" "f64_key 0 = 0" "\<not> f64_is_nan 0"
  by (simp_all add: f64_mag_def f64_negative_def f64_key_def f64_is_nan_def f64_infinity_def)

lemma f64_eq_zero: "f64_eq f 0 \<longleftrightarrow> f64_mag f = 0"
  by (auto simp: f64_eq_def f64_key_def f64_is_nan_def f64_infinity_def)

lemma int_encode_score:
  "int (unat (encode_score f)) = (if f64_key f < 0 then 2 ^ 63 - 1 + f64_key f else 2 ^ 63 + f64_key f)"
proof (cases "f64_mag f = 0")
  case True
  then show ?thesis
    using unat_xor_sign [of 0] by (simp add: encode_score_def f64_eq_zero f64_key_def sign_bit)
next
  case nz: False
  show ?thesis
  proof (cases "f64_negative f")
    case True
    then have "encode_score f = NOT f" using nz by (simp add: encode_score_def f64_eq_zero sign_bit)
    then show ?thesis
      using True nz f64_mag_less [of f] unat_f64 [of f] unat_not [of f] by (simp add: f64_key_def of_nat_diff)
  next
    case False
    then have "encode_score f = f XOR push_bit 63 1"
      using nz by (simp add: encode_score_def f64_eq_zero sign_bit)
    then show ?thesis
      using False unat_f64 [of f] unat_xor_sign [of f] by (simp add: f64_key_def)
  qed
qed

lemma encode_score_less: "encode_score a < encode_score b \<longleftrightarrow> f64_key a < f64_key b"
proof -
  have "encode_score a < encode_score b \<longleftrightarrow> int (unat (encode_score a)) < int (unat (encode_score b))"
    by (simp only: word_less_nat_alt of_nat_less_iff)
  then show ?thesis unfolding int_encode_score by auto
qed

lemma encode_score_eq: "encode_score a = encode_score b \<longleftrightarrow> f64_key a = f64_key b"
  using encode_score_less [of a b] encode_score_less [of b a] by (metis linorder_less_linear order_less_irrefl)

lemma decode_encode_score: "decode_score (encode_score f) = (if f64_eq f 0 then 0 else f)"
proof -
  let ?g = "if f64_eq f 0 then 0 else f"
  have enc: "encode_score f = (if f64_negative ?g then NOT ?g else ?g XOR push_bit 63 1)"
    by (simp add: encode_score_def Let_def sign_bit)
  have flip: "f64_negative (NOT g) \<longleftrightarrow> \<not> f64_negative g" "f64_negative (g XOR push_bit 63 1) \<longleftrightarrow> \<not> f64_negative g"
    "(g XOR push_bit 63 1) XOR push_bit 63 1 = g" for g :: u64
    by (simp_all add: f64_negative_def bit_simps xor.assoc del: push_bit_of_1)
  show ?thesis unfolding enc decode_score_def sign_bit by (cases "f64_negative ?g") (simp_all only: flip if_True if_False not_not bit.double_compl simp_thms)
qed

end
