(* ===== verification/Zset.thy ===== *)
theory Zset
  imports Store Score
begin

text \<open>
  \<open>marekvs-engine/src/cmd/zset.rs\<close>: sorted sets. A member record carries the score; a node-local index of
  empty values, keyed by encoded score and member, gives the order. Each command is the closure it runs on
  its shard, with its arguments already parsed; the closures of one command share one reading of the clock.
\<close>

section \<open>Replies\<close>

datatype reply =
    R_Simple string
  | R_SimpleOwned string
  | R_Err string
  | R_Int int
  | R_Bulk bytes
  | R_Null
  | R_NullArray
  | R_Array "reply list"
  | R_Map "(reply \<times> reply) list"
  | R_Set "reply list"
  | R_Double f64
  | R_Bool bool
  | R_Verbatim string
  | R_None

definition wrongtype :: reply where
  "wrongtype = R_Err ''WRONGTYPE Operation against a key holding the wrong kind of value''"

definition score_nan :: reply where
  "score_nan = R_Err ''ERR resulting score is not a number (NaN)''"

section \<open>Member records and the score index\<close>

definition zset_del_hlc :: "u64 \<Rightarrow> shard \<Rightarrow> bytes \<Rightarrow> u64 option" where
  "zset_del_hlc now ctx key = check_type now ctx key CTYPE_ZSET"

definition score_from_record :: "bytes \<Rightarrow> f64 option" where
  "score_from_record bs =
     (case envelope_decode bs of
        None \<Rightarrow> None
      | Some (_, pay) \<Rightarrow>
          (case element_value pay of
             None \<Rightarrow> None
           | Some val \<Rightarrow> if length val = 8 then Some (of_be64 val) else None))"

definition member_score :: "u64 \<Rightarrow> shard \<Rightarrow> bytes \<Rightarrow> bytes \<Rightarrow> u64 \<Rightarrow> f64 option" where
  "member_score now ctx key member del =
     (case get_raw ctx (zset_member_key key member) of
        None \<Rightarrow> None
      | Some v \<Rightarrow>
          (case envelope_decode v of
             None \<Rightarrow> None
           | Some (env, pay) \<Rightarrow>
               if visible env pay del now = None then None
               else case element_value pay of
                      None \<Rightarrow> None
                    | Some val \<Rightarrow> if length val = 8 then Some (of_be64 val) else None))"

definition put_index :: "bytes \<Rightarrow> shard \<Rightarrow> shard" where
  "put_index idx_key ctx =
     (let ctx' = put_raw idx_key [] ctx
      in case ikey_parse idx_key of
           Some p \<Rightarrow> pop_hint_on_insert (collection_prefix Tag_ZsetScore (pk_userkey p)) idx_key ctx'
         | None \<Rightarrow> ctx')"

definition apply_member_record :: "bytes \<Rightarrow> bytes \<Rightarrow> bytes \<Rightarrow> shard \<Rightarrow> shard \<times> bool" where
  "apply_member_record userkey member incoming ctx =
     (let mk = zset_member_key userkey member;
          old_score = Option.bind (get_raw ctx mk) score_from_record;
          (ctx1, changed) = write_merged mk incoming ctx;
          new_score = Option.bind (get_raw ctx1 mk) score_from_record;
          ctx2 =
            (if opt_f64_eq old_score new_score then ctx1
             else let c = (case old_score of
                             Some s \<Rightarrow> del_raw (zset_score_key userkey (encode_score s) member) ctx1
                           | None \<Rightarrow> ctx1)
                  in case new_score of
                       Some s \<Rightarrow> put_index (zset_score_key userkey (encode_score s) member) c
                     | None \<Rightarrow> c)
      in (ctx2, changed))"

definition write_member :: "u64 \<Rightarrow> bytes \<Rightarrow> bytes \<Rightarrow> f64 \<Rightarrow> shard \<Rightarrow> shard" where
  "write_member now key member score ctx =
     (let (ctx', h) = shard_hlc_now now ctx;
          rec = element_add RT_ZsetMember h (sh_node_id ctx') (be64 score)
      in fst (apply_member_record key member rec ctx'))"

definition remove_member :: "u64 \<Rightarrow> bytes \<Rightarrow> bytes \<Rightarrow> u64 \<Rightarrow> shard \<Rightarrow> shard \<times> bool" where
  "remove_member now key member del ctx =
     (let mk = zset_member_key key member
      in case get_raw ctx mk of
           None \<Rightarrow> (ctx, False)
         | Some v \<Rightarrow>
             (case envelope_decode v of
                None \<Rightarrow> (ctx, False)
              | Some (env, pay) \<Rightarrow>
                  if visible env pay del now = None \<or> element_value pay = None then (ctx, False)
                  else let old_score = score_from_record v;
                           ds = element_dots pay;
                           (ctx1, h) = shard_hlc_now now ctx;
                           rm = element_remove RT_ZsetMember h (sh_node_id ctx1) ds;
                           ctx2 = fst (write_merged mk rm ctx1)
                       in (case old_score of
                             Some s \<Rightarrow> del_raw (zset_score_key key (encode_score s) member) ctx2
                           | None \<Rightarrow> ctx2, True)))"

section \<open>Reading the index\<close>

text \<open>The member an index key stands for, when its record is visible and still has that score.\<close>

definition index_hit :: "u64 \<Rightarrow> shard \<Rightarrow> bytes \<Rightarrow> u64 \<Rightarrow> bytes \<Rightarrow> (f64 \<times> bytes) option" where
  "index_hit now ctx key del k =
     (case ikey_parse k of
        None \<Rightarrow> None
      | Some p \<Rightarrow>
          if length (pk_suffix p) < 8 then None
          else let enc = of_be64 (take 8 (pk_suffix p)); member = drop 8 (pk_suffix p)
               in case member_score now ctx key member del of
                    Some sc \<Rightarrow> if encode_score sc = enc then Some (sc, member) else None
                  | None \<Rightarrow> None)"

definition scored_members_limited :: "u64 \<Rightarrow> shard \<Rightarrow> bytes \<Rightarrow> u64 \<Rightarrow> nat \<Rightarrow> (f64 \<times> bytes) list" where
  "scored_members_limited now ctx key del limit =
     (if limit = 0 then []
      else scan_prefix (collection_prefix Tag_ZsetScore key)
        (\<lambda>k _ out. case index_hit now ctx key del k of
           Some hit \<Rightarrow> (out @ [hit], length (out @ [hit]) < limit)
         | None \<Rightarrow> (out, True)) ctx [])"

definition usize_max :: nat where "usize_max = 2 ^ 64 - 1"

definition scored_members :: "u64 \<Rightarrow> shard \<Rightarrow> bytes \<Rightarrow> u64 \<Rightarrow> (f64 \<times> bytes) list" where
  "scored_members now ctx key del = scored_members_limited now ctx key del usize_max"

definition collect ::
  "u64 \<Rightarrow> shard \<Rightarrow> bytes \<Rightarrow> u64 \<Rightarrow> nat \<Rightarrow> bytes \<Rightarrow> bytes \<Rightarrow>
   (f64 \<times> bytes) list \<times> bytes option \<Rightarrow> ((f64 \<times> bytes) list \<times> bytes option) \<times> bool" where
  "collect now ctx key del limit k v = (\<lambda>(out, _).
     let out' = (case index_hit now ctx key del k of Some hit \<Rightarrow> out @ [hit] | None \<Rightarrow> out)
     in ((out', Some k), length out' < limit))"

definition pop_scored_candidates ::
  "u64 \<Rightarrow> bytes \<Rightarrow> u64 \<Rightarrow> nat \<Rightarrow> shard \<Rightarrow> shard \<times> (f64 \<times> bytes) list" where
  "pop_scored_candidates now key del limit ctx =
     (let p = collection_prefix Tag_ZsetScore key;
          finish = (\<lambda>(out, last_visited) c.
            if out = [] then (set_pop_hint_empty p c, out)
            else (case last_visited of Some lk \<Rightarrow> set_pop_hint p lk c | None \<Rightarrow> c, out))
      in case get_pop_hint ctx p of
           Some Empty \<Rightarrow> (ctx, [])
         | Some (At hint) \<Rightarrow>
             let (out, last_visited) = scan_from hint p (collect now ctx key del limit) ctx ([], None)
             in if out = []
                then let c = clear_pop_hint p ctx
                     in finish (scan_prefix p (collect now c key del limit) c (out, last_visited)) c
                else finish (out, last_visited) ctx
         | None \<Rightarrow> finish (scan_prefix p (collect now ctx key del limit) ctx ([], None)) ctx)"

definition zset_card :: "u64 \<Rightarrow> shard \<Rightarrow> bytes \<Rightarrow> u64 \<Rightarrow> int" where
  "zset_card now ctx key del =
     scan_prefix (collection_prefix Tag_ZsetMember key)
       (\<lambda>_ v n. case envelope_decode v of
          Some (env, pay) \<Rightarrow> (if visible env pay del now \<noteq> None \<and> element_value pay \<noteq> None then n + 1 else n, True)
        | None \<Rightarrow> (n, True)) ctx 0"

section \<open>Bounds, limits and slices\<close>

definition score_in_range :: "f64 \<Rightarrow> f64 \<times> bool \<Rightarrow> f64 \<times> bool \<Rightarrow> bool" where
  "score_in_range score mn mx =
     ((if snd mn then f64_less (fst mn) score else f64_le (fst mn) score) \<and>
      (if snd mx then f64_less score (fst mx) else f64_le score (fst mx)))"

definition parse_lex_bound :: "bytes \<Rightarrow> bool \<Rightarrow> (bytes \<times> bool) option option" where
  "parse_lex_bound b is_min =
     (if b = [45] \<and> is_min then Some None
      else if b = [43] \<and> \<not> is_min then Some None
      else case b of
             [] \<Rightarrow> None
           | c # rest \<Rightarrow>
               if c = 40 then Some (Some (rest, True)) else if c = 91 then Some (Some (rest, False)) else None)"

definition in_lex :: "bytes \<Rightarrow> (bytes \<times> bool) option \<Rightarrow> (bytes \<times> bool) option \<Rightarrow> bool" where
  "in_lex member mn mx =
     ((case mn of None \<Rightarrow> True | Some (b, excl) \<Rightarrow> if excl then b < member else b \<le> member) \<and>
      (case mx of None \<Rightarrow> True | Some (b, excl) \<Rightarrow> if excl then member < b else member \<le> b))"

definition apply_limit :: "(f64 \<times> bytes) list \<Rightarrow> (int \<times> int) option \<Rightarrow> (f64 \<times> bytes) list" where
  "apply_limit v limit =
     (case limit of
        None \<Rightarrow> v
      | Some (off, cnt) \<Rightarrow>
          let o' = nat (max off 0)
          in if length v \<le> o' then []
             else if cnt < 0 then drop o' v else take (nat cnt) (drop o' v))"

definition emit :: "(f64 \<times> bytes) list \<Rightarrow> bool \<Rightarrow> reply" where
  "emit items withscores =
     R_Array (concat (map (\<lambda>(s, m). R_Bulk m # (if withscores then [R_Double s] else [])) items))"

definition slice_by_index :: "(f64 \<times> bytes) list \<Rightarrow> int \<Rightarrow> int \<Rightarrow> (f64 \<times> bytes) list" where
  "slice_by_index all start stop =
     (let len = int (length all)
      in if len = 0 then []
         else let s = (if start < 0 then max (len + start) 0 else min start len);
                  e = (if stop < 0 then len + stop else min stop (len - 1))
              in if e < s \<or> len \<le> s then []
                 else let e' = max e 0 in take (nat (e' - s + 1)) (drop (nat s) all))"

section \<open>Commands\<close>

record zadd_flags =
  za_nx :: bool
  za_xx :: bool
  za_gt :: bool
  za_lt :: bool
  za_ch :: bool
  za_incr :: bool

text \<open>
  The loop of ZADD over its pairs, with the counts of added and updated members and the result of INCR so
  far. A left value is an early return.
\<close>

fun zadd_pairs ::
  "zadd_flags \<Rightarrow> u64 \<Rightarrow> bytes \<Rightarrow> u64 \<Rightarrow> (f64 \<times> bytes) list \<Rightarrow> int \<times> int \<times> f64 option \<Rightarrow> shard \<Rightarrow>
   shard \<times> (reply + int \<times> int \<times> f64 option)" where
  "zadd_pairs fl now key del [] acc ctx = (ctx, Inr acc)"
| "zadd_pairs fl now key del ((score, member) # pairs) (added, updated, incr_result) ctx =
     (case member_score now ctx key member del of
        Some cur \<Rightarrow>
          if za_nx fl
          then if za_incr fl then (ctx, Inl R_Null)
               else zadd_pairs fl now key del pairs (added, updated, incr_result) ctx
          else let newscore = (if za_incr fl then f64_add cur score else score)
               in if za_incr fl \<and> f64_is_nan newscore then (ctx, Inl score_nan)
                  else if za_gt fl \<and> f64_le newscore cur \<or> za_lt fl \<and> f64_le cur newscore
                  then if za_incr fl then (ctx, Inl R_Null)
                       else zadd_pairs fl now key del pairs (added, updated, incr_result) ctx
                  else if \<not> f64_eq newscore cur
                  then zadd_pairs fl now key del pairs (added, updated + 1, Some newscore)
                         (write_member now key member newscore (fst (ensure_head now key CTYPE_ZSET ctx)))
                  else zadd_pairs fl now key del pairs (added, updated, Some newscore) ctx
      | None \<Rightarrow>
          if za_xx fl
          then if za_incr fl then (ctx, Inl R_Null)
               else zadd_pairs fl now key del pairs (added, updated, incr_result) ctx
          else zadd_pairs fl now key del pairs (added + 1, updated, Some score)
                 (write_member now key member score (fst (ensure_head now key CTYPE_ZSET ctx))))"

definition zadd :: "zadd_flags \<Rightarrow> u64 \<Rightarrow> bytes \<Rightarrow> (f64 \<times> bytes) list \<Rightarrow> shard \<Rightarrow> shard \<times> reply" where
  "zadd fl now key pairs ctx =
     (case zset_del_hlc now ctx key of
        None \<Rightarrow> (ctx, wrongtype)
      | Some del \<Rightarrow>
          (case zadd_pairs fl now key del pairs (0, 0, None) ctx of
             (ctx', Inl r) \<Rightarrow> (ctx', r)
           | (ctx', Inr (added, updated, incr_result)) \<Rightarrow>
               (ctx', if za_incr fl then (case incr_result of Some s \<Rightarrow> R_Double s | None \<Rightarrow> R_Null)
                      else if za_ch fl then R_Int (added + updated) else R_Int added)))"

text \<open>The commands that only read run on the delete clock, or answer with the type error.\<close>

definition with_del :: "u64 \<Rightarrow> shard \<Rightarrow> bytes \<Rightarrow> (u64 \<Rightarrow> reply) \<Rightarrow> reply" where
  "with_del now ctx key f = (case zset_del_hlc now ctx key of None \<Rightarrow> wrongtype | Some del \<Rightarrow> f del)"

definition zscore :: "u64 \<Rightarrow> bytes \<Rightarrow> bytes \<Rightarrow> shard \<Rightarrow> reply" where
  "zscore now key member ctx = with_del now ctx key (\<lambda>del.
     case member_score now ctx key member del of None \<Rightarrow> R_Null | Some s \<Rightarrow> R_Double s)"

definition zmscore :: "u64 \<Rightarrow> bytes \<Rightarrow> bytes list \<Rightarrow> shard \<Rightarrow> reply" where
  "zmscore now key members ctx = with_del now ctx key (\<lambda>del.
     R_Array (map (\<lambda>m. case member_score now ctx key m del of None \<Rightarrow> R_Null | Some s \<Rightarrow> R_Double s) members))"

definition zcard :: "u64 \<Rightarrow> bytes \<Rightarrow> shard \<Rightarrow> reply" where
  "zcard now key ctx = with_del now ctx key (\<lambda>del. R_Int (zset_card now ctx key del))"

definition zincrby :: "u64 \<Rightarrow> bytes \<Rightarrow> bytes \<Rightarrow> f64 \<Rightarrow> shard \<Rightarrow> shard \<times> reply" where
  "zincrby now key member delta ctx =
     (case zset_del_hlc now ctx key of
        None \<Rightarrow> (ctx, wrongtype)
      | Some del \<Rightarrow>
          let cur = (case member_score now ctx key member del of Some s \<Rightarrow> s | None \<Rightarrow> 0);
              newscore = f64_add cur delta
          in if f64_is_nan newscore then (ctx, score_nan)
             else (write_member now key member newscore (fst (ensure_head now key CTYPE_ZSET ctx)), R_Double newscore))"

fun remove_members :: "u64 \<Rightarrow> bytes \<Rightarrow> u64 \<Rightarrow> bytes list \<Rightarrow> shard \<Rightarrow> shard \<times> int" where
  "remove_members now key del [] ctx = (ctx, 0)"
| "remove_members now key del (m # ms) ctx =
     (let (ctx1, removed) = remove_member now key m del ctx;
          (ctx2, n) = remove_members now key del ms ctx1
      in (ctx2, if removed then n + 1 else n))"

definition removing :: "u64 \<Rightarrow> bytes \<Rightarrow> (u64 \<Rightarrow> bytes list) \<Rightarrow> shard \<Rightarrow> shard \<times> reply" where
  "removing now key victims ctx =
     (case zset_del_hlc now ctx key of
        None \<Rightarrow> (ctx, wrongtype)
      | Some del \<Rightarrow> let (ctx', n) = remove_members now key del (victims del) ctx in (ctx', R_Int n))"

definition zrem :: "u64 \<Rightarrow> bytes \<Rightarrow> bytes list \<Rightarrow> shard \<Rightarrow> shard \<times> reply" where
  "zrem now key members ctx = removing now key (\<lambda>_. members) ctx"

definition zrange_lex ::
  "u64 \<Rightarrow> bytes \<Rightarrow> (bytes \<times> bool) option \<Rightarrow> (bytes \<times> bool) option \<Rightarrow> bool \<Rightarrow> (int \<times> int) option \<Rightarrow> bool \<Rightarrow>
   shard \<Rightarrow> reply" where
  "zrange_lex now key mn mx reverse limit withscores ctx = with_del now ctx key (\<lambda>del.
     let items = sort_key snd (filter (\<lambda>(_, m). in_lex m mn mx) (scored_members now ctx key del));
         items' = (if reverse then rev items else items)
     in emit (apply_limit items' limit) withscores)"

definition zrange_score ::
  "u64 \<Rightarrow> bytes \<Rightarrow> f64 \<times> bool \<Rightarrow> f64 \<times> bool \<Rightarrow> bool \<Rightarrow> (int \<times> int) option \<Rightarrow> bool \<Rightarrow> shard \<Rightarrow> reply" where
  "zrange_score now key mn mx reverse limit withscores ctx = with_del now ctx key (\<lambda>del.
     let items = filter (\<lambda>(s, _). score_in_range s mn mx) (scored_members now ctx key del);
         items' = (if reverse then rev items else items)
     in emit (apply_limit items' limit) withscores)"

definition zrange_index :: "u64 \<Rightarrow> bytes \<Rightarrow> int \<Rightarrow> int \<Rightarrow> bool \<Rightarrow> bool \<Rightarrow> shard \<Rightarrow> reply" where
  "zrange_index now key start stop reverse withscores ctx = with_del now ctx key (\<lambda>del.
     let all = scored_members now ctx key del;
         all' = (if reverse then rev all else all)
     in emit (slice_by_index all' start stop) withscores)"

definition zrevrange :: "u64 \<Rightarrow> bytes \<Rightarrow> int \<Rightarrow> int \<Rightarrow> bool \<Rightarrow> shard \<Rightarrow> reply" where
  "zrevrange now key start stop withscores ctx = with_del now ctx key (\<lambda>del.
     emit (slice_by_index (rev (scored_members now ctx key del)) start stop) withscores)"

text \<open>\<open>Iterator::position\<close>.\<close>

fun position_of :: "bytes \<Rightarrow> (f64 \<times> bytes) list \<Rightarrow> nat option" where
  "position_of m [] = None"
| "position_of m ((s, x) # xs) = (if x = m then Some 0 else map_option Suc (position_of m xs))"

definition zrank :: "u64 \<Rightarrow> bytes \<Rightarrow> bytes \<Rightarrow> bool \<Rightarrow> bool \<Rightarrow> shard \<Rightarrow> reply" where
  "zrank now key member withscore reverse ctx = with_del now ctx key (\<lambda>del.
     let all = scored_members now ctx key del;
         all' = (if reverse then rev all else all)
     in case position_of member all' of
          None \<Rightarrow> if withscore then R_NullArray else R_Null
        | Some idx \<Rightarrow>
            if withscore then R_Array [R_Int (int idx), R_Double (fst (all' ! idx))] else R_Int (int idx))"

definition zcount :: "u64 \<Rightarrow> bytes \<Rightarrow> f64 \<times> bool \<Rightarrow> f64 \<times> bool \<Rightarrow> shard \<Rightarrow> reply" where
  "zcount now key mn mx ctx = with_del now ctx key (\<lambda>del.
     R_Int (int (length (filter (\<lambda>(s, _). score_in_range s mn mx) (scored_members now ctx key del)))))"

definition zlexcount :: "u64 \<Rightarrow> bytes \<Rightarrow> (bytes \<times> bool) option \<Rightarrow> (bytes \<times> bool) option \<Rightarrow> shard \<Rightarrow> reply" where
  "zlexcount now key mn mx ctx = with_del now ctx key (\<lambda>del.
     R_Int (int (length (filter (\<lambda>(_, m). in_lex m mn mx) (scored_members now ctx key del)))))"

definition zremrangebyscore :: "u64 \<Rightarrow> bytes \<Rightarrow> f64 \<times> bool \<Rightarrow> f64 \<times> bool \<Rightarrow> shard \<Rightarrow> shard \<times> reply" where
  "zremrangebyscore now key mn mx ctx = removing now key (\<lambda>del.
     map snd (filter (\<lambda>(s, _). score_in_range s mn mx) (scored_members now ctx key del))) ctx"

definition zremrangebyrank :: "u64 \<Rightarrow> bytes \<Rightarrow> int \<Rightarrow> int \<Rightarrow> shard \<Rightarrow> shard \<times> reply" where
  "zremrangebyrank now key start stop ctx = removing now key (\<lambda>del.
     map snd (slice_by_index (scored_members now ctx key del) start stop)) ctx"

definition zremrangebylex ::
  "u64 \<Rightarrow> bytes \<Rightarrow> (bytes \<times> bool) option \<Rightarrow> (bytes \<times> bool) option \<Rightarrow> shard \<Rightarrow> shard \<times> reply" where
  "zremrangebylex now key mn mx ctx = removing now key (\<lambda>del.
     map snd (filter (\<lambda>(_, m). in_lex m mn mx) (scored_members now ctx key del))) ctx"

definition zrandmember :: "u64 \<Rightarrow> bytes \<Rightarrow> int option \<Rightarrow> bool \<Rightarrow> shard \<Rightarrow> reply" where
  "zrandmember now key count withscores ctx = with_del now ctx key (\<lambda>del.
     let want = (case count of None \<Rightarrow> 1 | Some n \<Rightarrow> nat \<bar>n\<bar>);
         items = scored_members_limited now ctx key del (max want 1)
     in if items = [] then (if count = None then R_Null else R_Array [])
        else case count of
               None \<Rightarrow> if withscores then emit [items ! 0] True else R_Bulk (snd (items ! 0))
             | Some n \<Rightarrow>
                 let k = (if n < 0 then want else min want (length items))
                 in emit (map (\<lambda>i. items ! (i mod length items)) [0..<k]) withscores)"

text \<open>Pops: the victims, and the loop that removes them.\<close>

definition push_window :: "nat \<Rightarrow> (f64 \<times> bytes) list \<Rightarrow> f64 \<times> bytes \<Rightarrow> (f64 \<times> bytes) list" where
  "push_window count win pair =
     (let w = win @ [pair] in if count < length w then tl w else w)"

definition pop_victims :: "u64 \<Rightarrow> bytes \<Rightarrow> u64 \<Rightarrow> bool \<Rightarrow> nat \<Rightarrow> shard \<Rightarrow> shard \<times> (f64 \<times> bytes) list" where
  "pop_victims now key del mx count ctx =
     (if mx then (ctx, rev (foldl (push_window count) [] (scored_members now ctx key del)))
      else pop_scored_candidates now key del count ctx)"

fun pop_loop :: "u64 \<Rightarrow> bytes \<Rightarrow> u64 \<Rightarrow> (f64 \<times> bytes) list \<Rightarrow> shard \<Rightarrow> shard \<times> (f64 \<times> bytes) list" where
  "pop_loop now key del [] ctx = (ctx, [])"
| "pop_loop now key del ((score, member) # victims) ctx =
     (let (ctx1, removed) = remove_member now key member del ctx;
          (ctx2, popped) = pop_loop now key del victims ctx1
      in (ctx2, if removed then (score, member) # popped else popped))"

definition try_zpop :: "u64 \<Rightarrow> bytes \<Rightarrow> bool \<Rightarrow> nat \<Rightarrow> shard \<Rightarrow> shard \<times> (f64 \<times> bytes) list option" where
  "try_zpop now key mx count ctx =
     (case zset_del_hlc now ctx key of
        None \<Rightarrow> (ctx, None)
      | Some del \<Rightarrow>
          let (ctx1, victims) = pop_victims now key del mx count ctx;
              (ctx2, popped) = pop_loop now key del victims ctx1
          in (ctx2, Some popped))"

definition zpop :: "u64 \<Rightarrow> bytes \<Rightarrow> bool \<Rightarrow> nat option \<Rightarrow> shard \<Rightarrow> shard \<times> reply" where
  "zpop now key mx count ctx =
     (case try_zpop now key mx (case count of Some n \<Rightarrow> n | None \<Rightarrow> 1) ctx of
        (ctx', Some popped) \<Rightarrow> (ctx', emit popped True)
      | (ctx', None) \<Rightarrow> (ctx', wrongtype))"

definition zrangestore_write :: "u64 \<Rightarrow> bytes \<Rightarrow> (f64 \<times> bytes) list \<Rightarrow> shard \<Rightarrow> shard" where
  "zrangestore_write now dst out ctx =
     (let ctx1 = fst (del_key_hlc now dst ctx);
          ctx2 = (if out = [] then ctx1 else fst (ensure_head now dst CTYPE_ZSET ctx1))
      in foldl (\<lambda>c (s, m). write_member now dst m s c) ctx2 out)"

end
