(* ===== verification/Anti_Entropy.thy ===== *)
theory Anti_Entropy
  imports Zset Ring "HOL-Library.AList"
begin

text \<open>
  \<open>marekvs-repl/src/ae.rs\<close> and the handlers of \<open>marekvs-repl/src/lib.rs\<close> that use it: Merkle anti-entropy
  between two replicas of a partition, and how received records are applied. The hash function xxh3 is an
  argument. Scans of the store do not fail; the commit origin that is recorded for each applied record
  concerns the replication ring only.
\<close>

unbundle bit_operations_syntax

section \<open>Digests\<close>

type_synonym hash = "bytes \<Rightarrow> u64"

definition BUCKETS :: nat where "BUCKETS = 256"

definition entry_hash :: "hash \<Rightarrow> bytes \<Rightarrow> u64 \<Rightarrow> u64 \<Rightarrow> u64" where
  "entry_hash xxh3 ikey h vhash = xxh3 (ikey @ be64 h @ be64 vhash)"

definition record_hlc :: "bytes \<Rightarrow> u64" where
  "record_hlc v = (case envelope_decode v of Some (e, _) \<Rightarrow> hlc e | None \<Rightarrow> 0)"

definition record_vhash :: "hash \<Rightarrow> bytes \<Rightarrow> u64" where
  "record_vhash xxh3 v = xxh3 v"

text \<open>The score index of sorted sets is local to a node.\<close>

definition local_only :: "bytes \<Rightarrow> bool" where
  "local_only k = (case ikey_parse k of Some p \<Rightarrow> pk_tag p = 90 | None \<Rightarrow> False)"

definition bucket_of :: "hash \<Rightarrow> bytes \<Rightarrow> u8" where
  "bucket_of xxh3 k = ucast (xxh3 k AND 255)"

definition bucket_digests :: "hash \<Rightarrow> pid \<Rightarrow> shard \<Rightarrow> u64 list" where
  "bucket_digests xxh3 p ctx =
     scan_prefix (partition_prefix p)
       (\<lambda>k v ds.
          if local_only k then (ds, True)
          else let b = unat (xxh3 k AND 255)
               in (ds[b := ds ! b XOR entry_hash xxh3 k (record_hlc v) (record_vhash xxh3 v)], True))
       ctx (replicate BUCKETS 0)"

definition partition_root :: "hash \<Rightarrow> pid \<Rightarrow> shard \<Rightarrow> u64" where
  "partition_root xxh3 p ctx =
     (let ds = bucket_digests xxh3 p ctx
      in if list_all (\<lambda>d. d = 0) ds then 0 else xxh3 (concat (map be64 ds)))"

type_synonym bucket_entry = "u64 \<times> u64 \<times> u64"

definition bucket_entries :: "hash \<Rightarrow> pid \<Rightarrow> u8 \<Rightarrow> shard \<Rightarrow> bucket_entry list" where
  "bucket_entries xxh3 p bucket ctx =
     scan_prefix (partition_prefix p)
       (\<lambda>k v es.
          if local_only k then (es, True)
          else if bucket_of xxh3 k = bucket
          then (es @ [(xxh3 k, record_hlc v, record_vhash xxh3 v)], True)
          else (es, True))
       ctx []"

section \<open>Comparing a bucket\<close>

text \<open>\<open>collect\<close> into a hash map: a later entry replaces an earlier one.\<close>

definition hash_map :: "bucket_entry list \<Rightarrow> (u64 \<times> u64 \<times> u64) list" where
  "hash_map es = foldl (\<lambda>m (h, x). AList.update h x m) [] es"

text \<open>Whether a record is to be sent to a peer that has the given entry for its key.\<close>

definition send_needed :: "u64 \<Rightarrow> u64 \<Rightarrow> (u64 \<times> u64) option \<Rightarrow> bool" where
  "send_needed h vh theirs =
     (case theirs of None \<Rightarrow> True | Some (thlc, tvh) \<Rightarrow> thlc < h \<or> h = thlc \<and> vh \<noteq> tvh)"

text \<open>The records to push and the hashes of the keys to ask for; the latter come in an unspecified order.\<close>

definition diff_bucket :: "hash \<Rightarrow> pid \<Rightarrow> u8 \<Rightarrow> bucket_entry list \<Rightarrow> shard \<Rightarrow> repl_op list \<times> u64 list" where
  "diff_bucket xxh3 p bucket theirs_list ctx =
     (let theirs = hash_map theirs_list;
          (push, mine) = scan_prefix (partition_prefix p)
            (\<lambda>k v (push, mine).
               if local_only k then ((push, mine), True)
               else if bucket_of xxh3 k \<noteq> bucket then ((push, mine), True)
               else let h = xxh3 k; hl = record_hlc v; vh = record_vhash xxh3 v;
                        push' = (if send_needed hl vh (map_of theirs h)
                                 then push @ [\<lparr>op_ikey = k, op_value = v\<rparr>] else push)
                    in ((push', AList.update h (hl, vh) mine), True))
            ctx ([], []);
          want = map fst (filter (\<lambda>(h, (thlc, tvh)). send_needed thlc tvh (map_of mine h)) theirs)
      in (push, want))"

definition records_by_hash :: "hash \<Rightarrow> pid \<Rightarrow> u8 \<Rightarrow> u64 list \<Rightarrow> shard \<Rightarrow> repl_op list" where
  "records_by_hash xxh3 p bucket hashes ctx =
     scan_prefix (partition_prefix p)
       (\<lambda>k v ops.
          if local_only k then (ops, True)
          else if bucket_of xxh3 k = bucket \<and> xxh3 k \<in> set hashes
          then (ops @ [\<lparr>op_ikey = k, op_value = v\<rparr>], True)
          else (ops, True))
       ctx []"

section \<open>Applying received records\<close>

definition invalidate_hint :: "bytes \<Rightarrow> shard \<Rightarrow> shard" where
  "invalidate_hint key ctx = ctx\<lparr>sh_pop_hints := RBT.delete (collection_prefix Tag_ListElem key) (sh_pop_hints ctx)\<rparr>"

definition observe_record :: "u64 \<Rightarrow> repl_op \<Rightarrow> shard \<Rightarrow> shard" where
  "observe_record now op ctx =
     (case envelope_decode (op_value op) of
        Some (env, _) \<Rightarrow> ctx\<lparr>sh_hlc := fst (hlc_observe now (hlc env) (sh_hlc ctx))\<rparr>
      | None \<Rightarrow> ctx)"

definition apply_record :: "parsed_key \<Rightarrow> repl_op \<Rightarrow> shard \<Rightarrow> shard" where
  "apply_record p op ctx =
     (if pk_tag p = 122
      then fst (apply_member_record (pk_userkey p) (pk_suffix p) (op_value op) ctx)
      else let ctx' = fst (write_merged (op_ikey op) (op_value op) ctx)
           in if pk_tag p = 113 then invalidate_hint (pk_userkey p) ctx' else ctx')"

definition apply_op_from :: "u64 \<Rightarrow> repl_op \<Rightarrow> shard \<Rightarrow> shard" where
  "apply_op_from now op ctx =
     (case ikey_parse (op_ikey op) of
        None \<Rightarrow> ctx
      | Some p \<Rightarrow> if PARTITIONS \<le> pk_pid p then ctx else apply_record p op (observe_record now op ctx))"

definition apply_batch_op :: "pid \<Rightarrow> shard \<Rightarrow> repl_op \<Rightarrow> shard" where
  "apply_batch_op pd ctx op =
     (case ikey_parse (op_ikey op) of
        None \<Rightarrow> ctx
      | Some p \<Rightarrow> if pk_pid p \<noteq> pd then ctx else apply_record p op ctx)"

definition apply_ops_batch :: "u64 \<Rightarrow> pid \<Rightarrow> repl_op list \<Rightarrow> shard \<Rightarrow> shard" where
  "apply_ops_batch now pd ops ctx =
     foldl (apply_batch_op pd) (foldl (\<lambda>c op. observe_record now op c) ctx ops) ops"

section \<open>Handlers\<close>

text \<open>\<open>MerkleBuckets\<close>: the buckets that differ, each with the entries to offer.\<close>

definition on_merkle_buckets ::
  "hash \<Rightarrow> pid \<Rightarrow> u64 list \<Rightarrow> bool \<Rightarrow> bool \<Rightarrow> shard \<Rightarrow> (u8 \<times> bucket_entry list \<times> bool) list" where
  "on_merkle_buckets xxh3 p digests we_own rejoin_wants ctx =
     concat (map (\<lambda>(bucket, a, b).
         if a \<noteq> b
         then [(of_nat bucket, bucket_entries xxh3 p (of_nat bucket) ctx, \<not> we_own \<and> \<not> rejoin_wants)] else [])
       (enumerate 0 (zip (bucket_digests xxh3 p ctx) digests)))"

text \<open>\<open>BucketKeys\<close>: the records to push and the keys to request.\<close>

definition on_bucket_keys ::
  "hash \<Rightarrow> pid \<Rightarrow> u8 \<Rightarrow> bucket_entry list \<Rightarrow> bool \<Rightarrow> shard \<Rightarrow> repl_op list \<times> u64 list" where
  "on_bucket_keys xxh3 p bucket entries no_backfill ctx =
     (let (push, want) = diff_bucket xxh3 p bucket entries ctx
      in (if no_backfill then filter (\<lambda>op. xxh3 (op_ikey op) \<in> fst ` set entries) push else push, want))"

text \<open>\<open>RequestKeys\<close>: during a rejoin a co-owner's request drops the records and any other one is refused.\<close>

definition on_request_keys ::
  "hash \<Rightarrow> pid \<Rightarrow> u8 \<Rightarrow> u64 list \<Rightarrow> bool \<Rightarrow> bool \<Rightarrow> bool \<Rightarrow> shard \<Rightarrow> shard \<times> repl_op list" where
  "on_request_keys xxh3 p bucket hashes rejoin_active rejoin_home peer_co_owner ctx =
     (let ops = records_by_hash xxh3 p bucket hashes ctx
      in if rejoin_active \<and> rejoin_home \<and> peer_co_owner
         then (foldl (\<lambda>c op. del_raw (op_ikey op) c) ctx ops, [])
         else if rejoin_active then (ctx, []) else (ctx, ops))"

text \<open>One exchange on a bucket: \<open>b\<close> offers its entries to \<open>a\<close>, which pushes and requests.\<close>

definition ae_exchange :: "hash \<Rightarrow> u64 \<Rightarrow> pid \<Rightarrow> u8 \<Rightarrow> shard \<times> shard \<Rightarrow> shard \<times> shard" where
  "ae_exchange xxh3 now p bucket = (\<lambda>(a, b).
     let (push, want) = on_bucket_keys xxh3 p bucket (bucket_entries xxh3 p bucket b) False a;
         b1 = apply_ops_batch now p push b;
         (b2, ops) = on_request_keys xxh3 p bucket want False False False b1
     in (apply_ops_batch now p ops a, b2))"

end
