(* ===== verification/Zset_Laws.thy ===== *)
theory Zset_Laws
  imports Zset Merge_Laws
begin

text \<open>
  What the operations on sorted sets do to the stored keys: how each write changes the two key spaces, the
  members and the score index, and what the walks over the index return.
\<close>

section \<open>Reads after writes\<close>

named_theorems shard_simps

lemma get_raw_put [shard_simps]: "get_raw (put_raw k v ctx) k' = (if k' = k then Some v else get_raw ctx k')"
  by (simp add: get_raw_def put_raw_def)

lemma get_raw_del [shard_simps]: "get_raw (del_raw k ctx) k' = (if k' = k then None else get_raw ctx k')"
  by (simp add: get_raw_def del_raw_def)

lemma get_raw_hints [shard_simps]:
  "get_raw (pop_hint_on_insert p e ctx) k = get_raw ctx k"
  "get_raw (set_member_hook ik v ctx) k = get_raw ctx k"
  "get_raw (set_pop_hint p e ctx) k = get_raw ctx k"
  "get_raw (set_pop_hint_empty p ctx) k = get_raw ctx k"
  "get_raw (clear_pop_hint p ctx) k = get_raw ctx k"
  by (simp_all add: get_raw_def pop_hint_on_insert_def set_member_hook_def set_pop_hint_def
      set_pop_hint_empty_def clear_pop_hint_def split: option.splits)

lemma get_raw_hlc [shard_simps]: "get_raw (fst (shard_hlc_now now ctx)) k = get_raw ctx k"
  by (simp add: get_raw_def shard_hlc_now_def split: prod.splits)

lemma get_raw_put_index [shard_simps]:
  "get_raw (put_index i ctx) k = (if k = i then Some [] else get_raw ctx k)"
  by (simp add: put_index_def shard_simps Let_def split: option.splits)

definition merged_at :: "bytes \<Rightarrow> bytes \<Rightarrow> shard \<Rightarrow> bytes" where
  "merged_at k v ctx = (case get_raw ctx k of None \<Rightarrow> v | Some l \<Rightarrow> resolve l v (merge_outcome_for k l v))"

lemma get_raw_write_merged [shard_simps]:
  "get_raw (fst (write_merged k v ctx)) k' = (if k' = k then Some (merged_at k v ctx) else get_raw ctx k')"
  by (auto simp: write_merged_def shard_simps merged_at_def resolve_def split: option.splits merge_outcome.splits)

section \<open>Keys of sorted sets\<close>

definition short_key :: "bytes \<Rightarrow> bool" where
  "short_key uk = (length uk < 2 ^ 64)"

lemma zset_keys_inject:
  assumes "short_key uk" "short_key uk'"
  shows "zset_member_key uk m = zset_member_key uk' m' \<longleftrightarrow> uk = uk' \<and> m = m'"
    "zset_score_key uk e m = zset_score_key uk' e' m' \<longleftrightarrow> uk = uk' \<and> e = e' \<and> m = m'"
    "zset_member_key uk m \<noteq> zset_score_key uk' e' m'"
    "zset_score_key uk' e' m' \<noteq> zset_member_key uk m"
  by (auto simp: zset_member_key_def zset_score_key_def prefixed_inject [OF assms [unfolded short_key_def]]
      prefixed_inject [OF assms(2,1) [unfolded short_key_def]])

lemma zset_keys_parse:
  assumes "short_key uk"
  shows "ikey_parse (zset_member_key uk m) = Some \<lparr>pk_pid = pid_of uk, pk_tag = 122, pk_userkey = uk, pk_suffix = m\<rparr>"
    "ikey_parse (zset_score_key uk e m) =
       Some \<lparr>pk_pid = pid_of uk, pk_tag = 90, pk_userkey = uk, pk_suffix = be64 e @ m\<rparr>"
  by (simp_all add: zset_member_key_def zset_score_key_def parse_prefixed [OF _ assms [unfolded short_key_def]])

lemma merged_at_member:
  "short_key uk \<Longrightarrow> merged_at (zset_member_key uk m) v ctx =
     (case get_raw ctx (zset_member_key uk m) of None \<Rightarrow> v | Some l \<Rightarrow> merged_value l v)"
  by (simp add: merged_at_def merge_outcome_for_def zset_keys_parse merged_value_def split: option.splits)

section \<open>The index matches the members\<close>

definition stored_score :: "shard \<Rightarrow> bytes \<Rightarrow> bytes \<Rightarrow> f64 option" where
  "stored_score ctx uk m = Option.bind (get_raw ctx (zset_member_key uk m)) score_from_record"

text \<open>A member has one index entry, at the encoding of its stored score, and none without a score.\<close>

definition index_ok :: "shard \<Rightarrow> bytes \<Rightarrow> bytes \<Rightarrow> bool" where
  "index_ok ctx uk m \<longleftrightarrow>
     (\<forall>enc. get_raw ctx (zset_score_key uk enc m) \<noteq> None \<longleftrightarrow>
            (\<exists>s. stored_score ctx uk m = Some s \<and> encode_score s = enc))"

definition zset_indexed :: "shard \<Rightarrow> bool" where
  "zset_indexed ctx \<longleftrightarrow> (\<forall>uk m. short_key uk \<longrightarrow> index_ok ctx uk m)"

lemma opt_f64_eq_encode: "opt_f64_eq a b \<Longrightarrow> map_option encode_score a = map_option encode_score b"
  by (auto simp: opt_f64_eq_def f64_eq_def encode_score_eq split: option.splits)

lemma index_ok_iff:
  "index_ok ctx uk m \<longleftrightarrow>
     (\<forall>enc. get_raw ctx (zset_score_key uk enc m) \<noteq> None \<longleftrightarrow> map_option encode_score (stored_score ctx uk m) = Some enc)"
  by (auto simp: index_ok_def)

lemma stored_score_hlc [shard_simps]: "stored_score (fst (shard_hlc_now now ctx)) uk m = stored_score ctx uk m"
  by (simp add: stored_score_def shard_simps)

lemma zset_indexed_hlc: "zset_indexed (fst (shard_hlc_now now ctx)) = zset_indexed ctx"
  by (simp add: zset_indexed_def index_ok_def shard_simps)

lemma write_merged_pair: "write_merged k v ctx = (fst (write_merged k v ctx), snd (write_merged k v ctx))"
  by simp

lemma apply_member_record_eq:
  "fst (apply_member_record uk m v ctx) =
     (let ctx1 = fst (write_merged (zset_member_key uk m) v ctx);
          old = stored_score ctx uk m; new = score_from_record (merged_at (zset_member_key uk m) v ctx)
      in if opt_f64_eq old new then ctx1
         else let c = (case old of Some s \<Rightarrow> del_raw (zset_score_key uk (encode_score s) m) ctx1 | None \<Rightarrow> ctx1)
              in case new of Some s \<Rightarrow> put_index (zset_score_key uk (encode_score s) m) c | None \<Rightarrow> c)"
  unfolding apply_member_record_def Let_def
  by (subst write_merged_pair, simp only: prod.case fst_conv get_raw_write_merged if_True bind.simps stored_score_def)
    simp

lemma apply_member_record_get:
  assumes "short_key uk" "short_key uk'"
  shows "get_raw (fst (apply_member_record uk m v ctx)) (zset_member_key uk' m') =
      (if uk' = uk \<and> m' = m then Some (merged_at (zset_member_key uk m) v ctx)
       else get_raw ctx (zset_member_key uk' m'))"
    "get_raw (fst (apply_member_record uk m v ctx)) (zset_score_key uk' e m') =
      (let old = stored_score ctx uk m; new = score_from_record (merged_at (zset_member_key uk m) v ctx)
       in if uk' = uk \<and> m' = m \<and> \<not> opt_f64_eq old new
          then if map_option encode_score new = Some e then Some []
               else if map_option encode_score old = Some e then None
               else get_raw ctx (zset_score_key uk' e m')
          else get_raw ctx (zset_score_key uk' e m'))"
  by (auto simp: apply_member_record_eq shard_simps Let_def zset_keys_inject assms split: option.splits)

lemma apply_member_record_indexed:
  assumes "short_key uk" "zset_indexed ctx"
  shows "zset_indexed (fst (apply_member_record uk m v ctx))"
  unfolding zset_indexed_def
proof (intro allI impI)
  fix uk' m'
  assume k: "short_key uk'"
  then have ok: "index_ok ctx uk' m'" using assms(2) by (simp add: zset_indexed_def)
  show "index_ok (fst (apply_member_record uk m v ctx)) uk' m'"
  proof (cases "uk' = uk \<and> m' = m")
    case True
    with ok show ?thesis
      using opt_f64_eq_encode [of "stored_score ctx uk m" "score_from_record (merged_at (zset_member_key uk m) v ctx)"]
      by (simp add: index_ok_iff stored_score_def [of "fst _"] apply_member_record_get [OF assms(1,1)] Let_def)
        (auto simp: map_option_case split: option.splits)
  next
    case False
    with ok show ?thesis
      by (auto simp: index_ok_iff apply_member_record_get [OF assms(1) k] Let_def stored_score_def)
  qed
qed

lemma write_member_indexed:
  assumes "short_key uk" "zset_indexed ctx"
  shows "zset_indexed (write_member now uk m s ctx)"
proof -
  have "zset_indexed (fst (shard_hlc_now now ctx))" using assms(2) by (simp add: zset_indexed_hlc)
  then show ?thesis
    using apply_member_record_indexed [OF assms(1)] by (cases "shard_hlc_now now ctx") (simp add: write_member_def)
qed

section \<open>Records of members\<close>

lemma normalize_idem [simp]: "normalize (normalize s) = normalize s"
proof -
  have desc: "strictly_desc id (covered (normalize s))" "strictly_desc fst (live (normalize s))"
    using sorted_wrt_take [OF strictly_desc_canon [of id "covered s"], of MAX_TOMB_DOTS]
    by (simp_all add: normalize_def Let_def sorted_wrt_take strictly_desc_filter strictly_desc_canon)
  have "\<forall>(d, _)\<in>set (live (normalize s)). d \<notin> set (covered (normalize s))"
    using set_take_subset [of MAX_LIVE_DOTS] by (fastforce simp: normalize_def Let_def)
  then have "filter (\<lambda>(d, _). d \<notin> set (covered (normalize s))) (live (normalize s)) = live (normalize s)"
    by (auto intro: filter_True)
  then show ?thesis
    using normalize_bounds [of s] desc
    by (subst normalize_def) (simp add: canon_id MAX_LIVE_DOTS_def MAX_TOMB_DOTS_def)
qed

lemma stored_normalize:
  assumes "small_values (live s)"
  shows "stored_state (normalize s)"
proof -
  have "set (live (normalize s)) \<subseteq> set (live s)"
    using set_canon_subset [of fst "live s"] by (auto simp: normalize_def Let_def dest!: in_set_takeD)
  then show ?thesis using assms by (auto simp: stored_state_def small_values_def list_all_iff)
qed

lemma stored_join:
  assumes "stored_state l" "stored_state i" "rt \<noteq> RT_CounterField"
  shows "stored_state (join_states rt l i)"
  using assms stored_normalize [of "\<lparr>live = live l @ live i, covered = covered l @ covered i\<rparr>"]
  by (simp add: join_states_def stored_state_def small_values_def)

definition member_record :: "version \<Rightarrow> u64 \<Rightarrow> element_state \<Rightarrow> bytes" where
  "member_record v t st = encode_element RT_ZsetMember v t st"

definition state_score :: "element_state \<Rightarrow> f64 option" where
  "state_score st =
     (case state_value st of None \<Rightarrow> None | Some val \<Rightarrow> if length val = 8 then Some (of_be64 val) else None)"

lemma member_record_decode:
  assumes "stored_state st"
  shows "envelope_decode (member_record v t st) =
      Some (element_env RT_ZsetMember v t (is_dead st), state_encode st)"
    "element_value (state_encode st) = state_value st" "element_dots (state_encode st) = dots st"
    "score_from_record (member_record v t st) = state_score st"
  using assms stored_state_decode [OF assms]
  by (simp_all add: member_record_def encode_element_env stored_state_def element_value_def element_dots_def
      score_from_record_def state_score_def)

lemma member_record_merge:
  assumes "stored_state l" "stored_state i"
  shows "merged_value (member_record v t l) (member_record v' t' i) =
    member_record (max v v') (if v' > v then t' else t) (join_states RT_ZsetMember l i)"
  using merged_value_states [OF _ assms, of RT_ZsetMember] by (simp add: member_record_def is_or_element_def)

text \<open>The record a removal writes: it covers the dots that are live.\<close>

definition removal :: "element_state \<Rightarrow> element_state" where
  "removal st = normalize \<lparr>live = [], covered = dots st\<rparr>"

lemma stored_removal: "stored_state (removal st)"
  unfolding removal_def by (rule stored_normalize) (simp add: small_values_def)

lemma element_remove_record: "element_remove RT_ZsetMember h n (dots st) = member_record (h, n) 0 (removal st)"
  by (simp add: element_remove_def member_record_def removal_def encode_element_env)

lemma visible_element:
  "visible (element_env rt v t dead) pay del now = None \<longleftrightarrow> dead \<or> t \<noteq> 0 \<and> t \<le> now \<or> fst v \<le> del"
  by (auto simp: visible_def is_expired_def) (auto simp: element_env_def)

lemma is_dead_value: "is_dead st \<longleftrightarrow> state_value st = None"
  by (auto simp: is_dead_def state_value_def split: list.splits)

lemma remove_member_record:
  assumes "get_raw ctx (zset_member_key uk m) = Some (member_record v t st)" "stored_state st"
  shows "remove_member now uk m del ctx =
    (if is_dead st \<or> t \<noteq> 0 \<and> t \<le> now \<or> fst v \<le> del then (ctx, False)
     else let ctx1 = fst (shard_hlc_now now ctx);
              ctx2 = fst (write_merged (zset_member_key uk m)
                       (member_record (snd (shard_hlc_now now ctx), sh_node_id ctx1) 0 (removal st)) ctx1)
          in (case state_score st of
                Some s \<Rightarrow> del_raw (zset_score_key uk (encode_score s) m) ctx2
              | None \<Rightarrow> ctx2, True))"
  by (cases "shard_hlc_now now ctx")
    (auto simp: remove_member_def assms member_record_decode [OF assms(2)] visible_element is_dead_value
      element_remove_record Let_def split: option.split)

lemma removal_leaves_nothing:
  assumes "stored_state st" "length (covered st) + length (live st) \<le> 255"
  shows "live (join_states RT_ZsetMember st (removal st)) = []"
proof -
  have rm: "covered (removal st) = take 255 (canon id (dots st))" "live (removal st) = []"
    by (simp_all add: removal_def normalize_def Let_def MAX_TOMB_DOTS_def canon_id)
  have "card (set (dots st)) \<le> 255"
    using card_length [of "dots st"] assms(2) by (simp add: dots_def)
  then have rm': "set (covered (removal st)) = set (dots st)"
    by (simp add: rm length_canon set_canon)
  have "card (set (covered st @ covered (removal st))) \<le> 255"
    using card_length [of "covered st @ dots st"] assms(2) by (simp add: rm' dots_def)
  then have "set (take 255 (canon id (covered st @ covered (removal st)))) = set (covered st) \<union> set (dots st)"
    by (simp add: length_canon set_canon rm')
  moreover have "set (canon fst (live st)) \<subseteq> set (live st)" by (rule set_canon_subset)
  ultimately show ?thesis
    by (force simp: join_states_def normalize_def Let_def MAX_TOMB_DOTS_def rm dots_def filter_empty_conv)
qed

lemma remove_member_indexed:
  assumes "short_key uk" "zset_indexed ctx"
    "get_raw ctx (zset_member_key uk m) = Some (member_record v t st)" "stored_state st"
    "length (covered st) + length (live st) \<le> 255"
  shows "zset_indexed (fst (remove_member now uk m del ctx))"
  unfolding zset_indexed_def
proof (intro allI impI)
  fix uk' m'
  assume k: "short_key uk'"
  then have ok: "get_raw ctx (zset_score_key uk' enc m') = None \<longleftrightarrow>
      map_option encode_score (stored_score ctx uk' m') \<noteq> Some enc" for enc
    using assms(2) unfolding zset_indexed_def index_ok_iff by blast
  have dead: "state_score (join_states RT_ZsetMember st (removal st)) = None"
    using removal_leaves_nothing [OF assms(4,5)] by (simp add: state_score_def state_value_def)
  have "stored_state (join_states RT_ZsetMember st (removal st))"
    by (rule stored_join [OF assms(4) stored_removal]) simp
  with dead have none: "score_from_record (merged_at (zset_member_key uk m)
      (member_record w 0 (removal st)) (fst (shard_hlc_now now ctx))) = None" for w
    by (simp add: merged_at_member [OF assms(1)] shard_simps assms(3) member_record_merge [OF assms(4) stored_removal]
        member_record_decode)
  have sc: "stored_score ctx uk m = state_score st"
    by (simp add: stored_score_def assms(3) member_record_decode [OF assms(4)])
  show "index_ok (fst (remove_member now uk m del ctx)) uk' m'"
    using ok sc none k assms(1)
    by (cases "uk' = uk \<and> m' = m"; cases "state_score st")
      (auto simp: remove_member_record [OF assms(3,4)] index_ok_iff stored_score_def shard_simps zset_keys_inject Let_def
        simp flip: not_None_eq)
qed

section \<open>Walks over the index\<close>

definition index_range :: "shard \<Rightarrow> bytes \<Rightarrow> (bytes \<times> bytes) list" where
  "index_range ctx key = scan_range (collection_prefix Tag_ZsetScore key) (collection_prefix Tag_ZsetScore key) ctx"

definition hits :: "u64 \<Rightarrow> shard \<Rightarrow> bytes \<Rightarrow> u64 \<Rightarrow> (bytes \<times> bytes) list \<Rightarrow> (f64 \<times> bytes) list" where
  "hits now ctx key del xs = List.map_filter (\<lambda>(k, _). index_hit now ctx key del k) xs"

lemma hits_simps [simp]:
  "hits now ctx key del [] = []"
  "hits now ctx key del ((k, v) # xs) =
     (case index_hit now ctx key del k of Some h \<Rightarrow> h # hits now ctx key del xs | None \<Rightarrow> hits now ctx key del xs)"
  by (simp_all add: hits_def List.map_filter_def split: option.splits)

lemma scan_loop_limited:
  "length out < limit \<Longrightarrow>
   scan_loop (\<lambda>k _ out. case index_hit now ctx key del k of
       Some hit \<Rightarrow> (out @ [hit], length (out @ [hit]) < limit)
     | None \<Rightarrow> (out, True)) xs out = take limit (out @ hits now ctx key del xs)"
proof (induction xs arbitrary: out)
  case (Cons x xs)
  then show ?case by (cases x; cases "Suc (length out) < limit") (auto simp: take_Cons' split: option.splits)
qed simp

lemma scored_members_limited_hits:
  "scored_members_limited now ctx key del limit = take limit (hits now ctx key del (index_range ctx key))"
  using scan_loop_limited [of "[]" limit]
  by (cases "limit = 0") (simp_all add: scored_members_limited_def scan_prefix_def index_range_def)

lemma scan_loop_collect:
  "length out < limit \<Longrightarrow>
   fst (scan_loop (collect now ctx key del limit) xs (out, l)) = take limit (out @ hits now ctx key del xs)"
proof (induction xs arbitrary: out l)
  case (Cons x xs)
  then show ?case by (cases x; cases "Suc (length out) < limit") (auto simp: collect_def Let_def take_Cons' split: option.splits)
qed simp

lemma scan_loop_collect_zero:
  "fst (scan_loop (collect now ctx key del 0) xs ([], l)) =
     (case xs of [] \<Rightarrow> [] | (k, _) # _ \<Rightarrow> (case index_hit now ctx key del k of Some h \<Rightarrow> [h] | None \<Rightarrow> []))"
  by (cases xs) (auto simp: collect_def Let_def split: option.splits prod.splits)

text \<open>An index key of a set parses to the score and the member it was built from.\<close>

lemma index_range_key:
  assumes "(k, v) \<in> set (index_range ctx key)"
  obtains suf where "k = prefixed Tag_ZsetScore key suf" "get_raw ctx k = Some v"
  using assms unfolding index_range_def in_scan_prefix
  by (auto simp: collection_prefix_def prefixed_def prefix_def)

lemma index_hit_iff:
  assumes "short_key key"
  shows "index_hit now ctx key del (prefixed Tag_ZsetScore key suf) = Some (s, m) \<longleftrightarrow>
    suf = be64 (encode_score s) @ m \<and> member_score now ctx key m del = Some s"
proof (cases "length suf < 8")
  case True
  then show ?thesis by (auto simp: index_hit_def parse_prefixed [OF _ assms [unfolded short_key_def]])
next
  case False
  then have "suf = be64 (of_be64 (take 8 suf)) @ drop 8 suf" using be_of_be(3) [of "take 8 suf"] by simp
  then obtain e x where suf: "suf = be64 e @ x" by blast
  show ?thesis
    by (auto simp: suf index_hit_def parse_prefixed [OF _ assms [unfolded short_key_def]] split: option.splits)
qed

lemma member_score_stored: "member_score now ctx uk m del = Some s \<Longrightarrow> stored_score ctx uk m = Some s"
  by (auto simp: member_score_def stored_score_def score_from_record_def split: option.splits if_splits)

text \<open>What a reader of a sorted set expects: the visible members, by score and then by name.\<close>

definition ranked :: "u64 \<Rightarrow> shard \<Rightarrow> bytes \<Rightarrow> u64 \<Rightarrow> (f64 \<times> bytes) list \<Rightarrow> bool" where
  "ranked now ctx key del xs \<longleftrightarrow>
     set xs = {(s, m). member_score now ctx key m del = Some s} \<and>
     sorted_wrt (\<lambda>(s, m) (s', m'). f64_key s < f64_key s' \<or> f64_key s = f64_key s' \<and> m < m') xs"

lemma hits_members:
  assumes "short_key key"
  shows "(s, m) \<in> set (hits now ctx key del (index_range ctx key)) \<longleftrightarrow>
    member_score now ctx key m del = Some s \<and> get_raw ctx (zset_score_key key (encode_score s) m) \<noteq> None"
proof
  assume "(s, m) \<in> set (hits now ctx key del (index_range ctx key))"
  then obtain k v where kv: "(k, v) \<in> set (index_range ctx key)" "index_hit now ctx key del k = Some (s, m)"
    by (auto simp: hits_def List.map_filter_def)
  then obtain suf where "k = prefixed Tag_ZsetScore key suf" "get_raw ctx k = Some v" by (elim index_range_key)
  with kv(2) index_hit_iff [OF assms] show
    "member_score now ctx key m del = Some s \<and> get_raw ctx (zset_score_key key (encode_score s) m) \<noteq> None"
    by (auto simp: zset_score_key_def)
next
  let ?k = "zset_score_key key (encode_score s) m"
  assume a: "member_score now ctx key m del = Some s \<and> get_raw ctx ?k \<noteq> None"
  then obtain v where v: "get_raw ctx ?k = Some v" by blast
  have "prefix (collection_prefix Tag_ZsetScore key) ?k"
    by (simp add: collection_prefix_def zset_score_key_def prefixed_def prefix_def)
  with v have "(?k, v) \<in> set (index_range ctx key)" by (simp add: index_range_def in_scan_prefix)
  moreover have "index_hit now ctx key del ?k = Some (s, m)"
    using a index_hit_iff [OF assms] by (simp add: zset_score_key_def)
  ultimately show "(s, m) \<in> set (hits now ctx key del (index_range ctx key))"
    unfolding hits_def List.map_filter_def by force
qed

lemma hits_sorted:
  assumes "short_key key"
  shows "sorted_wrt (\<lambda>(s, m) (s', m'). f64_key s < f64_key s' \<or> f64_key s = f64_key s' \<and> m < m')
    (hits now ctx key del (index_range ctx key))"
proof -
  have "sorted_wrt (\<lambda>(s, m) (s', m'). f64_key s < f64_key s' \<or> f64_key s = f64_key s' \<and> m < m')
      (hits now ctx key del xs)"
    if "sorted_wrt (\<lambda>a b. fst a < fst b) xs" "\<forall>(k, v)\<in>set xs. \<exists>suf. k = prefixed Tag_ZsetScore key suf" for xs
    using that
  proof (induction xs)
    case (Cons x xs)
    obtain k v where x: "x = (k, v)" by (cases x)
    show ?case
    proof (cases "index_hit now ctx key del k")
      case (Some h)
      obtain s m where h: "h = (s, m)" by (cases h)
      have k: "k = zset_score_key key (encode_score s) m"
        using Cons.prems(2) Some index_hit_iff [OF assms] by (auto simp: x h zset_score_key_def)
      have "f64_key s < f64_key s' \<or> f64_key s = f64_key s' \<and> m < m'"
        if s': "(s', m') \<in> set (hits now ctx key del xs)" for s' m'
      proof -
        obtain k' v' where kv: "(k', v') \<in> set xs" "index_hit now ctx key del k' = Some (s', m')"
          using s' by (auto simp: hits_def List.map_filter_def)
        then have "k' = zset_score_key key (encode_score s') m'"
          using Cons.prems(2) index_hit_iff [OF assms] by (auto simp: zset_score_key_def)
        moreover have "k < k'" using Cons.prems(1) kv(1) by (auto simp: x)
        ultimately have "(encode_score s, m) < (encode_score s', m')"
          by (auto simp: k zset_score_key_def prefixed_less_iff be_less_iff less_append_same_length)
        then show ?thesis by (auto simp: order_le_less encode_score_less encode_score_eq)
      qed
      with Cons Some show ?thesis by (auto simp: x h)
    qed (use Cons x in simp)
  qed simp
  moreover have "\<forall>(k, v)\<in>set (index_range ctx key). \<exists>suf. k = prefixed Tag_ZsetScore key suf"
    by (auto elim: index_range_key)
  moreover have "sorted_wrt (\<lambda>a b. fst a < fst b) (index_range ctx key)"
    unfolding index_range_def by (rule scan_range_sorted)
  ultimately show ?thesis by blast
qed

lemma hits_ranked:
  assumes "short_key key" "zset_indexed ctx"
  shows "ranked now ctx key del (hits now ctx key del (index_range ctx key))"
proof -
  have "get_raw ctx (zset_score_key key (encode_score s) m) \<noteq> None"
    if "member_score now ctx key m del = Some s" for s m
    using assms member_score_stored [OF that] by (auto simp: zset_indexed_def index_ok_def)
  then show ?thesis
    using hits_members [OF assms(1)] hits_sorted [OF assms(1)] unfolding ranked_def by auto
qed

end
