(* ===== verification/Anti_Entropy_Laws.thy ===== *)
theory Anti_Entropy_Laws
  imports Anti_Entropy Zset_Laws
begin

text \<open>
  One exchange of anti-entropy, key by key: which records travel, and what both sides hold afterwards.
\<close>

section \<open>Scans that visit everything\<close>

definition bucket_scan :: "hash \<Rightarrow> pid \<Rightarrow> u8 \<Rightarrow> shard \<Rightarrow> (bytes \<times> bytes) list" where
  "bucket_scan xxh3 p bucket ctx =
     filter (\<lambda>(k, _). \<not> local_only k \<and> bucket_of xxh3 k = bucket)
       (scan_range (partition_prefix p) (partition_prefix p) ctx)"

text \<open>The keys of one bucket of a partition.\<close>

definition bucket_key :: "hash \<Rightarrow> pid \<Rightarrow> u8 \<Rightarrow> bytes \<Rightarrow> bool" where
  "bucket_key xxh3 p bucket k \<longleftrightarrow> prefix (partition_prefix p) k \<and> \<not> local_only k \<and> bucket_of xxh3 k = bucket"

lemma in_bucket_scan: "(k, v) \<in> set (bucket_scan xxh3 p bucket ctx) \<longleftrightarrow> bucket_key xxh3 p bucket k \<and> get_raw ctx k = Some v"
  by (auto simp: bucket_scan_def bucket_key_def in_scan_prefix)

lemma distinct_bucket_scan: "distinct (map fst (bucket_scan xxh3 p bucket ctx))"
proof -
  have "sorted_wrt (<) (map fst (scan_range (partition_prefix p) (partition_prefix p) ctx))"
    using scan_range_sorted by (simp add: sorted_wrt_map)
  then have "distinct (map fst (scan_range (partition_prefix p) (partition_prefix p) ctx))"
    using strict_sorted_iff by blast
  then show ?thesis by (simp add: bucket_scan_def distinct_map_filter)
qed

lemma foldl_append_if:
  "foldl (\<lambda>acc x. if P x then acc @ [f x] else acc) acc xs = acc @ map f (filter P xs)"
  by (induction xs arbitrary: acc) auto

definition entry_of :: "hash \<Rightarrow> bytes \<times> bytes \<Rightarrow> bucket_entry" where
  "entry_of xxh3 = (\<lambda>(k, v). (xxh3 k, record_hlc v, record_vhash xxh3 v))"

definition op_of :: "bytes \<times> bytes \<Rightarrow> repl_op" where
  "op_of = (\<lambda>(k, v). \<lparr>op_ikey = k, op_value = v\<rparr>)"

lemma bucket_fold:
  assumes "\<And>k v acc. f k v acc = (if \<not> local_only k \<and> bucket_of xxh3 k = bucket then g acc (k, v) else acc, True)"
  shows "scan_prefix (partition_prefix p) f ctx acc = foldl g acc (bucket_scan xxh3 p bucket ctx)"
proof -
  have "scan_loop f xs acc = foldl g acc (filter (\<lambda>(k, _). \<not> local_only k \<and> bucket_of xxh3 k = bucket) xs)" for xs
  proof (induction xs arbitrary: acc)
    case (Cons x xs)
    then show ?case by (cases x) (simp add: assms)
  qed simp
  then show ?thesis by (simp add: scan_prefix_def bucket_scan_def)
qed

lemma bucket_entries_eq: "bucket_entries xxh3 p bucket ctx = map (entry_of xxh3) (bucket_scan xxh3 p bucket ctx)"
  unfolding bucket_entries_def
  by (subst bucket_fold [where g = "\<lambda>es x. if True then es @ [entry_of xxh3 x] else es" and ?xxh3.0 = xxh3 and bucket = bucket])
    (simp_all only: foldl_append_if, auto simp: entry_of_def)

lemma records_by_hash_eq:
  "records_by_hash xxh3 p bucket hs ctx = map op_of (filter (\<lambda>x. xxh3 (fst x) \<in> set hs) (bucket_scan xxh3 p bucket ctx))"
  unfolding records_by_hash_def
  by (subst bucket_fold [where g = "\<lambda>ops x. if xxh3 (fst x) \<in> set hs then ops @ [op_of x] else ops" and ?xxh3.0 = xxh3
        and bucket = bucket])
    (simp_all only: foldl_append_if, auto simp: op_of_def)

text \<open>The two results of the comparison, each as a pass of its own.\<close>

definition my_entries :: "hash \<Rightarrow> (bytes \<times> bytes) list \<Rightarrow> (u64 \<times> u64 \<times> u64) list" where
  "my_entries xxh3 xs = foldl (\<lambda>m x. AList.update (fst (entry_of xxh3 x)) (snd (entry_of xxh3 x)) m) [] xs"

lemma diff_bucket_eq:
  "diff_bucket xxh3 p bucket theirs ctx =
     (let xs = bucket_scan xxh3 p bucket ctx
      in (map op_of (filter (\<lambda>(k, v). send_needed (record_hlc v) (record_vhash xxh3 v) (map_of (hash_map theirs) (xxh3 k))) xs),
          map fst (filter (\<lambda>(h, (thlc, tvh)). send_needed thlc tvh (map_of (my_entries xxh3 xs) h)) (hash_map theirs))))"
proof -
  let ?P = "\<lambda>x. send_needed (record_hlc (snd x)) (record_vhash xxh3 (snd x)) (map_of (hash_map theirs) (xxh3 (fst x)))"
  let ?u = "\<lambda>m x. AList.update (fst (entry_of xxh3 x)) (snd (entry_of xxh3 x)) m"
  have two: "foldl (\<lambda>(push, mine) x. (if ?P x then push @ [op_of x] else push, ?u mine x)) (push, mine) xs =
      (push @ map op_of (filter ?P xs), foldl ?u mine xs)" for push mine xs
    by (induction xs arbitrary: push mine) auto
  let ?f = "\<lambda>k v (push, mine).
      if local_only k then ((push, mine), True)
      else if bucket_of xxh3 k \<noteq> bucket then ((push, mine), True)
      else let h = xxh3 k; hl = record_hlc v; vh = record_vhash xxh3 v;
               push' = (if send_needed hl vh (map_of (hash_map theirs) h)
                        then push @ [\<lparr>op_ikey = k, op_value = v\<rparr>] else push)
           in ((push', AList.update h (hl, vh) mine), True)"
  have "scan_prefix (partition_prefix p) ?f ctx ([], []) =
      foldl (\<lambda>(push, mine) x. (if ?P x then push @ [op_of x] else push, ?u mine x)) ([], [])
        (bucket_scan xxh3 p bucket ctx)"
    by (rule bucket_fold) (auto simp: op_of_def entry_of_def Let_def)
  then have "scan_prefix (partition_prefix p) ?f ctx ([], []) =
      (map op_of (filter ?P (bucket_scan xxh3 p bucket ctx)), my_entries xxh3 (bucket_scan xxh3 p bucket ctx))"
    by (simp only: two append_Nil my_entries_def)
  then show ?thesis
    unfolding diff_bucket_def Let_def by (simp add: case_prod_unfold)
qed

text \<open>Without collisions the entries are a map from the hashed keys.\<close>

lemma map_of_update_fold:
  assumes "distinct (map f xs)"
  shows "map_of (foldl (\<lambda>m x. AList.update (f x) (g x) m) m xs) =
    (\<lambda>h. case map_of (map (\<lambda>x. (f x, g x)) xs) h of Some y \<Rightarrow> Some y | None \<Rightarrow> map_of m h)"
  using assms
proof (induction xs arbitrary: m)
  case (Cons x xs)
  have "map_of (map (\<lambda>x. (f x, g x)) xs) (f x) = None"
    using Cons.prems by (force simp: map_of_eq_None_iff)
  with Cons show ?case by (auto simp: update_conv' fun_eq_iff split: option.split)
qed simp

lemma map_of_inj_map:
  assumes "inj_on f (fst ` set xs)" "distinct (map fst xs)" "k \<in> K" "inj_on f K" "fst ` set xs \<subseteq> K"
  shows "map_of (map (\<lambda>x. (f (fst x), g x)) xs) (f k) = map_option (\<lambda>v. g (k, v)) (map_of xs k)"
  using assms
proof (induction xs)
  case (Cons x xs)
  have "f (fst x) = f k \<longleftrightarrow> fst x = k" using Cons.prems by (auto dest: inj_onD)
  with Cons show ?case by (cases x) (auto simp: inj_on_def)
qed simp

text \<open>The keys of the bucket that a shard holds.\<close>

definition bucket_keys :: "hash \<Rightarrow> pid \<Rightarrow> u8 \<Rightarrow> shard \<Rightarrow> bytes set" where
  "bucket_keys xxh3 p bucket ctx = {k. bucket_key xxh3 p bucket k \<and> get_raw ctx k \<noteq> None}"

lemma keys_bucket_scan: "fst ` set (bucket_scan xxh3 p bucket ctx) = bucket_keys xxh3 p bucket ctx"
  by (auto simp: bucket_keys_def image_iff in_bucket_scan Bex_def)

lemma map_of_bucket_scan:
  "bucket_key xxh3 p bucket k \<Longrightarrow> map_of (bucket_scan xxh3 p bucket ctx) k = get_raw ctx k"
  using in_bucket_scan [of k _ xxh3 p bucket ctx]
  by (cases "get_raw ctx k")
    (auto simp: map_of_eq_None_iff distinct_bucket_scan intro!: map_of_is_SomeI)

definition entry_at :: "hash \<Rightarrow> bytes option \<Rightarrow> (u64 \<times> u64) option" where
  "entry_at xxh3 = map_option (\<lambda>v. (record_hlc v, record_vhash xxh3 v))"

lemma my_entries_at:
  assumes "inj_on xxh3 K" "bucket_keys xxh3 p bucket ctx \<subseteq> K" "k \<in> K" "bucket_key xxh3 p bucket k"
  shows "map_of (my_entries xxh3 (bucket_scan xxh3 p bucket ctx)) (xxh3 k) = entry_at xxh3 (get_raw ctx k)"
proof -
  let ?xs = "bucket_scan xxh3 p bucket ctx"
  have inj: "inj_on xxh3 (fst ` set ?xs)" using assms(1,2) by (simp add: keys_bucket_scan inj_on_subset)
  have "distinct (map xxh3 (map fst ?xs))"
    using distinct_bucket_scan inj by (subst distinct_map) auto
  then have "distinct (map (\<lambda>x. fst (entry_of xxh3 x)) ?xs)"
    by (simp add: entry_of_def case_prod_unfold comp_def)
  then have "map_of (my_entries xxh3 ?xs) (xxh3 k) =
      map_of (map (\<lambda>x. (fst (entry_of xxh3 x), snd (entry_of xxh3 x))) ?xs) (xxh3 k)"
    unfolding my_entries_def by (subst map_of_update_fold) (auto split: option.split)
  also have "\<dots> = map_of (map (\<lambda>x. (xxh3 (fst x), record_hlc (snd x), record_vhash xxh3 (snd x))) ?xs) (xxh3 k)"
    by (simp add: entry_of_def case_prod_unfold)
  also have "\<dots> = map_option (\<lambda>v. (record_hlc (snd (k, v)), record_vhash xxh3 (snd (k, v)))) (map_of ?xs k)"
    by (rule map_of_inj_map [OF inj distinct_bucket_scan assms(3,1)]) (use assms(2) in \<open>simp add: keys_bucket_scan\<close>)
  finally show ?thesis using map_of_bucket_scan [OF assms(4)] by (simp add: entry_at_def)
qed

lemma hash_map_entries: "hash_map (bucket_entries xxh3 p bucket ctx) = my_entries xxh3 (bucket_scan xxh3 p bucket ctx)"
  by (simp add: hash_map_def my_entries_def bucket_entries_eq foldl_map case_prod_unfold)

lemma keys_update_fold: "fst ` set (foldl (\<lambda>m x. AList.update (f x) (g x) m) m xs) = fst ` set m \<union> f ` set xs"
  by (induction xs arbitrary: m) (auto simp: dom_update)

lemma keys_my_entries: "fst ` set (my_entries xxh3 (bucket_scan xxh3 p bucket ctx)) = xxh3 ` bucket_keys xxh3 p bucket ctx"
  unfolding my_entries_def keys_update_fold keys_bucket_scan [symmetric]
  by (auto simp: entry_of_def case_prod_unfold image_image)

lemma distinct_my_entries: "distinct (map fst (my_entries xxh3 xs))"
proof -
  have "distinct (map fst m) \<Longrightarrow>
      distinct (map fst (foldl (\<lambda>m x. AList.update (fst (entry_of xxh3 x)) (snd (entry_of xxh3 x)) m) m xs))" for m
    by (induction xs arbitrary: m) (simp_all add: distinct_update)
  then show ?thesis by (simp add: my_entries_def)
qed

section \<open>Which records travel\<close>

definition sends :: "hash \<Rightarrow> bytes option \<Rightarrow> bytes option \<Rightarrow> bool" where
  "sends xxh3 mine theirs =
     (case mine of None \<Rightarrow> False | Some v \<Rightarrow> send_needed (record_hlc v) (record_vhash xxh3 v) (entry_at xxh3 theirs))"

lemma pushed_records:
  assumes "inj_on xxh3 K" "bucket_keys xxh3 p bucket a \<subseteq> K" "bucket_keys xxh3 p bucket b \<subseteq> K"
  shows "fst (on_bucket_keys xxh3 p bucket (bucket_entries xxh3 p bucket b) False a) =
    map op_of (filter (\<lambda>(k, v). sends xxh3 (Some v) (get_raw b k)) (bucket_scan xxh3 p bucket a))"
proof -
  have "send_needed (record_hlc v) (record_vhash xxh3 v) (map_of (hash_map (bucket_entries xxh3 p bucket b)) (xxh3 k)) =
      sends xxh3 (Some v) (get_raw b k)" if "(k, v) \<in> set (bucket_scan xxh3 p bucket a)" for k v
  proof -
    have "bucket_key xxh3 p bucket k" "k \<in> K" using that assms(2) by (auto simp: in_bucket_scan bucket_keys_def)
    then show ?thesis using my_entries_at [OF assms(1,3)] by (simp add: sends_def hash_map_entries)
  qed
  then show ?thesis
    by (auto simp: on_bucket_keys_def diff_bucket_eq Let_def intro!: arg_cong [where f = "map op_of"] filter_cong)
qed

lemma requested_hashes:
  assumes "inj_on xxh3 K" "bucket_keys xxh3 p bucket a \<subseteq> K" "bucket_keys xxh3 p bucket b \<subseteq> K" "k \<in> K"
    "bucket_key xxh3 p bucket k"
  shows "xxh3 k \<in> set (snd (on_bucket_keys xxh3 p bucket (bucket_entries xxh3 p bucket b) False a)) \<longleftrightarrow>
    sends xxh3 (get_raw b k) (get_raw a k)"
proof -
  let ?m = "my_entries xxh3 (bucket_scan xxh3 p bucket b)"
  have b: "map_of ?m (xxh3 k) = entry_at xxh3 (get_raw b k)"
    and a: "map_of (my_entries xxh3 (bucket_scan xxh3 p bucket a)) (xxh3 k) = entry_at xxh3 (get_raw a k)"
    by (rule my_entries_at [OF assms(1) _ assms(4,5)], use assms in blast)+
  have "xxh3 k \<in> set (snd (on_bucket_keys xxh3 p bucket (bucket_entries xxh3 p bucket b) False a)) \<longleftrightarrow>
      (\<exists>th tv. (xxh3 k, th, tv) \<in> set ?m \<and> send_needed th tv (entry_at xxh3 (get_raw a k)))"
    unfolding a [symmetric] by (force simp: on_bucket_keys_def diff_bucket_eq hash_map_entries Let_def)
  also have "\<dots> \<longleftrightarrow> (\<exists>th tv. map_of ?m (xxh3 k) = Some (th, tv) \<and> send_needed th tv (entry_at xxh3 (get_raw a k)))"
    by (simp add: map_of_eq_Some_iff distinct_my_entries)
  finally show ?thesis unfolding b by (auto simp: sends_def entry_at_def split: option.splits)
qed

section \<open>What applying them does\<close>

text \<open>
  The keys whose records merge by value: every key the engine writes except those of budgets, whose merge
  depends on the key. A key with the tag of a sorted set member is the one built from its parts.
\<close>

definition value_merged :: "bytes \<Rightarrow> bool" where
  "value_merged k =
     (case ikey_parse k of
        None \<Rightarrow> False
      | Some pk \<Rightarrow> pk_tag pk \<noteq> tag_code Tag_Budget \<and>
          (pk_tag pk = 122 \<longrightarrow> short_key (pk_userkey pk) \<and> k = zset_member_key (pk_userkey pk) (pk_suffix pk)))"

lemma parse_pid: "prefix (partition_prefix p) k \<Longrightarrow> ikey_parse k = Some pk \<Longrightarrow> pk_pid pk = p"
proof -
  have "of_be16 (slice 0 2 (be16 p @ zs)) = p" for zs by (simp add: slice_def)
  then show "prefix (partition_prefix p) k \<Longrightarrow> ikey_parse k = Some pk \<Longrightarrow> pk_pid pk = p"
    by (auto simp: prefix_def partition_prefix_def ikey_parse_def Let_def split: if_splits option.splits prod.splits)
qed

definition receive :: "bytes option \<Rightarrow> bytes \<Rightarrow> bytes" where
  "receive held v = (case held of None \<Rightarrow> v | Some l \<Rightarrow> merged_value l v)"

lemma merged_at_value: "value_merged k \<Longrightarrow> merged_at k v ctx = receive (get_raw ctx k) v"
  by (auto simp: value_merged_def merged_at_def merge_outcome_for_def merged_value_def receive_def split: option.splits)

lemma score_key_local: "short_key uk \<Longrightarrow> local_only (zset_score_key uk e m)"
  by (simp add: local_only_def zset_keys_parse)

lemma get_apply_member_record:
  assumes "short_key uk" "\<not> local_only k"
  shows "get_raw (fst (apply_member_record uk m v ctx)) k =
    (if k = zset_member_key uk m then Some (merged_at k v ctx) else get_raw ctx k)"
proof -
  have "k \<noteq> zset_score_key uk e m" for e using assms score_key_local by blast
  then show ?thesis by (auto simp: apply_member_record_eq Let_def shard_simps split: option.split)
qed

lemma get_invalidate_hint [shard_simps]: "get_raw (invalidate_hint key ctx) k = get_raw ctx k"
  by (simp add: get_raw_def invalidate_hint_def)

lemma get_observe_record [shard_simps]: "get_raw (observe_record now op ctx) k = get_raw ctx k"
  by (simp add: get_raw_def observe_record_def split: option.split)

lemma get_apply_batch_op:
  assumes "prefix (partition_prefix p) k" "value_merged k" "\<not> local_only k'"
  shows "get_raw (apply_batch_op p ctx (op_of (k, v))) k' =
    (if k' = k then Some (receive (get_raw ctx k) v) else get_raw ctx k')"
proof -
  obtain pk where pk: "ikey_parse k = Some pk" "pk_pid pk = p"
    "pk_tag pk = 122 \<Longrightarrow> short_key (pk_userkey pk) \<and> k = zset_member_key (pk_userkey pk) (pk_suffix pk)"
    using assms(1,2) parse_pid by (fastforce simp: value_merged_def split: option.splits)
  show ?thesis
  proof (cases "pk_tag pk = 122")
    case True
    with pk have "get_raw (apply_batch_op p ctx (op_of (k, v))) k' =
        (if k' = k then Some (merged_at k' v ctx) else get_raw ctx k')"
      using get_apply_member_record [OF _ assms(3)] by (simp add: apply_batch_op_def apply_record_def op_of_def)
    then show ?thesis using merged_at_value [OF assms(2)] by simp
  next
    case False
    with pk show ?thesis
      using merged_at_value [OF assms(2)]
      by (simp add: apply_batch_op_def apply_record_def op_of_def shard_simps Let_def)
  qed
qed

lemma get_observe_fold: "get_raw (foldl (\<lambda>c op. observe_record now op c) ctx ops) k = get_raw ctx k"
  by (induction ops arbitrary: ctx) (simp_all add: shard_simps)

lemma get_apply_ops_batch:
  assumes "\<forall>x\<in>set xs. prefix (partition_prefix p) (fst x) \<and> value_merged (fst x)" "distinct (map fst xs)" "\<not> local_only k"
  shows "get_raw (apply_ops_batch now p (map op_of xs) ctx) k =
    (case map_of xs k of None \<Rightarrow> get_raw ctx k | Some v \<Rightarrow> Some (receive (get_raw ctx k) v))"
proof -
  have "get_raw (foldl (apply_batch_op p) ctx (map op_of xs)) k =
      (case map_of xs k of None \<Rightarrow> get_raw ctx k | Some v \<Rightarrow> Some (receive (get_raw ctx k) v))" for ctx
    using assms(1,2)
  proof (induction xs arbitrary: ctx)
    case (Cons x xs)
    obtain k1 v1 where x: "x = (k1, v1)" by (cases x)
    have "map_of xs k1 = None" using Cons.prems(2) by (simp add: x map_of_eq_None_iff)
    moreover have "get_raw (apply_batch_op p ctx (op_of (k1, v1))) k =
        (if k = k1 then Some (receive (get_raw ctx k) v1) else get_raw ctx k)"
      using get_apply_batch_op [OF _ _ assms(3), of p k1 ctx v1] Cons.prems(1) by (simp add: x)
    ultimately show ?case using Cons by (cases "k = k1") (simp_all add: x split: option.split)
  qed simp
  then show ?thesis by (simp add: apply_ops_batch_def get_observe_fold split: option.split)
qed

section \<open>One exchange, key by key\<close>

definition pair_step :: "hash \<Rightarrow> bytes option \<times> bytes option \<Rightarrow> bytes option \<times> bytes option" where
  "pair_step xxh3 = (\<lambda>(x, y).
     let y' = (if sends xxh3 x y then map_option (receive y) x else y)
     in (if sends xxh3 y x then map_option (receive x) y' else x, y'))"

lemma map_of_filter_key:
  "distinct (map fst xs) \<Longrightarrow> map_of (filter (\<lambda>(k, v). P k v) xs) k =
     (case map_of xs k of None \<Rightarrow> None | Some v \<Rightarrow> if P k v then Some v else None)"
  by (induction xs) (auto simp: map_of_eq_None_iff rev_image_eqI split: option.split)

lemma bucket_scan_keys:
  assumes "\<forall>k\<in>bucket_keys xxh3 p bucket a. value_merged k"
  shows "\<forall>x\<in>set (filter P (bucket_scan xxh3 p bucket a)). prefix (partition_prefix p) (fst x) \<and> value_merged (fst x)"
  using assms by (auto simp: in_bucket_scan bucket_keys_def bucket_key_def)

lemma ae_exchange_keys:
  assumes inj: "inj_on xxh3 (bucket_keys xxh3 p bucket a \<union> bucket_keys xxh3 p bucket b)"
    and vm: "\<forall>k\<in>bucket_keys xxh3 p bucket a \<union> bucket_keys xxh3 p bucket b. value_merged k"
    and k: "bucket_key xxh3 p bucket k"
    and step: "ae_exchange xxh3 now p bucket (a, b) = (a', b')"
  shows "(get_raw a' k, get_raw b' k) = pair_step xxh3 (get_raw a k, get_raw b k)"
proof -
  let ?K = "bucket_keys xxh3 p bucket a \<union> bucket_keys xxh3 p bucket b"
  have sub: "bucket_keys xxh3 p bucket a \<subseteq> ?K" "bucket_keys xxh3 p bucket b \<subseteq> ?K" by auto
  have nl: "\<not> local_only k'" if "bucket_key xxh3 p bucket k'" for k' using that by (simp add: bucket_key_def)
  obtain push want where pw: "on_bucket_keys xxh3 p bucket (bucket_entries xxh3 p bucket b) False a = (push, want)"
    by fastforce
  let ?xs = "filter (\<lambda>(k, v). sends xxh3 (Some v) (get_raw b k)) (bucket_scan xxh3 p bucket a)"
  have push: "push = map op_of ?xs" using pushed_records [OF inj sub] pw by simp
  have b': "b' = apply_ops_batch now p push b"
    and a': "a' = apply_ops_batch now p (records_by_hash xxh3 p bucket want b') a"
    using step by (auto simp: ae_exchange_def pw on_request_keys_def Let_def)
  have getb: "get_raw b' k' = (if sends xxh3 (get_raw a k') (get_raw b k')
      then map_option (receive (get_raw b k')) (get_raw a k') else get_raw b k')" if "bucket_key xxh3 p bucket k'" for k'
    unfolding b' push
    by (subst get_apply_ops_batch [OF bucket_scan_keys])
      (use vm nl [OF that] in \<open>auto simp: distinct_map_filter distinct_bucket_scan map_of_filter_key
          map_of_bucket_scan [OF that] sends_def split: option.split\<close>)
  have keysb: "bucket_keys xxh3 p bucket b' \<subseteq> ?K"
    using getb by (auto simp: bucket_keys_def sends_def split: if_splits option.splits)
  let ?ys = "filter (\<lambda>(k, v). xxh3 k \<in> set want) (bucket_scan xxh3 p bucket b')"
  have "records_by_hash xxh3 p bucket want b' = map op_of ?ys"
    by (simp add: records_by_hash_eq case_prod_unfold)
  moreover have "\<forall>k\<in>bucket_keys xxh3 p bucket b'. value_merged k" using keysb vm by auto
  moreover have "distinct (map fst ?ys)" by (simp add: distinct_map_filter distinct_bucket_scan)
  ultimately have geta: "get_raw a' k = (case if xxh3 k \<in> set want then get_raw b' k else None of
      None \<Rightarrow> get_raw a k | Some v \<Rightarrow> Some (receive (get_raw a k) v))"
    unfolding a' by (auto simp: get_apply_ops_batch [OF bucket_scan_keys _ nl [OF k]] map_of_filter_key
        distinct_bucket_scan map_of_bucket_scan [OF k] split: option.split)
  have want: "xxh3 k \<in> set want \<longleftrightarrow> sends xxh3 (get_raw b k) (get_raw a k)" if "k \<in> ?K"
    using requested_hashes [OF inj sub that k] pw by simp
  show ?thesis
  proof (cases "k \<in> ?K")
    case True
    then show ?thesis
      using geta getb [OF k] want by (auto simp: pair_step_def Let_def sends_def split: option.splits)
  next
    case False
    then have "get_raw a k = None" "get_raw b k = None" using k by (auto simp: bucket_keys_def)
    then show ?thesis using geta getb [OF k] by (simp add: pair_step_def sends_def)
  qed
qed

lemma pair_step_less:
  "record_hlc v < record_hlc w \<Longrightarrow> pair_step xxh3 (Some v, Some w) = (Some (merged_value v w), Some w)"
  by (auto simp: pair_step_def sends_def send_needed_def entry_at_def receive_def Let_def)

lemma pair_step_greater:
  "record_hlc w < record_hlc v \<Longrightarrow> pair_step xxh3 (Some v, Some w) = (Some v, Some (merged_value w v))"
  by (auto simp: pair_step_def sends_def send_needed_def entry_at_def receive_def Let_def)

lemma pair_step_same:
  "record_hlc v = record_hlc w \<Longrightarrow> pair_step xxh3 (Some v, Some w) =
     (if xxh3 v = xxh3 w then (Some v, Some w)
      else (Some (merged_value v (merged_value w v)), Some (merged_value w v)))"
  by (auto simp: pair_step_def sends_def send_needed_def entry_at_def receive_def Let_def record_vhash_def)

lemma pair_step_None: "pair_step xxh3 (None, None) = (None, None)"
  by (simp add: pair_step_def sends_def)

lemma ae_exchange_bucket_keys:
  assumes "inj_on xxh3 (bucket_keys xxh3 p bucket a \<union> bucket_keys xxh3 p bucket b)"
    "\<forall>k\<in>bucket_keys xxh3 p bucket a \<union> bucket_keys xxh3 p bucket b. value_merged k"
    "ae_exchange xxh3 now p bucket (a, b) = (a', b')"
  shows "bucket_keys xxh3 p bucket a' \<union> bucket_keys xxh3 p bucket b' \<subseteq>
    bucket_keys xxh3 p bucket a \<union> bucket_keys xxh3 p bucket b"
proof
  fix k
  assume k: "k \<in> bucket_keys xxh3 p bucket a' \<union> bucket_keys xxh3 p bucket b'"
  then have bk: "bucket_key xxh3 p bucket k" by (auto simp: bucket_keys_def)
  have "(get_raw a k, get_raw b k) \<noteq> (None, None)"
  proof
    assume "(get_raw a k, get_raw b k) = (None, None)"
    then have "(get_raw a' k, get_raw b' k) = (None, None)"
      using ae_exchange_keys [OF assms(1,2) bk assms(3)] pair_step_None by simp
    with k show False by (auto simp: bucket_keys_def)
  qed
  with bk show "k \<in> bucket_keys xxh3 p bucket a \<union> bucket_keys xxh3 p bucket b" by (auto simp: bucket_keys_def)
qed

lemma exchange_fixpoint:
  assumes "inj_on xxh3 (bucket_keys xxh3 p bucket a \<union> bucket_keys xxh3 p bucket b)"
    "\<forall>k\<in>bucket_keys xxh3 p bucket a \<union> bucket_keys xxh3 p bucket b. value_merged k"
    "bucket_key xxh3 p bucket k" "(get_raw a k, get_raw b k) = xy" "pair_step xxh3 xy = xy"
    "(ae_exchange xxh3 now p bucket ^^ n) (a, b) = (a', b')"
  shows "(get_raw a' k, get_raw b' k) = xy"
  using assms
proof (induction n arbitrary: a b)
  case (Suc n)
  obtain a1 b1 where step: "ae_exchange xxh3 now p bucket (a, b) = (a1, b1)" by fastforce
  note keys = ae_exchange_bucket_keys [OF Suc.prems(1,2) step]
  show ?case
  proof (rule Suc.IH)
    show "inj_on xxh3 (bucket_keys xxh3 p bucket a1 \<union> bucket_keys xxh3 p bucket b1)"
      "\<forall>k\<in>bucket_keys xxh3 p bucket a1 \<union> bucket_keys xxh3 p bucket b1. value_merged k"
      using keys Suc.prems(1,2) by (auto intro: inj_on_subset)
    show "(get_raw a1 k, get_raw b1 k) = xy"
      using ae_exchange_keys [OF Suc.prems(1-3) step] Suc.prems(4,5) by simp
    show "(ae_exchange xxh3 now p bucket ^^ n) (a1, b1) = (a', b')"
      using Suc.prems(6) step by (simp add: funpow_Suc_right del: funpow.simps)
  qed (use Suc.prems in auto)
qed simp

section \<open>Repair\<close>

text \<open>
  What anti-entropy needs of a record type besides convergence: it compares clocks, so the merge of two
  records must carry the greater one.
\<close>

locale repairable = convergent_merge merged_value carrier for carrier +
  assumes clock_join: "x \<in> carrier \<Longrightarrow> y \<in> carrier \<Longrightarrow> record_hlc (merged_value x y) = max (record_hlc x) (record_hlc y)"

definition joined :: "bytes option \<Rightarrow> bytes option \<Rightarrow> bytes option" where
  "joined x y = (case x of None \<Rightarrow> y | Some v \<Rightarrow> Some (receive y v))"

context repairable
begin

lemma two_steps:
  assumes c: "set_option x \<union> set_option y \<subseteq> carrier"
    and inj: "inj_on xxh3 (set_option x \<union> set_option y \<union> set_option (joined x y))"
  shows "pair_step xxh3 (pair_step xxh3 (x, y)) = (joined x y, joined x y)"
proof (cases "x = None \<or> y = None")
  case True
  then show ?thesis
    by (auto simp: pair_step_def sends_def send_needed_def entry_at_def joined_def receive_def split: option.splits)
next
  case False
  then obtain v w where xy: "x = Some v" "y = Some w" by auto
  have vw: "v \<in> carrier" "w \<in> carrier" using c by (simp_all add: xy)
  let ?m = "merged_value w v"
  have mc: "?m \<in> carrier" using vw closed by blast
  have r: "merged_value ?m v = ?m" "merged_value ?m w = ?m" "merged_value ?m ?m = ?m"
    using vw absorb_left absorb_right idem [OF mc] by auto
  have m: "merged_value v w = ?m" "merged_value v ?m = ?m" "merged_value w ?m = ?m"
    using commute [OF vw] commute [OF vw(1) mc] commute [OF vw(2) mc] r by simp_all
  have clk: "record_hlc ?m = max (record_hlc v) (record_hlc w)" using clock_join [OF vw(2,1)] by (simp add: max.commute)
  have "set_option x \<union> set_option y \<union> set_option (joined x y) = {v, w, ?m}"
    by (auto simp: xy joined_def receive_def)
  then have h: "xxh3 a = xxh3 b \<longleftrightarrow> a = b" if "a \<in> {v, w, ?m}" "b \<in> {v, w, ?m}" for a b
    using inj that inj_on_eq_iff by metis
  have eq: "pair_step xxh3 (Some a, Some b) =
      (if a = b then (Some a, Some b) else (Some (merged_value a (merged_value b a)), Some (merged_value b a)))"
    if "record_hlc a = record_hlc b" "a \<in> {v, w, ?m}" "b \<in> {v, w, ?m}" for a b
    using pair_step_same [OF that(1)] h [OF that(2,3)] by simp
  consider "record_hlc v < record_hlc w" | "record_hlc w < record_hlc v" | "record_hlc v = record_hlc w" by force
  then show ?thesis
  proof cases
    case 1
    with clk have "record_hlc ?m = record_hlc w" by simp
    then show ?thesis using pair_step_less [OF 1] eq [of ?m w] m r by (simp add: xy joined_def receive_def)
  next
    case 2
    with clk have "record_hlc v = record_hlc ?m" by simp
    then show ?thesis using pair_step_greater [OF 2] eq [of v ?m] m r by (simp add: xy joined_def receive_def)
  next
    case 3
    then show ?thesis using eq [of v w] eq [of ?m ?m] eq [of w w] m r idem vw by (simp add: xy joined_def receive_def)
  qed
qed

end

lemma fst_max: "fst (max v w) = max (fst v) (fst w)" for v w :: version
  by (auto simp: max_def less_eq_prod_def)

lemma record_hlc_env: "record_hlc (encode_with e pay) = hlc e"
  by (simp add: record_hlc_def)

interpretation orset_repair: repairable "element_records rt V T L K0 C" for rt V T L K0 C
proof unfold_locales
  fix x y
  assume "x \<in> element_records rt V T L K0 C" "y \<in> element_records rt V T L K0 C"
  then obtain a b where ab: "x = element_record rt V T a" "y = element_record rt V T b"
    "a \<in> element_keys rt V L K0 C" "b \<in> element_keys rt V L K0 C"
    by (auto simp: element_records_def)
  have "record_hlc (element_record rt V T c) = fst (fst c)" for c
    by (cases c) (simp add: element_record_def encode_element_env record_hlc_env element_env_def)
  then show "record_hlc (merged_value x y) = max (record_hlc x) (record_hlc y)"
    by (simp add: ab merged_value_element_record [OF ab(3,4)] element_join_def case_prod_unfold fst_max)
qed

interpretation pn_repair: repairable "counter_records T N B" for T N B
proof unfold_locales
  fix x y
  assume "x \<in> counter_records T N B" "y \<in> counter_records T N B"
  then obtain a b where ab: "x = counter_record T a" "y = counter_record T b"
    "a \<in> UNIV \<times> counter_universe N B" "b \<in> UNIV \<times> counter_universe N B"
    by (auto simp: counter_records_def)
  have "record_hlc (counter_record T c) = fst (fst c)" for c
    by (cases c) (simp add: counter_record_def record_hlc_env element_env_def)
  then show "record_hlc (merged_value x y) = max (record_hlc x) (record_hlc y)"
    by (simp add: ab(1,2) merged_value_counter_record [OF ab(3,4)] case_prod_unfold fst_max)
qed

interpretation lww_repair: repairable "lww_record W ` lww_versions W" for W
  by unfold_locales
    (auto simp: merged_value_lww_record, simp add: lww_record_def record_hlc_env lww_env_def fst_max)

text \<open>The records of one key that two replicas may hold.\<close>

inductive repairable_family :: "bytes set \<Rightarrow> bool" where
  elements: "repairable_family (element_records rt V T L K0 C)"
| counters: "repairable_family (counter_records T N B)"
| last_writer: "repairable_family (lww_record W ` lww_versions W)"

lemma repairable_family_repairable: "repairable_family S \<Longrightarrow> repairable S"
  by (induction rule: repairable_family.induct)
    (rule orset_repair.repairable_axioms pn_repair.repairable_axioms lww_repair.repairable_axioms)+

text \<open>
  The hash tells apart the keys of the bucket, and for each key the two records and their merge; the two
  records of a key are of one family.
\<close>

definition comparable :: "hash \<Rightarrow> pid \<Rightarrow> u8 \<Rightarrow> shard \<Rightarrow> shard \<Rightarrow> bool" where
  "comparable xxh3 p bucket a b \<longleftrightarrow>
     inj_on xxh3 (bucket_keys xxh3 p bucket a \<union> bucket_keys xxh3 p bucket b) \<and>
     (\<forall>k\<in>bucket_keys xxh3 p bucket a \<union> bucket_keys xxh3 p bucket b.
        value_merged k \<and>
        (\<exists>S. repairable_family S \<and> set_option (get_raw a k) \<union> set_option (get_raw b k) \<subseteq> S) \<and>
        inj_on xxh3 (set_option (get_raw a k) \<union> set_option (get_raw b k) \<union>
          set_option (joined (get_raw a k) (get_raw b k))))"

end
