(* ===== verification/Zset_Properties.thy ===== *)
theory Zset_Properties
  imports Zset_Laws
begin

text \<open>
  Properties of sorted sets: the index follows the members through every command, ranges are exact, and
  where the cursor of ZPOPMIN and the cap on removed dots give wrong answers.
\<close>

section \<open>Commands keep the index\<close>

lemma other_keys:
  "zset_member_key uk m \<noteq> head_key uk'" "zset_score_key uk e m \<noteq> head_key uk'"
  "zset_member_key uk m \<noteq> string_key uk'" "zset_member_key uk m \<noteq> list_key uk'"
  "zset_score_key uk e m \<noteq> string_key uk'" "zset_score_key uk e m \<noteq> list_key uk'"
  "head_key uk \<noteq> string_key uk'" "head_key uk \<noteq> list_key uk'"
  by (simp_all add: zset_member_key_def zset_score_key_def head_key_def string_key_def list_key_def prefixed_def
      simple_def ikey_base_def)

lemma ensure_head_get:
  assumes "k \<noteq> head_key uk"
  shows "get_raw (fst (ensure_head now uk c ctx)) k = get_raw ctx k"
  using assms get_raw_hlc [of now ctx k]
  by (cases "shard_hlc_now now ctx") (auto simp: ensure_head_def shard_simps split: option.splits)

lemma ensure_head_indexed: "zset_indexed (fst (ensure_head now uk c ctx)) = zset_indexed ctx"
  unfolding zset_indexed_def index_ok_def stored_score_def ensure_head_get [OF other_keys(1)]
    ensure_head_get [OF other_keys(2)] ..

lemma zadd_pairs_indexed:
  assumes "short_key key"
  shows "zset_indexed ctx \<Longrightarrow> zset_indexed (fst (zadd_pairs fl now key del pairs acc ctx))"
proof (induction pairs arbitrary: acc ctx)
  case (Cons p pairs)
  obtain score member added updated incr_result where eqs: "p = (score, member)" "acc = (added, updated, incr_result)"
    by (metis prod_cases3 surj_pair)
  have "zset_indexed (write_member now key member sc (fst (ensure_head now key CTYPE_ZSET ctx)))" for sc
    using Cons.prems by (simp add: write_member_indexed [OF assms] ensure_head_indexed)
  with Cons show ?case by (simp add: eqs Let_def split: option.split)
qed simp

lemma zadd_indexed:
  assumes "short_key key" "zset_indexed ctx"
  shows "zset_indexed (fst (zadd fl now key pairs ctx))"
proof (cases "zset_del_hlc now ctx key")
  case (Some del)
  obtain c r where "zadd_pairs fl now key del pairs (0, 0, None) ctx = (c, r)" by (cases "zadd_pairs fl now key del pairs (0, 0, None) ctx")
  then show ?thesis
    using zadd_pairs_indexed [OF assms, of fl now del pairs "(0, 0, None)"] by (cases r) (auto simp: zadd_def Some)
qed (simp add: zadd_def assms)

lemma zincrby_indexed:
  "short_key key \<Longrightarrow> zset_indexed ctx \<Longrightarrow> zset_indexed (fst (zincrby now key m delta ctx))"
  by (simp add: zincrby_def Let_def write_member_indexed ensure_head_indexed split: option.split)

definition empty_shard :: "node_id \<Rightarrow> shard" where
  "empty_shard n = \<lparr>sh_data = RBT.empty, sh_hlc = 0, sh_node_id = n, sh_epoch = 0, sh_pop_hints = RBT.empty\<rparr>"

lemma get_raw_empty [simp]: "get_raw (empty_shard n) k = None"
  by (simp add: get_raw_def empty_shard_def)

lemma indexed_empty: "zset_indexed (empty_shard n)"
  by (simp add: zset_indexed_def index_ok_def stored_score_def)

definition zadd_plain :: zadd_flags where
  "zadd_plain = \<lparr>za_nx = False, za_xx = False, za_gt = False, za_lt = False, za_ch = False, za_incr = False\<rparr>"

text \<open>C4: the score index follows the members. Once every member of every set has exactly one index entry, at
  the encoding of its stored score, this stays so after any ZADD with any flags, any ZINCRBY, any record that
  replication delivers and any removal of a member with at most 255 live and covered dots.\<close>

theorem zset_index_kept:
  assumes "short_key key" "zset_indexed ctx"
  shows "zset_indexed (fst (zadd fl now key pairs ctx)) \<and>
    zset_indexed (fst (zincrby now key member delta ctx)) \<and>
    zset_indexed (fst (apply_member_record key member incoming ctx)) \<and>
    (\<forall>v t st. get_raw ctx (zset_member_key key member) = Some (member_record v t st) \<and> stored_state st \<and>
       length (covered st) + length (live st) \<le> 255 \<longrightarrow> zset_indexed (fst (remove_member now key member del ctx)))"
  using zadd_indexed [OF assms] zincrby_indexed [OF assms] apply_member_record_indexed [OF assms]
    remove_member_indexed [OF assms] by blast

theorem zset_index_kept_witness:
  "zset_indexed (fst (zadd zadd_plain 7 [122] [(4611686018427387904, [98]), (0, [97])] (empty_shard 1)))"
  using zset_index_kept [OF _ indexed_empty, of "[122]" zadd_plain 7] by (simp add: short_key_def)

section \<open>A set with one member\<close>

definition one_member_shard :: "bytes \<Rightarrow> bytes \<Rightarrow> f64 \<Rightarrow> version \<Rightarrow> shard \<Rightarrow> shard" where
  "one_member_shard key m s v ctx =
     put_raw (zset_score_key key (encode_score s) m) []
       (put_raw (zset_member_key key m) (member_record v 0 (one_live (Dot (fst v) (snd v)) (be64 s))) ctx)"

lemma stored_be64: "stored_state (one_live d (be64 s))"
  by (rule stored_one_live) simp

lemma state_score_one [simp]: "state_score (one_live d (be64 s)) = Some s" "\<not> is_dead (one_live d (be64 s))"
  by (simp_all add: state_score_def state_value_def one_live_def is_dead_def)

lemma member_score_record:
  assumes "get_raw ctx (zset_member_key uk m) = Some (member_record v t st)" "stored_state st"
  shows "member_score now ctx uk m del = (if t \<noteq> 0 \<and> t \<le> now \<or> fst v \<le> del then None else state_score st)"
proof (cases "is_dead st")
  case True
  then have "state_score st = None" by (simp add: state_score_def is_dead_value)
  with True show ?thesis
    by (simp add: member_score_def assms member_record_decode [OF assms(2)] visible_element)
next
  case False
  then show ?thesis
    by (simp add: member_score_def assms member_record_decode [OF assms(2)] visible_element state_score_def)
qed

lemma one_member_get:
  assumes "short_key key" "short_key uk"
  shows "get_raw (one_member_shard key m s v ctx) (zset_member_key uk m') =
      (if uk = key \<and> m' = m then Some (member_record v 0 (one_live (Dot (fst v) (snd v)) (be64 s)))
       else get_raw ctx (zset_member_key uk m'))"
    "get_raw (one_member_shard key m s v ctx) (zset_score_key uk e m') =
      (if uk = key \<and> m' = m \<and> e = encode_score s then Some [] else get_raw ctx (zset_score_key uk e m'))"
  by (auto simp: one_member_shard_def shard_simps zset_keys_inject [OF assms(2,1)] zset_keys_inject [OF assms])

lemma one_member_indexed:
  assumes "short_key key"
  shows "zset_indexed (one_member_shard key m s v (empty_shard n))"
  unfolding zset_indexed_def
  by (auto simp: index_ok_def stored_score_def one_member_get [OF assms] member_record_decode [OF stored_be64])

lemma one_member_score:
  assumes "short_key key"
  shows "member_score now (one_member_shard key m s v ctx) key m del = (if fst v \<le> del then None else Some s)"
  using member_score_record [OF _ stored_be64, of "one_member_shard key m s v ctx" key m v 0 "Dot (fst v) (snd v)" s]
  by (simp add: one_member_get [OF assms assms])

section \<open>Ranges\<close>

text \<open>C7: a range is exact when the index is. For a user key that fits the key layout and a shard in which every
  stored member has exactly one index entry, at the encoding of its stored score, the full walk gives the visible
  members, each with its score, by score and then by name, and a walk with a limit gives the first ones of them.
  ZADD, ZINCRBY, delivered records and removals within the caps keep the index so; RENAME and COPY do not, nor
  does a removal at the cap on covered dots.\<close>

theorem zset_range_exact:
  assumes "short_key key" "zset_indexed ctx"
  shows "\<exists>all. ranked now ctx key del all \<and> (\<forall>limit. scored_members_limited now ctx key del limit = take limit all)"
  using hits_ranked [OF assms] scored_members_limited_hits by blast

theorem zset_range_exact_witness:
  "let ctx = fst (zadd zadd_plain 7 [122] [(4611686018427387904, [98]), (0, [97])] (empty_shard 1))
   in \<exists>all. ranked 7 ctx [122] 0 all \<and> scored_members_limited 7 ctx [122] 0 1 = take 1 all"
proof -
  have k: "short_key [122]" by (simp add: short_key_def)
  show ?thesis unfolding Let_def using zset_range_exact [OF k zadd_indexed [OF k indexed_empty]] by blast
qed

section \<open>Pops\<close>

lemma pop_candidates_no_hint:
  assumes "get_pop_hint ctx (collection_prefix Tag_ZsetScore key) = None"
  shows "snd (pop_scored_candidates now key del limit ctx) =
    fst (scan_loop (collect now ctx key del limit) (index_range ctx key) ([], None))"
  using assms
  by (cases "scan_loop (collect now ctx key del limit) (index_range ctx key) ([], None)")
    (simp add: pop_scored_candidates_def Let_def scan_prefix_def index_range_def)

lemma collect_zero:
  assumes "\<forall>(k, _)\<in>set xs. index_hit now ctx key del k \<noteq> None"
  shows "fst (scan_loop (collect now ctx key del 0) xs ([], None)) = take 1 (hits now ctx key del xs)"
  using assms by (cases xs) (auto simp: scan_loop_collect_zero)

text \<open>What ZPOPMIN takes without a cursor. A positive count takes that many members from the low end. A
  count of 0 takes one member, as long as every index entry stands for a visible member.\<close>

theorem zpopmin_candidates:
  assumes "short_key key" "zset_indexed ctx" "get_pop_hint ctx (collection_prefix Tag_ZsetScore key) = None"
  shows "\<exists>all. ranked now ctx key del all \<and>
    (0 < limit \<longrightarrow> snd (pop_scored_candidates now key del limit ctx) = take limit all) \<and>
    ((\<forall>(k, _)\<in>set (index_range ctx key). index_hit now ctx key del k \<noteq> None) \<longrightarrow>
       snd (pop_scored_candidates now key del 0 ctx) = take 1 all)"
proof (intro exI conjI impI)
  show "ranked now ctx key del (hits now ctx key del (index_range ctx key))" by (rule hits_ranked [OF assms(1,2)])
  show "snd (pop_scored_candidates now key del limit ctx) = take limit (hits now ctx key del (index_range ctx key))"
    if "0 < limit"
    using scan_loop_collect [of "[]" limit] that by (simp add: pop_candidates_no_hint [OF assms(3)])
  show "snd (pop_scored_candidates now key del 0 ctx) = take 1 (hits now ctx key del (index_range ctx key))"
    if "\<forall>(k, _)\<in>set (index_range ctx key). index_hit now ctx key del k \<noteq> None"
    using collect_zero [OF that] by (simp only: pop_candidates_no_hint [OF assms(3)])
qed

theorem zpopmin_candidates_witness:
  "let ctx = one_member_shard [122] [98] 4611686018427387904 (5, 1) (empty_shard 1)
   in \<exists>all. ranked 7 ctx [122] 0 all \<and> snd (pop_scored_candidates 7 [122] 0 3 ctx) = take 3 all \<and>
            snd (pop_scored_candidates 7 [122] 0 0 ctx) = take 1 all"
proof -
  let ?ctx = "one_member_shard [122] [98] 4611686018427387904 (5, 1) (empty_shard 1)"
  have k: "short_key [122]" by (simp add: short_key_def)
  have "get_pop_hint ?ctx (collection_prefix Tag_ZsetScore [122]) = None"
    by (simp add: get_pop_hint_def one_member_shard_def put_raw_def empty_shard_def)
  note z = zpopmin_candidates [OF k one_member_indexed [OF k] this, of 7 0 3]
  have "index_hit 7 ?ctx [122] 0 kk \<noteq> None" if "(kk, v) \<in> set (index_range ?ctx [122])" for kk v
  proof -
    have g: "get_raw ?ctx kk \<noteq> None" "prefix (collection_prefix Tag_ZsetScore [122]) kk"
      using that by (auto simp: index_range_def in_scan_prefix)
    have "\<not> prefix (collection_prefix Tag_ZsetScore [122]) (zset_member_key [122] [98])"
      using prefixed_prefix_iff [of "[122]" "[122]" Tag_ZsetScore "[]" Tag_ZsetMember "[98]"]
      by (simp add: collection_prefix_def zset_member_key_def)
    with g have "kk = zset_score_key [122] (encode_score 4611686018427387904) [98]"
      by (auto simp: one_member_shard_def shard_simps split: if_splits)
    then have "index_hit 7 ?ctx [122] 0 kk = Some (4611686018427387904, [98])"
      using index_hit_iff [OF k] one_member_score [OF k] by (simp add: zset_score_key_def)
    then show ?thesis by simp
  qed
  then show ?thesis using z unfolding Let_def by auto
qed

section \<open>A member that ZPOPMIN cannot see\<close>

definition readded :: "dot \<Rightarrow> dot \<Rightarrow> f64 \<Rightarrow> element_state" where
  "readded d d0 s = \<lparr>live = [(d, be64 s), (d0, be64 s)], covered = []\<rparr>"

lemma readded_join:
  assumes "d0 < d"
  shows "join_states RT_ZsetMember (one_live d0 (be64 s)) (one_live d (be64 s)) = readded d d0 s"
    "stored_state (readded d d0 s)" "state_score (readded d d0 s) = Some s"
  using normalize_two_live [OF assms, of "be64 s" "be64 s"]
  by (simp_all add: join_states_def one_live_def readded_def stored_state_def small_values_def state_score_def
      state_value_def)

lemma write_merged_hints:
  "short_key key \<Longrightarrow> sh_pop_hints (fst (write_merged (zset_member_key key m) v ctx)) = sh_pop_hints ctx"
  by (auto simp: write_merged_def set_member_hook_def zset_keys_parse put_raw_def split: option.splits merge_outcome.splits)

lemma shard_hlc_now_fields:
  "sh_node_id (fst (shard_hlc_now now ctx)) = sh_node_id ctx"
  "sh_pop_hints (fst (shard_hlc_now now ctx)) = sh_pop_hints ctx"
  by (simp_all add: shard_hlc_now_def split: prod.split)

lemma write_member_same_score:
  fixes ctx now
  defines "h \<equiv> snd (shard_hlc_now now ctx)" and "n \<equiv> sh_node_id ctx"
  assumes "short_key key" "get_raw ctx (zset_member_key key m) = Some (member_record (h0, n0) 0 (one_live (Dot h0 n0) (be64 s)))"
    "\<not> f64_is_nan s" "h0 < h"
  shows "get_raw (write_member now key m s ctx) k =
      (if k = zset_member_key key m then Some (member_record (h, n) 0 (readded (Dot h n) (Dot h0 n0) s)) else get_raw ctx k)"
    "sh_pop_hints (write_member now key m s ctx) = sh_pop_hints ctx"
proof -
  let ?mk = "zset_member_key key m" and ?c = "fst (shard_hlc_now now ctx)"
  let ?new = "member_record (h, n) 0 (one_live (Dot h n) (be64 s))"
  have dot: "Dot h0 n0 < Dot h n" using assms(6) by (simp add: less_dot_def)
  have wm: "write_member now key m s ctx = fst (apply_member_record key m ?new ?c)"
    by (cases "shard_hlc_now now ctx")
      (simp add: write_member_def h_def n_def element_add_one_live member_record_def
        shard_hlc_now_fields(1) [of now ctx, symmetric])
  have "max (h0, n0) (h, n) = (h, n)" using assms(6) by (simp add: max_def)
  then have merged: "merged_at ?mk ?new ?c = member_record (h, n) 0 (readded (Dot h n) (Dot h0 n0) s)"
    by (simp add: merged_at_member [OF assms(3)] shard_simps assms(4) member_record_merge [OF stored_be64 stored_be64]
        readded_join [OF dot])
  have same: "opt_f64_eq (stored_score ?c key m) (score_from_record (merged_at ?mk ?new ?c))"
    using assms(5)
    by (simp add: merged member_record_decode(4) readded_join [OF dot] stored_score_def shard_simps assms(4) stored_be64
        opt_f64_eq_def f64_eq_def)
  then have ctx': "write_member now key m s ctx = fst (write_merged ?mk ?new ?c)"
    by (simp add: wm apply_member_record_eq Let_def)
  show "get_raw (write_member now key m s ctx) k =
      (if k = ?mk then Some (member_record (h, n) 0 (readded (Dot h n) (Dot h0 n0) s)) else get_raw ctx k)"
    by (simp add: ctx' shard_simps merged)
  show "sh_pop_hints (write_member now key m s ctx) = sh_pop_hints ctx"
    by (simp add: ctx' write_merged_hints [OF assms(3)] shard_hlc_now_fields)
qed

lemma check_type_cong:
  assumes "\<And>k. k \<in> {head_key key, string_key key, list_key key} \<Longrightarrow> get_raw ctx' k = get_raw ctx k"
  shows "check_type now ctx' key want = check_type now ctx key want" "head_live now ctx' key = head_live now ctx key"
    "get_head ctx' key = get_head ctx key"
  using assms by (simp_all add: check_type_def head_live_def record_live_def get_head_def)

lemma ensure_head_live:
  assumes "check_type now ctx key CTYPE_ZSET = Some del" "head_live now ctx key"
  shows "fst (ensure_head now key CTYPE_ZSET ctx) = ctx"
  using assms
  by (auto simp: head_live_def check_type_def ensure_head_def CTYPE_ZSET_def split: option.splits if_splits)

lemma try_zpop_nothing:
  assumes "get_pop_hint ctx (collection_prefix Tag_ZsetScore key) = None" "zset_del_hlc now ctx key = Some del"
    "\<forall>m. member_score now ctx key m del = None"
  shows "try_zpop now key False 1 ctx = (set_pop_hint_empty (collection_prefix Tag_ZsetScore key) ctx, Some [])"
proof -
  have none: "index_hit now ctx key del k = None" for k
    using assms(3) by (simp add: index_hit_def split: option.split)
  have "hits now ctx key del xs = []" for xs
    by (induction xs) (auto simp: none)
  then have "fst (scan_loop (collect now ctx key del 1) (index_range ctx key) ([], None)) = []"
    using scan_loop_collect [of "[]" 1 now ctx key del] by simp
  then show ?thesis
    using assms(1,2)
    by (cases "scan_loop (collect now ctx key del 1) (index_range ctx key) ([], None)")
      (simp add: try_zpop_def pop_victims_def pop_scored_candidates_def Let_def scan_prefix_def index_range_def)
qed

lemma try_zpop_drained:
  assumes "get_pop_hint ctx (collection_prefix Tag_ZsetScore key) = Some Empty" "zset_del_hlc now ctx key = Some del"
  shows "try_zpop now key False n ctx = (ctx, Some [])"
  using assms by (simp add: try_zpop_def pop_victims_def pop_scored_candidates_def Let_def)

text \<open>C32: ZPOPMIN can miss a member. Let a set whose head is live have a member whose record was hidden by a delete. A ZPOPMIN
  finds nothing and marks the index as drained. A ZADD of the member at its old score leaves the index as it
  is, so the mark stays: the next ZPOPMIN finds nothing although the member is there for ZSCORE.\<close>

theorem zpopmin_misses_readded:
  assumes "short_key key" "\<not> f64_is_nan s" "get_pop_hint ctx (collection_prefix Tag_ZsetScore key) = None"
    "zset_del_hlc now ctx key = Some del" "head_live now ctx key"
    "get_raw ctx (zset_member_key key m) = Some (member_record (h0, n0) 0 (one_live (Dot h0 n0) (be64 s)))"
    "h0 \<le> del" "del < snd (shard_hlc_now now ctx)"
    "\<forall>m'. member_score now ctx key m' del = None"
  shows "let (ctx1, popped1) = try_zpop now key False 1 ctx;
             (ctx2, r) = zadd zadd_plain now key [(s, m)] ctx1;
             (ctx3, popped2) = try_zpop now key False 1 ctx2
         in popped1 = Some [] \<and> r = R_Int 1 \<and> popped2 = Some [] \<and> zscore now key m ctx3 = R_Double s"
proof -
  let ?p = "collection_prefix Tag_ZsetScore key"
  define ctx1 where "ctx1 = set_pop_hint_empty ?p ctx"
  define ctx2 where "ctx2 = write_member now key m s ctx1"
  have raw1: "get_raw ctx1 k = get_raw ctx k" for k by (simp add: ctx1_def shard_simps)
  have hlc1: "snd (shard_hlc_now now ctx1) = snd (shard_hlc_now now ctx)"
    by (simp add: ctx1_def set_pop_hint_empty_def shard_hlc_now_def split: prod.split)
  have pop1: "try_zpop now key False 1 ctx = (ctx1, Some [])"
    using try_zpop_nothing [OF assms(3,4,9)] by (simp only: ctx1_def)
  have del1: "zset_del_hlc now ctx1 key = Some del" "head_live now ctx1 key"
    using assms(4,5) check_type_cong [of key ctx1 ctx] by (simp_all add: zset_del_hlc_def raw1)
  have "member_score now ctx1 key m del = None" using assms(9) by (simp add: member_score_def raw1)
  then have add: "zadd zadd_plain now key [(s, m)] ctx1 = (ctx2, R_Int 1)"
    using ensure_head_live [of now ctx1 key] del1
    by (simp add: zadd_def zadd_plain_def ctx2_def zset_del_hlc_def)
  have "h0 < snd (shard_hlc_now now ctx1)" using assms(7,8) by (simp add: hlc1)
  note w = write_member_same_score [OF assms(1) _ assms(2) this, of m n0, unfolded raw1, OF assms(6), folded ctx2_def]
  have "get_raw ctx2 k = get_raw ctx k" if "k \<in> {head_key key, string_key key, list_key key}" for k
  proof -
    have "k \<noteq> zset_member_key key m" using that other_keys by fastforce
    then show ?thesis by (simp add: w(1))
  qed
  then have del2: "zset_del_hlc now ctx2 key = Some del"
    using assms(4) check_type_cong(1) [of key ctx2 ctx] by (simp add: zset_del_hlc_def)
  have "get_pop_hint ctx2 ?p = Some Empty"
    by (simp add: get_pop_hint_def w(2)) (simp add: ctx1_def set_pop_hint_empty_def)
  then have pop2: "try_zpop now key False 1 ctx2 = (ctx2, Some [])"
    using del2 by (rule try_zpop_drained)
  have "get_raw ctx2 (zset_member_key key m) = Some (member_record (snd (shard_hlc_now now ctx), sh_node_id ctx1) 0
      (readded (Dot (snd (shard_hlc_now now ctx)) (sh_node_id ctx1)) (Dot h0 n0) s))"
    by (simp add: w(1) hlc1)
  moreover have "Dot h0 n0 < Dot (snd (shard_hlc_now now ctx)) (sh_node_id ctx1)"
    using le_less_trans [OF assms(7,8)] by (simp add: less_dot_def)
  ultimately have "member_score now ctx2 key m del = Some s"
    using member_score_record readded_join(2,3) assms(8) by simp
  then have "zscore now key m ctx2 = R_Double s" by (simp add: zscore_def with_del_def del2)
  then show ?thesis by (simp add: pop1 add pop2 del: One_nat_def)
qed

definition deleted_member_shard :: shard where
  "deleted_member_shard =
     put_raw (head_key [122]) (encode_with (envelope_head 6 1) (head_encode CTYPE_ZSET 5))
       (one_member_shard [122] [98] 4611686018427387904 (3, 1) (empty_shard 1))"

lemma deleted_member_head:
  "zset_del_hlc 7 deleted_member_shard [122] = Some 5" "head_live 7 deleted_member_shard [122]"
proof -
  have raw: "get_raw deleted_member_shard (string_key [122]) = None" "get_raw deleted_member_shard (list_key [122]) = None"
    "get_raw deleted_member_shard (head_key [122]) = Some (encode_with (envelope_head 6 1) (head_encode CTYPE_ZSET 5))"
    using other_keys by (simp_all add: deleted_member_shard_def one_member_shard_def shard_simps other_keys [symmetric])
  have "get_head deleted_member_shard [122] = Some (envelope_head 6 1, CTYPE_ZSET, 5)"
    using head_decode_encode [of CTYPE_ZSET 5 "[]"] by (simp add: get_head_def raw)
  then show "zset_del_hlc 7 deleted_member_shard [122] = Some 5" "head_live 7 deleted_member_shard [122]"
    by (simp_all add: zset_del_hlc_def check_type_def record_live_def raw head_live_def head_del_def is_tombstone_def
        is_expired_def envelope_head_def CTYPE_ZSET_def COLLECTION_HEAD_def TOMBSTONE_def)
qed

theorem zpopmin_misses_readded_witness:
  "let (ctx1, popped1) = try_zpop 7 [122] False 1 deleted_member_shard;
       (ctx2, r) = zadd zadd_plain 7 [122] [(4611686018427387904, [98])] ctx1;
       (ctx3, popped2) = try_zpop 7 [122] False 1 ctx2
   in popped1 = Some [] \<and> r = R_Int 1 \<and> popped2 = Some [] \<and> zscore 7 [122] [98] ctx3 = R_Double 4611686018427387904"
proof (rule zpopmin_misses_readded [OF _ _ _ deleted_member_head])
  show k: "short_key [122]" by (simp add: short_key_def)
  show "\<not> f64_is_nan 4611686018427387904"
    by (simp add: f64_is_nan_def f64_mag_def f64_infinity_def take_bit_eq_mod)
  show "get_pop_hint deleted_member_shard (collection_prefix Tag_ZsetScore [122]) = None"
    by (simp add: deleted_member_shard_def get_pop_hint_def one_member_shard_def put_raw_def empty_shard_def)
  have raw: "get_raw deleted_member_shard (zset_member_key [122] m) =
      (if m = [98] then Some (member_record (3, 1) 0 (one_live (Dot 3 1) (be64 4611686018427387904))) else None)" for m
    using other_keys(1) by (simp add: deleted_member_shard_def shard_simps one_member_get [OF k k])
  show "get_raw deleted_member_shard (zset_member_key [122] [98]) =
      Some (member_record (3, 1) 0 (one_live (Dot 3 1) (be64 4611686018427387904)))"
    by (simp add: raw)
  show "\<forall>m'. member_score 7 deleted_member_shard [122] m' 5 = None"
  proof
    show "member_score 7 deleted_member_shard [122] m' 5 = None" for m'
    proof (cases "m' = [98]")
      case True
      then have "get_raw deleted_member_shard (zset_member_key [122] m') =
          Some (member_record (3, 1) 0 (one_live (Dot 3 1) (be64 4611686018427387904)))" by (simp add: raw)
      from member_score_record [OF this stored_be64] show ?thesis by simp
    qed (simp add: member_score_def raw)
  qed
  show "5 < snd (shard_hlc_now 7 deleted_member_shard)"
    by (simp add: shard_hlc_now_def hlc_now_def deleted_member_shard_def one_member_shard_def put_raw_def empty_shard_def
        hlc_pack_def) 
qed simp

section \<open>A member that ZREM cannot remove\<close>

definition older_add :: "dot \<Rightarrow> f64 \<Rightarrow> dot list \<Rightarrow> element_state" where
  "older_add d s ks = \<lparr>live = [(d, be64 s)], covered = ks\<rparr>"

definition all_removed :: "dot list \<Rightarrow> element_state" where
  "all_removed ks = \<lparr>live = [], covered = ks\<rparr>"

lemma full_covered_states:
  assumes "strictly_desc id ks" "length ks = 255" "\<forall>k\<in>set ks. d < k"
  shows "stored_state (all_removed ks)" "stored_state (older_add d s ks)"
    "join_states RT_ZsetMember (all_removed ks) (one_live d (be64 s)) = older_add d s ks"
    "join_states RT_ZsetMember (older_add d s ks) (removal (older_add d s ks)) = older_add d s ks"
proof -
  have d: "d \<notin> set ks" using assms(3) by auto
  have all: "canon id ks = ks" using canon_id [OF assms(1)] .
  have "strictly_desc id (ks @ [d])" using assms(1,3) by (simp add: sorted_wrt_append)
  then have more: "canon id (ks @ [d]) = ks @ [d]" by (rule canon_id)
  have one: "canon fst [(d, x)] = [(d, x)]" "canon id [d] = [d]" "canon fst [] = ([] :: (dot \<times> bytes) list)" for x :: bytes
    by (auto intro: canon_id)
  note defs = normalize_def join_states_def removal_def older_add_def all_removed_def one_live_def dots_def
    stored_state_def small_values_def MAX_TOMB_DOTS_def MAX_LIVE_DOTS_def
  show "stored_state (all_removed ks)" "stored_state (older_add d s ks)"
    "join_states RT_ZsetMember (all_removed ks) (one_live d (be64 s)) = older_add d s ks"
    "join_states RT_ZsetMember (older_add d s ks) (removal (older_add d s ks)) = older_add d s ks"
    using d assms(2) by (simp_all add: defs all more one Let_def)
qed

text \<open>C33: a member can become impossible to remove. Let 255 dots of a member be covered, and let an add with an
  older dot arrive from a node that was cut off. ZREM answers that it removed the member, but the cap drops
  the dot it covers, as the oldest one: the member stays visible, and its index entry is gone, so that ranges
  no longer show it.\<close>

theorem zrem_leaves_member:
  assumes "short_key key" "get_raw ctx (zset_member_key key m) = Some (member_record v 0 (all_removed ks))"
    "strictly_desc id ks" "length ks = 255" "\<forall>k\<in>set ks. Dot h n < k" "del < h"
  shows "let ctx1 = fst (apply_member_record key m (element_add RT_ZsetMember h n (be64 s)) ctx);
             (ctx2, removed) = remove_member now key m del ctx1
         in removed \<and> member_score now ctx2 key m del = Some s \<and>
            (s, m) \<notin> set (scored_members now ctx2 key del)"
proof -
  let ?d = "Dot h n" and ?mk = "zset_member_key key m"
  note st = full_covered_states [OF assms(3-5)]
  define ctx1 where "ctx1 = fst (apply_member_record key m (element_add RT_ZsetMember h n (be64 s)) ctx)"
  define v1 where "v1 = max v (h, n)"
  have v1: "del < fst v1" using assms(6) by (cases v) (auto simp: v1_def max_def)
  have add: "element_add RT_ZsetMember h n (be64 s) = member_record (h, n) 0 (one_live ?d (be64 s))"
    by (simp add: element_add_one_live member_record_def)
  have raw1: "get_raw ctx1 ?mk = Some (member_record v1 0 (older_add ?d s ks))"
    by (simp add: ctx1_def add apply_member_record_get [OF assms(1,1)] merged_at_member [OF assms(1)] assms(2)
        member_record_merge [OF st(1) stored_be64] st(3) v1_def)
  have sc: "state_score (older_add ?d s ks) = Some s" "\<not> is_dead (older_add ?d s ks)"
    by (simp_all add: state_score_def state_value_def older_add_def is_dead_def)
  define w where "w = (snd (shard_hlc_now now ctx1), sh_node_id (fst (shard_hlc_now now ctx1)))"
  define ctx2 where "ctx2 = del_raw (zset_score_key key (encode_score s) m)
    (fst (write_merged ?mk (member_record w 0 (removal (older_add ?d s ks))) (fst (shard_hlc_now now ctx1))))"
  have rm: "remove_member now key m del ctx1 = (ctx2, True)"
    using remove_member_record [OF raw1 st(2), of now del] v1 sc by (simp add: ctx2_def w_def Let_def leD)
  have "get_raw ctx2 ?mk = Some (member_record (max v1 w) 0 (older_add ?d s ks))"
    using zset_keys_inject(3) [OF assms(1,1)]
    by (simp add: ctx2_def shard_simps merged_at_member [OF assms(1)] raw1 member_record_merge [OF st(2) stored_removal]
        st(4))
  moreover have "del < fst (max v1 w)" using v1 by (cases v1; cases w) (auto simp: max_def)
  ultimately have "member_score now ctx2 key m del = Some s"
    using member_score_record [OF _ st(2)] sc(1) by (simp add: not_le)
  moreover have "get_raw ctx2 (zset_score_key key (encode_score s) m) = None"
    by (simp add: ctx2_def shard_simps)
  then have "(s, m) \<notin> set (scored_members now ctx2 key del)"
    using hits_members [OF assms(1)] set_take_subset
    unfolding scored_members_def scored_members_limited_hits by fastforce
  ultimately show ?thesis by (simp add: ctx1_def [symmetric] rm)
qed

definition dots_below :: "nat \<Rightarrow> dot list" where
  "dots_below n = map (\<lambda>i. Dot (of_nat i) 1) (rev [2..<n])"

lemma dots_below_desc:
  assumes "n < 1000"
  shows "strictly_desc id (dots_below n)" "length (dots_below n) = n - 2" "\<forall>k\<in>set (dots_below n). Dot 1 1 < k"
proof -
  have less: "Dot (of_nat i) 1 < Dot (of_nat j) 1" if "i < j" "j < n" for i j
    using that assms by (simp add: less_dot_def word_less_nat_alt unat_of_nat take_bit_nat_eq_self)
  have "sorted_wrt (\<lambda>i j. Dot (of_nat i) 1 < Dot (of_nat j) 1) [2..<n]"
    by (rule sorted_wrt_mono_rel [OF _ sorted_wrt_upt]) (use less in auto)
  then show "strictly_desc id (dots_below n)"
    by (simp add: dots_below_def sorted_wrt_map sorted_wrt_rev rev_map)
  show "length (dots_below n) = n - 2" by (simp add: dots_below_def)
  show "\<forall>k\<in>set (dots_below n). Dot 1 1 < k"
    using less [of 1] by (auto simp: dots_below_def)
qed

theorem zrem_leaves_member_witness:
  "let ctx = put_raw (zset_member_key [122] [98]) (member_record (300, 1) 0 (all_removed (dots_below 257))) (empty_shard 1);
       ctx1 = fst (apply_member_record [122] [98] (element_add RT_ZsetMember 1 1 (be64 0)) ctx);
       (ctx2, removed) = remove_member 7 [122] [98] 0 ctx1
   in removed \<and> member_score 7 ctx2 [122] [98] 0 = Some 0 \<and> (0, [98]) \<notin> set (scored_members 7 ctx2 [122] 0)"
proof -
  have k: "short_key [122]" by (simp add: short_key_def)
  have d: "strictly_desc id (dots_below 257)" "length (dots_below 257) = 255" "\<forall>k\<in>set (dots_below 257). Dot 1 1 < k"
    using dots_below_desc [of 257] by simp_all
  show ?thesis
    unfolding Let_def [of "put_raw _ _ _"]
    by (rule zrem_leaves_member [OF k _ d]) (simp_all add: get_raw_put)
qed

end
