(* ===== verification/Anti_Entropy_Properties.thy ===== *)
theory Anti_Entropy_Properties
  imports Anti_Entropy_Laws Zset_Properties
begin

text \<open>
  What anti-entropy repairs, and the one record type it does not.
\<close>

text \<open>C3: two exchanges repair a bucket: after two exchanges both replicas hold, for every key of the bucket, the
  merge of the two records they started with. The conditions, on the records the two replicas hold in the bucket:
  the hash has no collision among the keys, nor, for each key, among the two records and their merge; no key is a
  budget record, and the key of a sorted-set member is one the encoder writes for a user key of less than
  \<open>2 ^ 64\<close> bytes; the two records of a key are of one kind that anti-entropy repairs, which are elements other than
  counter fields within the caps on dots, counters that at most 255 nodes increment, and records under
  last-writer-wins. HyperLogLog registers are not among them; the next theorem shows that they are never repaired.\<close>

theorem ae_repairs_bucket:
  assumes "comparable xxh3 p bucket a b"
    and "ae_exchange xxh3 now p bucket (a, b) = (a1, b1)" "ae_exchange xxh3 now' p bucket (a1, b1) = (a2, b2)"
    and "bucket_key xxh3 p bucket k"
  shows "get_raw a2 k = joined (get_raw a k) (get_raw b k) \<and> get_raw b2 k = joined (get_raw a k) (get_raw b k)"
proof -
  have inj: "inj_on xxh3 (bucket_keys xxh3 p bucket a \<union> bucket_keys xxh3 p bucket b)"
    and vm: "\<forall>k\<in>bucket_keys xxh3 p bucket a \<union> bucket_keys xxh3 p bucket b. value_merged k"
    using assms(1) by (auto simp: comparable_def)
  note keys = ae_exchange_bucket_keys [OF inj vm assms(2)]
  have "\<forall>k\<in>bucket_keys xxh3 p bucket a1 \<union> bucket_keys xxh3 p bucket b1. value_merged k" using keys vm by blast
  then have "(get_raw a2 k, get_raw b2 k) = pair_step xxh3 (pair_step xxh3 (get_raw a k, get_raw b k))"
    using ae_exchange_keys [OF inj vm assms(4,2)] ae_exchange_keys [OF inj_on_subset [OF inj keys] _ assms(4,3)] by simp
  moreover have "pair_step xxh3 (pair_step xxh3 (get_raw a k, get_raw b k)) =
      (joined (get_raw a k) (get_raw b k), joined (get_raw a k) (get_raw b k))"
  proof (cases "k \<in> bucket_keys xxh3 p bucket a \<union> bucket_keys xxh3 p bucket b")
    case True
    then obtain S where S: "repairable_family S" "set_option (get_raw a k) \<union> set_option (get_raw b k) \<subseteq> S"
      using assms(1) unfolding comparable_def by blast
    moreover have "inj_on xxh3 (set_option (get_raw a k) \<union> set_option (get_raw b k) \<union>
        set_option (joined (get_raw a k) (get_raw b k)))"
      using assms(1) True unfolding comparable_def by blast
    ultimately show ?thesis by (rule repairable.two_steps [OF repairable_family_repairable])
  next
    case False
    then have "get_raw a k = None" "get_raw b k = None" using assms(4) by (auto simp: bucket_keys_def)
    then show ?thesis by (simp add: pair_step_None joined_def)
  qed
  ultimately show ?thesis by simp
qed

lemma bucket_keys_put_empty:
  "bucket_keys xxh3 p bucket (put_raw k v (empty_shard n)) = (if bucket_key xxh3 p bucket k then {k} else {})"
  by (auto simp: bucket_keys_def shard_simps split: if_splits)

text \<open>Two replicas that each hold one add of the same hash field, under hashes that are lengths.\<close>

definition length_hash :: hash where "length_hash bs = of_nat (length bs)"

definition field_key :: bytes where "field_key = hash_field_key [104] [102]"

definition field_a :: shard where "field_a = put_raw field_key (element_add RT_HashField 10 1 [65]) (empty_shard 1)"
definition field_b :: shard where "field_b = put_raw field_key (element_add RT_HashField 20 2 [66, 66]) (empty_shard 2)"

lemma field_bucket: "bucket_key length_hash (pid_of [104]) 6 field_key" "value_merged field_key"
proof -
  have parse: "ikey_parse field_key = Some \<lparr>pk_pid = pid_of [104], pk_tag = 104, pk_userkey = [104], pk_suffix = [102]\<rparr>"
    using parse_prefixed [of Tag_HashField "[104]" "[102]"] by (simp add: field_key_def hash_field_key_def)
  then show "value_merged field_key" by (simp add: value_merged_def)
  have "length field_key = 6"
    by (simp add: field_key_def hash_field_key_def prefixed_def ikey_base_def put_varint.simps)
  then show "bucket_key length_hash (pid_of [104]) 6 field_key"
    using parse by (simp add: bucket_key_def local_only_def bucket_of_def length_hash_def)
      (simp add: field_key_def hash_field_key_def prefixed_def ikey_base_def partition_prefix_def)
qed

lemma field_adds_family:
  "{element_add RT_HashField 10 1 [65], element_add RT_HashField 20 2 [66, 66]} \<subseteq>
     element_records RT_HashField (\<lambda>d. if d = Dot 10 1 then [65] else [66, 66]) (\<lambda>_. 0) {Dot 10 1, Dot 20 2} {} {}"
  unfolding element_records_def
  by (auto simp: element_ops_are_records [where V = "\<lambda>d. if d = Dot 10 1 then [65] else [66, 66]" and T = "\<lambda>_. 0"]
      element_keys_def)

lemma field_merge:
  "merged_value (element_add RT_HashField 20 2 [66, 66]) (element_add RT_HashField 10 1 [65]) =
     encode_element RT_HashField (20, 2) 0 \<lparr>live = [(Dot 20 2, [66, 66]), (Dot 10 1, [65])], covered = []\<rparr>"
proof -
  have "join_states RT_HashField (one_live (Dot 20 2) [66, 66]) (one_live (Dot 10 1) [65]) =
      \<lparr>live = [(Dot 20 2, [66, 66]), (Dot 10 1, [65])], covered = []\<rparr>"
    using normalize_two_live(1) [of "Dot 10 1" "Dot 20 2" "[66, 66]" "[65]"]
    by (simp add: join_states_def one_live_def less_dot_def)
  then show ?thesis by (simp add: element_add_one_live merged_value_states stored_one_live)
qed

lemma field_lengths:
  "length (element_add RT_HashField 20 2 [66, 66]) = 34" "length (element_add RT_HashField 10 1 [65]) = 33"
  "length (merged_value (element_add RT_HashField 20 2 [66, 66]) (element_add RT_HashField 10 1 [65])) = 46"
proof -
  have n: "normalize (one_live d x) = one_live d x" if "length x < 2 ^ 64" for d x
    using stored_one_live [OF that] by (simp add: stored_state_def)
  show "length (element_add RT_HashField 20 2 [66, 66]) = 34" "length (element_add RT_HashField 10 1 [65]) = 33"
    unfolding element_add_one_live encode_element_env
    by (simp_all add: n) (simp_all add: one_live_def encode_with_def encode_to_def state_encode_def encode_live_def encode_dot_def
        put_varint.simps)
  show "length (merged_value (element_add RT_HashField 20 2 [66, 66]) (element_add RT_HashField 10 1 [65])) = 46"
    unfolding field_merge encode_element_env
    using normalize_two_live(1) [of "Dot 10 1" "Dot 20 2" "[66, 66]" "[65]"]
    by (simp add: less_dot_def encode_with_def encode_to_def state_encode_def encode_live_def encode_dot_def put_varint.simps)
qed

theorem ae_repairs_bucket_witness:
  "let (a1, b1) = ae_exchange length_hash 7 (pid_of [104]) 6 (field_a, field_b);
       (a2, b2) = ae_exchange length_hash 8 (pid_of [104]) 6 (a1, b1);
       m = encode_element RT_HashField (20, 2) 0 \<lparr>live = [(Dot 20 2, [66, 66]), (Dot 10 1, [65])], covered = []\<rparr>
   in get_raw a2 field_key = Some m \<and> get_raw b2 field_key = Some m"
proof -
  obtain a1 b1 a2 b2 where step: "ae_exchange length_hash 7 (pid_of [104]) 6 (field_a, field_b) = (a1, b1)"
    "ae_exchange length_hash 8 (pid_of [104]) 6 (a1, b1) = (a2, b2)"
    by (metis surj_pair)
  have get: "get_raw field_a field_key = Some (element_add RT_HashField 10 1 [65])"
    "get_raw field_b field_key = Some (element_add RT_HashField 20 2 [66, 66])"
    by (simp_all add: field_a_def field_b_def shard_simps)
  have keys: "bucket_keys length_hash (pid_of [104]) 6 field_a = {field_key}"
    "bucket_keys length_hash (pid_of [104]) 6 field_b = {field_key}"
    by (simp_all add: field_a_def field_b_def bucket_keys_put_empty field_bucket)
  have "comparable length_hash (pid_of [104]) 6 field_a field_b"
    using field_adds_family repairable_family.elements
    by (force simp: comparable_def keys get field_bucket joined_def receive_def inj_on_def length_hash_def field_lengths)
  from ae_repairs_bucket [OF this step field_bucket(1)] show ?thesis
    by (simp add: step get joined_def receive_def field_merge)
qed

text \<open>C34: a HyperLogLog register is not repaired. The merge keeps the version of the record with the greater
  rank, not the greater version, so a replica that holds a lower rank under a newer version is never sent
  the higher rank: however often the two replicas compare the bucket, from either side, they keep their
  different registers.\<close>

theorem registers_never_repaired:
  assumes "inj_on xxh3 (bucket_keys xxh3 p bucket a \<union> bucket_keys xxh3 p bucket b)"
    "\<forall>k\<in>bucket_keys xxh3 p bucket a \<union> bucket_keys xxh3 p bucket b. value_merged k"
    "bucket_key xxh3 p bucket k"
    "get_raw a k = Some (hll_record T (r, v))" "get_raw b k = Some (hll_record T (r', v'))" "r' < r" "fst v < fst v'"
  shows "(let (a', b') = (ae_exchange xxh3 now p bucket ^^ n) (a, b)
          in get_raw a' k = Some (hll_record T (r, v)) \<and> get_raw b' k = Some (hll_record T (r', v'))) \<and>
         (let (b', a') = (ae_exchange xxh3 now p bucket ^^ n) (b, a)
          in get_raw a' k = Some (hll_record T (r, v)) \<and> get_raw b' k = Some (hll_record T (r', v')))"
proof -
  have "record_hlc (hll_record T c) = fst (snd c)" for c
    by (cases c) (simp add: hll_record_def record_hlc_env element_env_def)
  then have steps: "pair_step xxh3 (Some (hll_record T (r, v)), Some (hll_record T (r', v'))) =
      (Some (hll_record T (r, v)), Some (hll_record T (r', v')))"
    "pair_step xxh3 (Some (hll_record T (r', v')), Some (hll_record T (r, v))) =
      (Some (hll_record T (r', v')), Some (hll_record T (r, v)))"
    using assms(6,7) by (auto simp: pair_step_less pair_step_greater merged_value_hll_record hll_join_def max_def)
  have swap: "inj_on xxh3 (bucket_keys xxh3 p bucket b \<union> bucket_keys xxh3 p bucket a)"
    "\<forall>k\<in>bucket_keys xxh3 p bucket b \<union> bucket_keys xxh3 p bucket a. value_merged k"
    using assms(1,2) by (auto simp: Un_commute)
  have get: "(get_raw a k, get_raw b k) = (Some (hll_record T (r, v)), Some (hll_record T (r', v')))"
    "(get_raw b k, get_raw a k) = (Some (hll_record T (r', v')), Some (hll_record T (r, v)))"
    using assms(4,5) by simp_all
  show ?thesis
    using exchange_fixpoint [OF assms(1-3) get(1) steps(1)] exchange_fixpoint [OF swap assms(3) get(2) steps(2)]
    by (auto simp: Let_def split: prod.splits)
qed

definition register_key :: bytes where "register_key = hll_register_key [104] 3"

lemma register_bucket: "bucket_key length_hash (pid_of [104]) 7 register_key" "value_merged register_key"
proof -
  have parse: "ikey_parse register_key = Some \<lparr>pk_pid = pid_of [104], pk_tag = 72, pk_userkey = [104], pk_suffix = be16 3\<rparr>"
    using parse_prefixed [of Tag_HllRegister "[104]" "be16 3"] by (simp add: register_key_def hll_register_key_def)
  then show "value_merged register_key" by (simp add: value_merged_def)
  have "length register_key = 7"
    by (simp add: register_key_def hll_register_key_def prefixed_def ikey_base_def put_varint.simps)
  then show "bucket_key length_hash (pid_of [104]) 7 register_key"
    using parse by (simp add: bucket_key_def local_only_def bucket_of_def length_hash_def)
      (simp add: register_key_def hll_register_key_def prefixed_def ikey_base_def partition_prefix_def)
qed

theorem registers_never_repaired_witness:
  "let (a', b') = (ae_exchange length_hash 7 (pid_of [104]) 7 ^^ 100)
      (put_raw register_key (hll_record (\<lambda>_. 0) (9, (10, 1))) (empty_shard 1),
       put_raw register_key (hll_record (\<lambda>_. 0) (4, (20, 2))) (empty_shard 2))
   in get_raw a' register_key = Some (hll_record (\<lambda>_. 0) (9, (10, 1))) \<and>
      get_raw b' register_key = Some (hll_record (\<lambda>_. 0) (4, (20, 2)))"
  by (rule conjunct1 [OF registers_never_repaired])
    (auto simp: bucket_keys_put_empty register_bucket shard_simps)

end
