(* ===== verification/Utf8.thy ===== *)
theory Utf8
  imports Prelude
begin

text \<open>
  UTF-8 as the Rust standard library checks it: \<open>str::from_utf8\<close> and \<open>String::from_utf8_lossy\<close>.
\<close>

definition continuation :: "u8 \<Rightarrow> bool" where
  "continuation b = (128 \<le> b \<and> b \<le> 191)"

text \<open>Which bytes may follow the first byte of a character of three and of four bytes.\<close>

definition second_of_3 :: "u8 \<Rightarrow> u8 \<Rightarrow> bool" where
  "second_of_3 a b =
     (if a = 224 then 160 \<le> b \<and> b \<le> 191 else if a = 237 then 128 \<le> b \<and> b \<le> 159 else continuation b)"

definition second_of_4 :: "u8 \<Rightarrow> u8 \<Rightarrow> bool" where
  "second_of_4 a b =
     (if a = 240 then 144 \<le> b \<and> b \<le> 191 else if a = 244 then 128 \<le> b \<and> b \<le> 143 else continuation b)"

text \<open>The well-formed byte sequences of the Unicode standard.\<close>

fun utf8_valid :: "bytes \<Rightarrow> bool" where
  "utf8_valid [] = True"
| "utf8_valid (a # bs) =
     (if a < 128 then utf8_valid bs
      else if 194 \<le> a \<and> a \<le> 223
      then (case bs of b # r \<Rightarrow> continuation b \<and> utf8_valid r | _ \<Rightarrow> False)
      else if 224 \<le> a \<and> a \<le> 239
      then (case bs of b # c # r \<Rightarrow> second_of_3 a b \<and> continuation c \<and> utf8_valid r | _ \<Rightarrow> False)
      else if 240 \<le> a \<and> a \<le> 244
      then (case bs of
              b # c # d # r \<Rightarrow> second_of_4 a b \<and> continuation c \<and> continuation d \<and> utf8_valid r
            | _ \<Rightarrow> False)
      else False)"

text \<open>
  One step of the lossy conversion on a non-empty input: whether a character begins it, and how many bytes
  were inspected, those of the character or of the longest beginning of one. Past the end a zero is read.
\<close>

definition byte_at :: "bytes \<Rightarrow> nat \<Rightarrow> u8" where
  "byte_at bs i = (if i < length bs then bs ! i else 0)"

definition utf8_chunk :: "bytes \<Rightarrow> bool \<times> nat" where
  "utf8_chunk s =
     (let a = byte_at s 0; b = byte_at s 1; c = byte_at s 2; d = byte_at s 3
      in if a < 128 then (True, 1)
         else if 194 \<le> a \<and> a \<le> 223 then (if continuation b then (True, 2) else (False, 1))
         else if 224 \<le> a \<and> a \<le> 239
         then (if \<not> second_of_3 a b then (False, 1) else if \<not> continuation c then (False, 2) else (True, 3))
         else if 240 \<le> a \<and> a \<le> 244
         then (if \<not> second_of_4 a b then (False, 1) else if \<not> continuation c then (False, 2)
               else if \<not> continuation d then (False, 3) else (True, 4))
         else (False, 1))"

lemma utf8_chunk_pos: "0 < snd (utf8_chunk s)"
  by (simp add: utf8_chunk_def Let_def)

definition REPLACEMENT :: bytes where "REPLACEMENT = [239, 191, 189]"

function from_utf8_lossy :: "bytes \<Rightarrow> bytes" where
  "from_utf8_lossy s =
     (if s = [] then []
      else let (ok, n) = utf8_chunk s
           in (if ok then take n s else REPLACEMENT) @ from_utf8_lossy (drop n s))"
  by pat_completeness auto

termination from_utf8_lossy
proof (relation "measure length")
  fix s :: bytes and p ok n
  assume "s \<noteq> []" "p = utf8_chunk s" "(ok, n) = p"
  then show "(drop n s, s) \<in> measure length" using utf8_chunk_pos [of s] by (metis in_measure length_drop length_greater_0_conv diff_less snd_conv)
qed simp

declare from_utf8_lossy.simps [simp del]

lemma byte_at_simps [simp]: "byte_at (a # s) 0 = a" "byte_at (a # s) (Suc n) = byte_at s n" "byte_at [] n = 0"
  by (simp_all add: byte_at_def)

lemma from_utf8_lossy_Nil [simp]: "from_utf8_lossy [] = []"
  by (simp add: from_utf8_lossy.simps)

lemma lossy_char: "utf8_chunk s = (True, n) \<Longrightarrow> s \<noteq> [] \<Longrightarrow> from_utf8_lossy s = take n s @ from_utf8_lossy (drop n s)"
  by (subst from_utf8_lossy.simps) simp

lemma utf8_chunk_chars:
  "a < 128 \<Longrightarrow> utf8_chunk (a # r) = (True, 1)"
  "194 \<le> a \<Longrightarrow> a \<le> 223 \<Longrightarrow> continuation b \<Longrightarrow> utf8_chunk (a # b # r) = (True, 2)"
  "224 \<le> a \<Longrightarrow> a \<le> 239 \<Longrightarrow> second_of_3 a b \<Longrightarrow> continuation c \<Longrightarrow> utf8_chunk (a # b # c # r) = (True, 3)"
  "240 \<le> a \<Longrightarrow> a \<le> 244 \<Longrightarrow> second_of_4 a b \<Longrightarrow> continuation c \<Longrightarrow> continuation d \<Longrightarrow>
    utf8_chunk (a # b # c # d # r) = (True, 4)"
proof -
  have num: "(1 :: nat) = Suc 0" "(2 :: nat) = Suc (Suc 0)" "(3 :: nat) = Suc (Suc (Suc 0))" by simp_all
  show "a < 128 \<Longrightarrow> utf8_chunk (a # r) = (True, 1)" by (simp add: utf8_chunk_def Let_def)
  show "utf8_chunk (a # b # r) = (True, 2)" if "194 \<le> a" "a \<le> 223" "continuation b"
  proof -
    have "\<not> a < 128" using that(1) by (simp add: not_less) (rule order_trans [of _ 194], simp_all)
    then show ?thesis using that by (simp add: utf8_chunk_def Let_def num)
  qed
  show "utf8_chunk (a # b # c # r) = (True, 3)" if "224 \<le> a" "a \<le> 239" "second_of_3 a b" "continuation c"
  proof -
    have "\<not> a < 128" "\<not> a \<le> 223" using that(1) by (simp_all add: not_less not_le) (rule order_trans [of _ 224], simp_all, rule less_le_trans [of _ 224], simp_all)
    then show ?thesis using that by (simp add: utf8_chunk_def Let_def num)
  qed
  show "utf8_chunk (a # b # c # d # r) = (True, 4)" if "240 \<le> a" "a \<le> 244" "second_of_4 a b" "continuation c" "continuation d"
  proof -
    have "\<not> a < 128" "\<not> a \<le> 223" "\<not> a \<le> 239" using that(1) by (auto dest: order_trans order.strict_trans1)
    then show ?thesis using that by (simp add: utf8_chunk_def Let_def num)
  qed
qed

lemma from_utf8_lossy_valid: "utf8_valid s \<Longrightarrow> from_utf8_lossy s = s"
proof (induction s rule: utf8_valid.induct)
  case (2 a bs)
  consider "a < 128" | "\<not> a < 128" "194 \<le> a" "a \<le> 223" | "\<not> a < 128" "\<not> (194 \<le> a \<and> a \<le> 223)" "224 \<le> a" "a \<le> 239"
    | "\<not> a < 128" "\<not> (194 \<le> a \<and> a \<le> 223)" "\<not> (224 \<le> a \<and> a \<le> 239)" "240 \<le> a" "a \<le> 244"
    using "2.prems" by (auto split: if_splits)
  then show ?case
  proof cases
    case 1
    then show ?thesis using "2.IH"(1) "2.prems" lossy_char [OF utf8_chunk_chars(1)] by simp
  next
    case 2
    then obtain b r where bs: "bs = b # r" "continuation b" "utf8_valid r" using "2.prems" by (auto split: list.splits)
    then show ?thesis using "2.IH"(2) [OF 2(1) conjI [OF 2(2,3)] bs(1) bs(3)] lossy_char [OF utf8_chunk_chars(2) [OF 2(2,3) bs(2)]] by simp
  next
    case 3
    then obtain b c r where bs: "bs = b # c # r" "second_of_3 a b" "continuation c" "utf8_valid r" using "2.prems" by (auto split: list.splits)
    then show ?thesis using "2.IH"(3) [OF 3(1,2) conjI [OF 3(3,4)] bs(1) _ bs(4)] lossy_char [OF utf8_chunk_chars(3) [OF 3(3,4) bs(2,3)]] by simp
  next
    case 4
    then obtain b c d r where bs: "bs = b # c # d # r" "second_of_4 a b" "continuation c" "continuation d" "utf8_valid r"
      using "2.prems" by (auto split: list.splits)
    then show ?thesis
      using "2.IH"(4) [OF 4(1,2,3) conjI [OF 4(4,5)] bs(1) _ _ bs(5)] lossy_char [OF utf8_chunk_chars(4) [OF 4(4,5) bs(2,3,4)]] by simp
  qed
qed simp

end
