(* ===== verification/Keyspace.thy ===== *)
theory Keyspace
  imports Zset Pubsub Utf8
begin

text \<open>
  \<open>marekvs-engine/src/cmd/generic.rs\<close>: the commands that work on keys of any type (deletion, expiry, scans of the
  key space, RENAME and COPY), and the fence for immutable keys of \<open>cmd/diff/keys.rs\<close>. Fetching a key from
  another node before the command is left out. The two keys of a move are on one shard and nothing
  interleaves: the code runs these reads and writes in this order as separate jobs, each on the shard of its key. Moving a JSON
  document or a proto message, which takes the document apart and puts it together again, is not modelled;
  nor is \<open>OBJECT\<close>. Arithmetic wraps, as in the release build.
\<close>

unbundle bit_operations_syntax

section \<open>Immutable keys\<close>

definition strip_prefix :: "bytes \<Rightarrow> bytes \<Rightarrow> bytes option" where
  "strip_prefix pre bs = (if prefix pre bs then Some (drop (length pre) bs) else None)"

text \<open>What follows the first \<open>}:\<close>.\<close>

fun after_brace :: "bytes \<Rightarrow> bytes option" where
  "after_brace (a # b # bs) = (if a = 125 \<and> b = 58 then Some bs else after_brace (b # bs))"
| "after_brace _ = None"

definition is_immutable_key :: "bytes \<Rightarrow> bool" where
  "is_immutable_key key =
     (case strip_prefix [100, 111, 99, 58, 123] key of
        Some t \<Rightarrow> (case after_brace t of Some suf \<Rightarrow> prefix [115, 58] suf | None \<Rightarrow> False)
      | None \<Rightarrow>
          (case strip_prefix [100, 105, 102, 102, 58, 123] key of
             Some t \<Rightarrow> (case after_brace t of Some suf \<Rightarrow> prefix [103, 58] suf \<or> prefix [114, 58] suf | None \<Rightarrow> False)
           | None \<Rightarrow> False))"

text \<open>The error of the fence; \<open>internal\<close> marks the task that writes such keys itself.\<close>

definition guard :: "bool \<Rightarrow> bytes list \<Rightarrow> reply option" where
  "guard internal keys =
     (if internal then None
      else if list_ex is_immutable_key keys
      then Some (R_Err ''DIFFIMMUTABLE immutable snapshot, graph or result key'') else None)"

section \<open>Deletion and types\<close>

definition del_key :: "u64 \<Rightarrow> bytes \<Rightarrow> shard \<Rightarrow> shard \<times> bool" where
  "del_key now key ctx = (let (ctx', h) = del_key_hlc now key ctx in (ctx', h \<noteq> None))"

fun del_keys :: "u64 \<Rightarrow> bytes list \<Rightarrow> shard \<Rightarrow> shard \<times> int" where
  "del_keys now [] ctx = (ctx, 0)"
| "del_keys now (k # ks) ctx =
     (let (ctx1, d) = del_key now k ctx; (ctx2, n) = del_keys now ks ctx1 in (ctx2, (if d then 1 else 0) + n))"

definition wrong_args :: "string \<Rightarrow> reply" where
  "wrong_args cmd = R_Err (''ERR wrong number of arguments for '' @ [CHR 0x27] @ cmd @ [CHR 0x27] @ '' command'')"

definition del_cmd :: "bool \<Rightarrow> u64 \<Rightarrow> bytes list \<Rightarrow> shard \<Rightarrow> shard \<times> reply" where
  "del_cmd internal now keys ctx =
     (case guard internal keys of
        Some e \<Rightarrow> (ctx, e)
      | None \<Rightarrow>
          if keys = [] then (ctx, wrong_args ''del'')
          else let (ctx', n) = del_keys now keys ctx in (ctx', R_Int n))"

definition exists_cmd :: "u64 \<Rightarrow> bytes list \<Rightarrow> shard \<Rightarrow> reply" where
  "exists_cmd now keys ctx =
     (if keys = [] then wrong_args ''exists''
      else R_Int (int (length (filter (\<lambda>k. key_type now ctx k \<noteq> None) keys))))"

definition type_name :: "u8 option \<Rightarrow> string" where
  "type_name t =
     (case t of
        None \<Rightarrow> ''none''
      | Some c \<Rightarrow>
          if c = 115 then ''string''
          else if c = CTYPE_LIST then ''list''
          else if c = CTYPE_HASH then ''hash''
          else if c = CTYPE_SET then ''set''
          else if c = CTYPE_ZSET then ''zset''
          else if c = CTYPE_STREAM then ''stream''
          else if c = CTYPE_HLL then ''string''
          else if c = CTYPE_BUDGET then ''budget''
          else if c = CTYPE_JSON then ''ReJSON-RL''
          else if c = CTYPE_PROTO then ''proto''
          else ''none'')"

definition type_cmd :: "u64 \<Rightarrow> bytes \<Rightarrow> shard \<Rightarrow> reply" where
  "type_cmd now key ctx = R_Simple (type_name (key_type now ctx key))"

section \<open>Expiry\<close>

definition get_head_del :: "u64 \<Rightarrow> shard \<Rightarrow> bytes \<Rightarrow> u64" where
  "get_head_del now ctx userkey =
     (case get_head ctx userkey of None \<Rightarrow> 0 | Some (env, _, del) \<Rightarrow> head_del now env del)"

definition raw_head_exists :: "shard \<Rightarrow> bytes \<Rightarrow> bool" where
  "raw_head_exists ctx userkey = (get_raw ctx (head_key userkey) \<noteq> None)"

definition ttl_envelope :: "u64 \<Rightarrow> shard \<Rightarrow> bytes \<Rightarrow> envelope option" where
  "ttl_envelope now ctx key =
     (case key_type now ctx key of
        None \<Rightarrow> None
      | Some t \<Rightarrow>
          if t = 115 then map_option fst (read_lww now ctx (string_key key) 0)
          else if t = 108 then map_option fst (read_lww now ctx (list_key key) 0)
          else map_option fst (get_head ctx key))"

definition member_element_key :: "u64 \<Rightarrow> shard \<Rightarrow> bytes \<Rightarrow> bytes \<Rightarrow> bytes option" where
  "member_element_key now ctx key member =
     (case get_head ctx key of
        None \<Rightarrow> None
      | Some (env, ctype, _) \<Rightarrow>
          if is_tombstone env \<or> is_expired env now then None
          else if ctype = CTYPE_HASH then Some (hash_field_key key member)
          else if ctype = CTYPE_SET then Some (set_member_key key member)
          else if ctype = CTYPE_ZSET then Some (zset_member_key key member)
          else None)"

definition set_member_deadline :: "u64 \<Rightarrow> bytes \<Rightarrow> bytes \<Rightarrow> u64 \<Rightarrow> shard \<Rightarrow> shard \<times> bool" where
  "set_member_deadline now key member deadline ctx =
     (case member_element_key now ctx key member of
        None \<Rightarrow> (ctx, False)
      | Some ek \<Rightarrow>
          (case Option.bind (get_raw ctx ek) envelope_decode of
             None \<Rightarrow> (ctx, False)
           | Some (env, pay) \<Rightarrow>
               if visible env pay (get_head_del now ctx key) now = None \<or> element_value pay = None then (ctx, False)
               else let (ctx', h) = shard_hlc_now now ctx
                    in if deadline \<noteq> 0 \<and> deadline \<le> now
                       then (fst (write_merged ek (element_remove (rtype env) h (sh_node_id ctx') (element_dots pay)) ctx'),
                             True)
                       else (fst (write_merged ek
                               (encode_with \<lparr>flags = flags env, hlc = h, origin = sh_node_id ctx',
                                             ttl_deadline_ms = deadline\<rparr> pay) ctx'), True)))"

text \<open>The deadline of EXPIRE and its variants in milliseconds, from the signed argument.\<close>

definition expire_deadline :: "u64 \<Rightarrow> i64 \<Rightarrow> u64 \<Rightarrow> bool \<Rightarrow> u64" where
  "expire_deadline now n mult absolute =
     (if absolute then (if n <s 0 then 0 else n) * mult
      else if n \<le>s 0 then 1
      else now + n * mult)"

definition expiremember :: "bool \<Rightarrow> u64 \<Rightarrow> bytes \<Rightarrow> bytes \<Rightarrow> i64 \<Rightarrow> u64 \<Rightarrow> bool \<Rightarrow> shard \<Rightarrow> shard \<times> reply" where
  "expiremember internal now key member n mult absolute ctx =
     (case guard internal [key] of
        Some e \<Rightarrow> (ctx, e)
      | None \<Rightarrow>
          let (ctx', ok) = set_member_deadline now key member (expire_deadline now n mult absolute) ctx
          in (ctx', R_Int (if ok then 1 else 0)))"

definition remaining :: "u64 \<Rightarrow> bool \<Rightarrow> envelope \<Rightarrow> reply" where
  "remaining now millis env =
     (let remain = (if ttl_deadline_ms env \<le> now then 0 else ttl_deadline_ms env - now)
      in if ttl_deadline_ms env = 0 then R_Int (-1)
         else R_Int (if millis then sint remain else sint (remain div 1000)))"

definition member_ttl :: "u64 \<Rightarrow> bytes \<Rightarrow> bytes \<Rightarrow> bool \<Rightarrow> shard \<Rightarrow> reply" where
  "member_ttl now key member millis ctx =
     (case member_element_key now ctx key member of
        None \<Rightarrow> R_Int (-2)
      | Some ek \<Rightarrow>
          (case Option.bind (get_raw ctx ek) envelope_decode of
             None \<Rightarrow> R_Int (-2)
           | Some (env, pay) \<Rightarrow>
               if visible env pay (get_head_del now ctx key) now = None \<or> element_value pay = None then R_Int (-2)
               else remaining now millis env))"

definition ttl_cmd :: "u64 \<Rightarrow> bytes \<Rightarrow> bool \<Rightarrow> shard \<Rightarrow> reply" where
  "ttl_cmd now key millis ctx =
     (case ttl_envelope now ctx key of None \<Rightarrow> R_Int (-2) | Some env \<Rightarrow> remaining now millis env)"

definition expiretime :: "u64 \<Rightarrow> bytes \<Rightarrow> bool \<Rightarrow> shard \<Rightarrow> reply" where
  "expiretime now key millis ctx =
     (case ttl_envelope now ctx key of
        None \<Rightarrow> R_Int (-2)
      | Some env \<Rightarrow>
          if ttl_deadline_ms env = 0 then R_Int (-1)
          else R_Int (if millis then sint (ttl_deadline_ms env) else sint (ttl_deadline_ms env div 1000)))"

definition set_deadline :: "u64 \<Rightarrow> bytes \<Rightarrow> u64 \<Rightarrow> shard \<Rightarrow> shard \<times> bool" where
  "set_deadline now key deadline ctx =
     (case key_type now ctx key of
        None \<Rightarrow> (ctx, False)
      | Some t \<Rightarrow>
          if t = 115
          then case read_lww now ctx (string_key key) 0 of
                 None \<Rightarrow> (ctx, False)
               | Some (env, payload) \<Rightarrow>
                   let (ctx', rec) =
                     (if rtype env = RT_Counter
                      then let (c, h) = shard_hlc_now now ctx
                           in (c, encode_with (with_ttl (envelope_new RT_Counter h (sh_node_id c)) deadline) payload)
                      else new_lww now RT_String payload deadline ctx)
                   in (fst (write_merged (string_key key) rec ctx'), True)
          else case get_head ctx key of
                 None \<Rightarrow> (ctx, False)
               | Some (_, t', _) \<Rightarrow>
                   if t' \<noteq> t then (ctx, False)
                   else case Option.bind (get_raw ctx (head_key key)) envelope_decode of
                          None \<Rightarrow> (ctx, False)
                        | Some (_, pay) \<Rightarrow>
                            let (ctx', h) = shard_hlc_now now ctx;
                                val = encode_with (with_ttl (envelope_head h (sh_node_id ctx')) deadline) pay
                            in (fst (write_merged (head_key key) val ctx'), True))"

definition expire_cmd :: "bool \<Rightarrow> u64 \<Rightarrow> bytes \<Rightarrow> i64 \<Rightarrow> u64 \<Rightarrow> bool \<Rightarrow> shard \<Rightarrow> shard \<times> reply" where
  "expire_cmd internal now key n mult absolute ctx =
     (case guard internal [key] of
        Some e \<Rightarrow> (ctx, e)
      | None \<Rightarrow>
          let deadline = expire_deadline now n mult absolute
          in if key_type now ctx key = Some CTYPE_BUDGET
             then (ctx, R_Err ''ERR EXPIRE is not supported for budget keys (use DEL)'')
             else if deadline \<le> now
             then let (ctx', d) = del_key now key ctx in (ctx', R_Int (if d then 1 else 0))
             else let (ctx', d) = set_deadline now key deadline ctx in (ctx', R_Int (if d then 1 else 0)))"

definition persist :: "bool \<Rightarrow> u64 \<Rightarrow> bytes \<Rightarrow> shard \<Rightarrow> shard \<times> reply" where
  "persist internal now key ctx =
     (case guard internal [key] of
        Some e \<Rightarrow> (ctx, e)
      | None \<Rightarrow>
          (case ttl_envelope now ctx key of
             None \<Rightarrow> (ctx, R_Int 0)
           | Some env \<Rightarrow>
               if ttl_deadline_ms env \<noteq> 0
               then let (ctx', d) = set_deadline now key 0 ctx in (ctx', R_Int (if d then 1 else 0))
               else (ctx, R_Int 0)))"

section \<open>Scanning the key space\<close>

definition record_visible :: "u64 \<Rightarrow> u8 \<Rightarrow> envelope \<Rightarrow> bytes \<Rightarrow> bool" where
  "record_visible now tag env pay =
     (if tag = 77 then \<not> is_tombstone env \<and> \<not> is_expired env now
      else visible env pay 0 now \<noteq> None \<and> (is_or_element (rtype env) \<longrightarrow> element_value pay \<noteq> None))"

text \<open>The user key that a record makes visible, unless it was seen before.\<close>

definition scan_hit :: "u64 \<Rightarrow> bytes option \<Rightarrow> bytes list \<Rightarrow> bytes \<Rightarrow> bytes \<Rightarrow> bytes option" where
  "scan_hit now pattern seen k v =
     (case ikey_parse k of
        None \<Rightarrow> None
      | Some p \<Rightarrow>
          if pk_tag p = 90 then None
          else if (case pk_userkey p of c # _ \<Rightarrow> c = 0 | [] \<Rightarrow> False) then None
          else if pk_userkey p \<in> set seen then None
          else case envelope_decode v of
                 None \<Rightarrow> None
               | Some (env, pay) \<Rightarrow>
                   if record_visible now (pk_tag p) env pay \<and>
                      (case pattern of None \<Rightarrow> True | Some pat \<Rightarrow> glob_match pat (pk_userkey p) = Some True)
                   then Some (pk_userkey p) else None)"

record scan_state =
  sc_out :: "bytes list"
  sc_next :: bytes
  sc_count :: nat

definition scan_visit ::
  "u64 \<Rightarrow> bytes \<Rightarrow> u64 \<Rightarrow> bytes option \<Rightarrow> bytes \<Rightarrow> bytes \<Rightarrow> scan_state \<Rightarrow> scan_state \<times> bool" where
  "scan_visit now start_after limit pattern k v st =
     (let st1 = st\<lparr>sc_count := sc_count st + 1\<rparr>
      in if sc_count st1 > unat (limit * 64) then (st1\<lparr>sc_next := k\<rparr>, False)
         else if start_after \<noteq> [] \<and> k \<le> start_after then (st1, True)
         else case scan_hit now pattern (sc_out st1) k v of
                None \<Rightarrow> (st1, True)
              | Some uk \<Rightarrow>
                  let st2 = st1\<lparr>sc_out := sc_out st1 @ [uk]\<rparr>
                  in if length (sc_out st2) \<ge> unat limit then (st2\<lparr>sc_next := k\<rparr>, False) else (st2, True))"

definition scan_userkeys :: "u64 \<Rightarrow> bytes \<Rightarrow> u64 \<Rightarrow> bytes option \<Rightarrow> shard \<Rightarrow> bytes list \<times> bytes" where
  "scan_userkeys now start_after limit pattern ctx =
     (let st = scan_prefix [] (scan_visit now start_after limit pattern) ctx \<lparr>sc_out = [], sc_next = [], sc_count = 0\<rparr>
      in (sc_out st, sc_next st))"

definition keys_cmd :: "u64 \<Rightarrow> bytes \<Rightarrow> shard \<Rightarrow> reply" where
  "keys_cmd now pattern ctx = R_Array (map R_Bulk (fst (scan_userkeys now [] (- 1 div 128) (Some pattern) ctx)))"

definition randomkey :: "u64 \<Rightarrow> shard \<Rightarrow> reply" where
  "randomkey now ctx = (case fst (scan_userkeys now [] 1 None ctx) of [] \<Rightarrow> R_Null | k # _ \<Rightarrow> R_Bulk k)"

subsection \<open>Cursors\<close>

definition hex_digit :: "nat \<Rightarrow> u8" where
  "hex_digit n = of_nat (if n < 10 then 48 + n else 87 + n)"

definition hex_encode :: "bytes \<Rightarrow> bytes" where
  "hex_encode b = concat (map (\<lambda>x. [hex_digit (unat x div 16), hex_digit (unat x mod 16)]) b)"

definition char_boundary :: "bytes \<Rightarrow> nat \<Rightarrow> bool" where
  "char_boundary s i = (i = 0 \<or> i = length s \<or> i < length s \<and> \<not> continuation (s ! i))"

definition hex_value :: "u8 \<Rightarrow> nat option" where
  "hex_value c =
     (if 48 \<le> c \<and> c \<le> 57 then Some (unat c - 48)
      else if 97 \<le> c \<and> c \<le> 102 then Some (unat c - 87)
      else if 65 \<le> c \<and> c \<le> 70 then Some (unat c - 55)
      else None)"

text \<open>\<open>u8::from_str_radix(s, 16)\<close> on two bytes: a leading plus sign is accepted.\<close>

definition from_hex2 :: "u8 \<Rightarrow> u8 \<Rightarrow> u8 option" where
  "from_hex2 a b =
     (if a = 43 then map_option of_nat (hex_value b)
      else case (hex_value a, hex_value b) of (Some x, Some y) \<Rightarrow> Some (of_nat (16 * x + y)) | _ \<Rightarrow> None)"

text \<open>Indexing a string slice inside a character panics.\<close>

datatype 'a rust = Returns 'a | Panics

fun hex_pairs :: "bytes \<Rightarrow> nat list \<Rightarrow> bytes option rust" where
  "hex_pairs s [] = Returns (Some [])"
| "hex_pairs s (i # is) =
     (if \<not> char_boundary s i \<or> \<not> char_boundary s (i + 2) then Panics
      else case from_hex2 (s ! i) (s ! (i + 1)) of
             None \<Rightarrow> Returns None
           | Some x \<Rightarrow>
               (case hex_pairs s is of
                  Returns (Some xs) \<Rightarrow> Returns (Some (x # xs))
                | r \<Rightarrow> r))"

definition hex_decode :: "bytes \<Rightarrow> bytes option rust" where
  "hex_decode s =
     (if odd (length s) then Returns None
      else if \<not> utf8_valid s then Returns None
      else hex_pairs s (map (\<lambda>i. 2 * i) [0..<length s div 2]))"

definition scan_cmd :: "u64 \<Rightarrow> bytes \<Rightarrow> u64 \<Rightarrow> bytes option \<Rightarrow> shard \<Rightarrow> reply rust" where
  "scan_cmd now cursor count pattern ctx =
     (case (if cursor = [48] then Returns (Some []) else hex_decode cursor) of
        Panics \<Rightarrow> Panics
      | Returns None \<Rightarrow> Returns (R_Err ''ERR invalid cursor'')
      | Returns (Some start_after) \<Rightarrow>
          let (keys, nxt) = scan_userkeys now start_after (max count 1) pattern ctx
          in Returns (R_Array [R_Bulk (if nxt = [] then [48] else hex_encode nxt), R_Array (map R_Bulk keys)]))"

section \<open>Moving a key\<close>

type_synonym key_record = "u8 \<times> bytes \<times> bytes"

definition collect_string :: "u64 \<Rightarrow> bytes \<Rightarrow> shard \<Rightarrow> shard \<times> key_record list option" where
  "collect_string now key ctx =
     (case read_lww now ctx (string_key key) 0 of
        None \<Rightarrow> (ctx, None)
      | Some (env, pay) \<Rightarrow>
          (case (if rtype env = RT_Counter
                 then map_option i64_to_string (Option.bind (counter_decode pay) counter_value) else Some pay) of
             None \<Rightarrow> (ctx, None)
           | Some pay' \<Rightarrow>
               let (ctx', v) = new_lww now RT_String pay' (ttl_deadline_ms env) ctx
               in (ctx', Some [(115, [], v)])))"

text \<open>The element types that are moved record by record.\<close>

definition moved_tag :: "u8 \<Rightarrow> tag option" where
  "moved_tag ctype =
     (if ctype = CTYPE_HASH then Some Tag_HashField
      else if ctype = CTYPE_SET then Some Tag_SetMember
      else if ctype = CTYPE_ZSET then Some Tag_ZsetMember
      else if ctype = CTYPE_STREAM then Some Tag_StreamEntry
      else if ctype = CTYPE_HLL then Some Tag_HllRegister
      else if ctype = CTYPE_LIST then Some Tag_ListElem
      else None)"

text \<open>Visiting one element; the clock advances while the records are collected.\<close>

definition collect_element ::
  "u64 \<Rightarrow> tag \<Rightarrow> u64 \<Rightarrow> bytes \<Rightarrow> bytes \<Rightarrow> shard \<times> key_record list \<Rightarrow> (shard \<times> key_record list) \<times> bool" where
  "collect_element now t del k v = (\<lambda>(ctx, out).
     (case (ikey_parse k, envelope_decode v) of
        (Some p, Some (env, pay)) \<Rightarrow>
          if visible env pay del now = None then ((ctx, out), True)
          else if is_or_element (rtype env)
          then (case element_value pay of
                  None \<Rightarrow> ((ctx, out), True)
                | Some val \<Rightarrow>
                    let (ctx', h) = shard_hlc_now now ctx;
                        rec = element_add_ttl (rtype env) h (sh_node_id ctx') val (ttl_deadline_ms env)
                    in ((ctx', out @ [(tag_code t, pk_suffix p, rec)]), True))
          else let (ctx', rec) = new_lww now (rtype env) pay (ttl_deadline_ms env) ctx
               in ((ctx', out @ [(tag_code t, pk_suffix p, rec)]), True)
      | _ \<Rightarrow> ((ctx, out), True)))"

definition collect_collection :: "u64 \<Rightarrow> u8 \<Rightarrow> bytes \<Rightarrow> shard \<Rightarrow> shard \<times> key_record list option" where
  "collect_collection now ctype key ctx =
     (case (get_head ctx key, Option.bind (get_raw ctx (head_key key)) envelope_decode) of
        (Some (head_env, _, del), Some (_, head_payload)) \<Rightarrow>
          let (ctx1, h) = shard_hlc_now now ctx;
              env = with_ttl (envelope_head h (sh_node_id ctx1)) (ttl_deadline_ms head_env);
              out = [(77, [], encode_with env head_payload)]
          in (case moved_tag ctype of
                None \<Rightarrow> (ctx1, None)
              | Some t \<Rightarrow>
                  let (ctx2, recs) = scan_prefix (collection_prefix t key) (collect_element now t del) ctx (ctx1, out)
                  in (ctx2, Some recs))
      | _ \<Rightarrow> (ctx, None))"

definition collect_key_records :: "u64 \<Rightarrow> bytes \<Rightarrow> shard \<Rightarrow> shard \<times> key_record list option" where
  "collect_key_records now key ctx =
     (case key_type now ctx key of
        None \<Rightarrow> (ctx, None)
      | Some t \<Rightarrow> if t = 115 then collect_string now key ctx else collect_collection now t key ctx)"

definition shadow_head_del_hlc :: "bytes \<Rightarrow> u64 \<Rightarrow> bytes" where
  "shadow_head_del_hlc payload m =
     (if length payload \<ge> 9 \<and> m > of_be64 (slice 1 8 payload)
      then take 1 payload @ be64 m @ drop 9 payload else payload)"

text \<open>\<open>None\<close> is the unreachable arm.\<close>

definition rebuild_ikey :: "u8 \<Rightarrow> bytes \<Rightarrow> bytes \<Rightarrow> bytes option" where
  "rebuild_ikey t userkey suf =
     (if t = 115 then Some (string_key userkey)
      else if t = 108 then Some (list_key userkey)
      else if t = 77 then Some (head_key userkey)
      else if t = 104 then Some (hash_field_key userkey suf)
      else if t = 83 then Some (set_member_key userkey suf)
      else if t = 122 then Some (zset_member_key userkey suf)
      else if t = 113 then Some (prefixed Tag_ListElem userkey suf)
      else if t = 120 then Some (prefixed Tag_StreamEntry userkey suf)
      else if t = 72 then Some (prefixed Tag_HllRegister userkey suf)
      else if t = 106 then Some (json_node_key userkey suf)
      else if t = 112 then Some (proto_field_key userkey suf)
      else None)"

definition restamp_record :: "u64 \<Rightarrow> bytes \<Rightarrow> u64 \<Rightarrow> shard \<Rightarrow> shard \<times> bytes option" where
  "restamp_record now value min_head_del ctx =
     (case envelope_decode value of
        None \<Rightarrow> (ctx, None)
      | Some (env, payload) \<Rightarrow>
          if is_head env
          then let (ctx', h) = shard_hlc_now now ctx
               in (ctx', Some (encode_with (with_ttl (envelope_head h (sh_node_id ctx')) (ttl_deadline_ms env))
                                 (shadow_head_del_hlc payload min_head_del)))
          else if is_or_element (rtype env)
          then (case element_value payload of
                  None \<Rightarrow> (ctx, None)
                | Some val \<Rightarrow>
                    let (ctx', h) = shard_hlc_now now ctx
                    in (ctx', Some (element_add_ttl (rtype env) h (sh_node_id ctx') val (ttl_deadline_ms env))))
          else let (ctx', v) = new_lww now (rtype env) payload (ttl_deadline_ms env) ctx in (ctx', Some v))"

definition write_record :: "u64 \<Rightarrow> bytes \<Rightarrow> u64 \<Rightarrow> shard \<Rightarrow> key_record \<Rightarrow> shard" where
  "write_record now dst clobber ctx = (\<lambda>(t, suf, value).
     (case rebuild_ikey t dst suf of
        None \<Rightarrow> ctx
      | Some ik \<Rightarrow>
          (case restamp_record now value clobber ctx of
             (ctx', Some v) \<Rightarrow> fst (write_merged ik v ctx')
           | (ctx', None) \<Rightarrow> ctx')))"

definition write_records :: "u64 \<Rightarrow> bytes \<Rightarrow> bool \<Rightarrow> key_record list \<Rightarrow> shard \<Rightarrow> shard" where
  "write_records now dst replace records ctx =
     (let (ctx', clobber) =
        (if replace then (case del_key_hlc now dst ctx of (c, h) \<Rightarrow> (c, case h of Some x \<Rightarrow> x | None \<Rightarrow> 0)) else (ctx, 0))
      in foldl (write_record now dst clobber) ctx' records)"

definition budget_move_fence :: "u64 \<Rightarrow> string \<Rightarrow> bytes \<Rightarrow> bytes \<Rightarrow> shard \<Rightarrow> reply option" where
  "budget_move_fence now what src dst ctx =
     (if key_type now ctx src = Some CTYPE_BUDGET \<or> key_type now ctx dst = Some CTYPE_BUDGET
      then Some (R_Err (''ERR '' @ what @ '' is not supported for budget keys'')) else None)"

definition rename_cmd :: "bool \<Rightarrow> u64 \<Rightarrow> bool \<Rightarrow> bytes \<Rightarrow> bytes \<Rightarrow> shard \<Rightarrow> shard \<times> reply" where
  "rename_cmd internal now nx src dst ctx =
     (case guard internal [src, dst] of
        Some e \<Rightarrow> (ctx, e)
      | None \<Rightarrow>
          (case budget_move_fence now ''RENAME'' src dst ctx of
             Some e \<Rightarrow> (ctx, e)
           | None \<Rightarrow>
               if nx \<and> key_type now ctx dst \<noteq> None then (ctx, R_Int 0)
               else (case collect_key_records now src ctx of
                       (ctx1, None) \<Rightarrow> (ctx1, R_Err ''ERR no such key'')
                     | (ctx1, Some records) \<Rightarrow>
                         let ctx2 = write_records now dst True records ctx1;
                             ctx3 = fst (del_key now src ctx2)
                         in (ctx3, if nx then R_Int 1 else R_Simple ''OK''))))"

definition copy_cmd :: "bool \<Rightarrow> u64 \<Rightarrow> bool \<Rightarrow> bytes \<Rightarrow> bytes \<Rightarrow> shard \<Rightarrow> shard \<times> reply" where
  "copy_cmd internal now replace src dst ctx =
     (case guard internal [dst] of
        Some e \<Rightarrow> (ctx, e)
      | None \<Rightarrow>
          (case budget_move_fence now ''COPY'' src dst ctx of
             Some e \<Rightarrow> (ctx, e)
           | None \<Rightarrow>
               if \<not> replace \<and> key_type now ctx dst \<noteq> None then (ctx, R_Int 0)
               else (case collect_key_records now src ctx of
                       (ctx1, None) \<Rightarrow> (ctx1, R_Int 0)
                     | (ctx1, Some records) \<Rightarrow> (write_records now dst replace records ctx1, R_Int 1))))"

end
