(* ===== verification/Keyspace_Laws.thy ===== *)
theory Keyspace_Laws
  imports Keyspace Zset_Properties
begin

text \<open>
  What moving a key leaves at the destination, element by element, and what it does not touch.
\<close>

section \<open>The clock\<close>

lemma tick_wall: "hlc_pack now 0 \<le> snd (shard_hlc_now now ctx)"
  by (simp add: shard_hlc_now_def hlc_now_def Let_def)

lemma tick_fields:
  "sh_node_id (fst (shard_hlc_now now ctx)) = sh_node_id ctx" "sh_data (fst (shard_hlc_now now ctx)) = sh_data ctx"
  by (simp_all add: shard_hlc_now_def split: prod.split)

lemma node_id_writes [simp]:
  "sh_node_id (put_raw k v ctx) = sh_node_id ctx" "sh_node_id (set_member_hook k v ctx) = sh_node_id ctx"
  "sh_node_id (fst (write_merged k v ctx)) = sh_node_id ctx"
proof -
  show put: "sh_node_id (put_raw k v ctx) = sh_node_id ctx" for k v and ctx :: shard by (simp add: put_raw_def)
  show hook: "sh_node_id (set_member_hook k v ctx) = sh_node_id ctx" for ctx
    by (auto simp: set_member_hook_def pop_hint_on_insert_def split: option.split)
  show "sh_node_id (fst (write_merged k v ctx)) = sh_node_id ctx"
    by (auto simp: write_merged_def hook put split: option.splits merge_outcome.splits)
qed

section \<open>Elements of a moved key\<close>

text \<open>What a move carries over of an element: its type, its value and its deadline.\<close>

type_synonym view = "record_type \<times> bytes \<times> u64"

definition moved_view :: "u64 \<Rightarrow> u64 \<Rightarrow> bytes \<Rightarrow> view option" where
  "moved_view now del v =
     (case envelope_decode v of
        None \<Rightarrow> None
      | Some (env, pay) \<Rightarrow>
          if visible env pay del now = None then None
          else if is_or_element (rtype env)
          then map_option (\<lambda>val. (rtype env, val, ttl_deadline_ms env)) (element_value pay)
          else Some (rtype env, pay, ttl_deadline_ms env))"

definition fresh_record :: "u64 \<Rightarrow> node_id \<Rightarrow> view \<Rightarrow> bytes" where
  "fresh_record h n = (\<lambda>(rt, val, ttl).
     if is_or_element rt then element_add_ttl rt h n val ttl
     else encode_with (with_ttl (envelope_new rt h n) ttl) val)"

definition small_view :: "view \<Rightarrow> bool" where
  "small_view = (\<lambda>(rt, val, ttl). is_or_element rt \<longrightarrow> short_key val)"

lemma decode_live_small: "decode_live payload n pos = Some (lv, p) \<Longrightarrow> small_values lv"
proof (induction payload n pos arbitrary: lv p rule: decode_live.induct)
  case (2 payload n pos)
  have "length (slice a (unat w) payload) < 2 ^ 64" for a and w :: u64
    using unat_bound(4) [of w] by (simp add: slice_def)
  then show ?case
    using 2 by (fastforce simp: small_values_def Let_def split: if_splits option.splits prod.splits)
qed (simp add: small_values_def)

lemma element_value_small: "element_value pay = Some val \<Longrightarrow> short_key val"
proof -
  assume "element_value pay = Some val"
  then obtain st where st: "state_decode pay = Some st" "state_value st = Some val"
    by (auto simp: element_value_def split: option.splits)
  then have "small_values (live st)"
    using decode_live_small by (fastforce simp: state_decode_def Let_def split: list.splits option.splits if_splits prod.splits)
  with st(2) show "short_key val"
    by (auto simp: short_key_def state_value_def small_values_def split: list.splits)
qed

lemma moved_view_small: "moved_view now del v = Some w \<Longrightarrow> small_view w"
  by (auto simp: moved_view_def small_view_def element_value_small split: option.splits if_splits)

lemma fresh_record_decode:
  assumes "small_view (rt, val, ttl)"
  shows "\<exists>env pay. envelope_decode (fresh_record h n (rt, val, ttl)) = Some (env, pay) \<and>
    rtype env = rt \<and> \<not> is_head env \<and> \<not> is_tombstone env \<and> hlc env = h \<and> origin env = n \<and> ttl_deadline_ms env = ttl \<and>
    (if is_or_element rt then element_value pay = Some val else pay = val)"
proof (cases "is_or_element rt")
  case True
  then have "length val < 2 ^ 64" using assms by (simp add: small_view_def short_key_def)
  then have st: "stored_state (one_live (Dot h n) val)" by (rule stored_one_live)
  then have dec: "state_decode (state_encode (one_live (Dot h n) val)) = Some (one_live (Dot h n) val)"
    by (rule stored_state_decode)
  have "fresh_record h n (rt, val, ttl) =
      encode_with (element_env rt (h, n) ttl False) (state_encode (one_live (Dot h n) val))"
    using True st by (simp add: fresh_record_def element_add_ttl_def encode_element_env stored_state_def one_live_def
        is_dead_def)
  with True dec show ?thesis
    by (simp add: element_value_def) (simp add: one_live_def state_value_def element_env_def)
next
  case False
  then show ?thesis
    by (simp add: fresh_record_def) (simp add: envelope_defs)
qed

lemma fresh_restamp:
  assumes "small_view w"
  shows "restamp_record now (fresh_record h n w) clobber ctx =
    (fst (shard_hlc_now now ctx), Some (fresh_record (snd (shard_hlc_now now ctx)) (sh_node_id ctx) w))"
proof -
  obtain rt val ttl where w: "w = (rt, val, ttl)" by (metis prod_cases3)
  obtain env pay where d: "envelope_decode (fresh_record h n w) = Some (env, pay)" "rtype env = rt" "\<not> is_head env"
    "ttl_deadline_ms env = ttl" "if is_or_element rt then element_value pay = Some val else pay = val"
    using fresh_record_decode assms w by metis
  obtain c t where t: "shard_hlc_now now ctx = (c, t)" by fastforce
  have "sh_node_id c = sh_node_id ctx" using tick_fields(1) [of now ctx] t by simp
  with d t show ?thesis
    by (cases "is_or_element rt") (simp_all add: restamp_record_def w fresh_record_def new_lww_def)
qed

lemma moved_tags:
  assumes "moved_tag ctype = Some t"
  shows "rebuild_ikey (tag_code t) dst suf = Some (prefixed t dst suf)" "t \<notin> {Tag_String, Tag_List}" "t \<noteq> Tag_Head"
    "t \<noteq> Tag_ZsetScore" "t \<noteq> Tag_Budget"
  using assms
  by (auto simp: moved_tag_def rebuild_ikey_def hash_field_key_def set_member_key_def zset_member_key_def split: if_splits)

lemma element_keys_of_tag:
  "t \<notin> {Tag_String, Tag_List, Tag_Head} \<Longrightarrow>
    prefixed t uk suf \<noteq> head_key uk' \<and> prefixed t uk suf \<noteq> string_key uk' \<and> prefixed t uk suf \<noteq> list_key uk'"
  using tag_code_inject [of t Tag_Head] tag_code_inject [of t Tag_String] tag_code_inject [of t Tag_List]
  by (auto simp: head_key_def string_key_def list_key_def prefixed_def simple_def ikey_base_def)

text \<open>What receiving \<open>v\<close> makes of what was stored under a key.\<close>

definition taken :: "bytes \<Rightarrow> bytes option \<Rightarrow> bytes \<Rightarrow> bytes" where
  "taken k held v = (case held of None \<Rightarrow> v | Some l \<Rightarrow> resolve l v (merge_outcome_for k l v))"

lemma merged_at_taken: "merged_at k v ctx = taken k (get_raw ctx k) v"
  by (simp add: merged_at_def taken_def)

lemma write_fresh:
  assumes "moved_tag ctype = Some t" "small_view w"
  shows "\<exists>h'. hlc_pack now 0 \<le> h' \<and>
    (\<forall>k. get_raw (write_record now dst clobber ctx (tag_code t, suf, fresh_record h n w)) k =
      (if k = prefixed t dst suf then Some (taken k (get_raw ctx k) (fresh_record h' (sh_node_id ctx) w)) else get_raw ctx k)) \<and>
    sh_node_id (write_record now dst clobber ctx (tag_code t, suf, fresh_record h n w)) = sh_node_id ctx"
  by (rule exI [of _ "snd (shard_hlc_now now ctx)"])
    (simp add: write_record_def moved_tags [OF assms(1)] fresh_restamp [OF assms(2)] tick_wall shard_simps
      merged_at_taken tick_fields)

text \<open>Writing the elements, each under its own suffix.\<close>

definition element_writes :: "tag \<Rightarrow> (bytes \<times> u64 \<times> node_id \<times> view) list \<Rightarrow> key_record list" where
  "element_writes t xs = map (\<lambda>(suf, h, n, w). (tag_code t, suf, fresh_record h n w)) xs"

definition written :: "u64 \<Rightarrow> tag \<Rightarrow> bytes \<Rightarrow> (bytes \<times> u64 \<times> node_id \<times> view) list \<Rightarrow> shard \<Rightarrow> shard \<Rightarrow> bool" where
  "written now t dst xs ctx ctx' \<longleftrightarrow>
     sh_node_id ctx' = sh_node_id ctx \<and>
     (\<forall>k. k \<notin> prefixed t dst ` fst ` set xs \<longrightarrow> get_raw ctx' k = get_raw ctx k) \<and>
     (\<forall>suf h n w. (suf, h, n, w) \<in> set xs \<longrightarrow>
        (\<exists>h'. hlc_pack now 0 \<le> h' \<and> get_raw ctx' (prefixed t dst suf) =
           Some (taken (prefixed t dst suf) (get_raw ctx (prefixed t dst suf)) (fresh_record h' (sh_node_id ctx) w))))"

lemma write_elements:
  assumes "moved_tag ctype = Some t" "short_key dst" "\<forall>(suf, h, n, w)\<in>set xs. small_view w" "distinct (map fst xs)"
  shows "written now t dst xs ctx (foldl (write_record now dst clobber) ctx (element_writes t xs))"
  using assms(3,4)
proof (induction xs arbitrary: ctx)
  case (Cons x xs)
  obtain suf1 h1 n1 w1 where x: "x = (suf1, h1, n1, w1)" by (metis prod_cases4)
  have small: "small_view w1" and new: "suf1 \<notin> fst ` set xs" using Cons.prems by (auto simp: x)
  let ?c = "write_record now dst clobber ctx (tag_code t, suf1, fresh_record h1 n1 w1)"
  obtain h' where h': "hlc_pack now 0 \<le> h'"
    "\<And>k. get_raw ?c k = (if k = prefixed t dst suf1 then Some (taken k (get_raw ctx k) (fresh_record h' (sh_node_id ctx) w1)) else get_raw ctx k)"
    "sh_node_id ?c = sh_node_id ctx"
    using write_fresh [OF assms(1) small] by metis
  let ?r = "foldl (write_record now dst clobber) ?c (element_writes t xs)"
  have IH: "written now t dst xs ?c ?r" using Cons by (auto simp: x)
  have inj: "prefixed t dst s = prefixed t dst s' \<longleftrightarrow> s = s'" for s s'
    using prefixed_inject [OF assms(2,2) [unfolded short_key_def]] by simp
  have "\<exists>h'. hlc_pack now 0 \<le> h' \<and> get_raw ?r (prefixed t dst suf) =
        Some (taken (prefixed t dst suf) (get_raw ctx (prefixed t dst suf)) (fresh_record h' (sh_node_id ctx) w))"
    if mem: "(suf, h, n, w) \<in> set (x # xs)" for suf h n w
  proof (cases "(suf, h, n, w) \<in> set xs")
    case True
    then have "suf \<noteq> suf1" using new by force
    then have "get_raw ?c (prefixed t dst suf) = get_raw ctx (prefixed t dst suf)" by (simp add: h'(2) inj)
    then show ?thesis using IH True unfolding written_def h'(3) by metis
  next
    case False
    then have eq: "suf = suf1" "w = w1" using mem by (auto simp: x)
    have "prefixed t dst suf1 \<notin> prefixed t dst ` fst ` set xs" using new inj by auto
    then show ?thesis using IH h'(1,2) unfolding written_def eq by auto
  qed
  moreover have "get_raw ?r k = get_raw ctx k" if "k \<notin> prefixed t dst ` fst ` set (x # xs)" for k
    using IH h'(2) that unfolding written_def by (simp add: x)
  moreover have "foldl (write_record now dst clobber) ctx (element_writes t (x # xs)) = ?r"
    by (simp add: element_writes_def x)
  moreover have "sh_node_id ?r = sh_node_id ctx" using IH h'(3) by (simp add: written_def)
  ultimately show ?case unfolding written_def by metis
qed (simp add: element_writes_def written_def)

section \<open>Collecting the elements\<close>

definition suffix_of :: "bytes \<Rightarrow> bytes" where
  "suffix_of k = (case ikey_parse k of Some p \<Rightarrow> pk_suffix p | None \<Rightarrow> [])"

definition item_view :: "u64 \<Rightarrow> u64 \<Rightarrow> bytes \<times> bytes \<Rightarrow> (bytes \<times> view) option" where
  "item_view now del = (\<lambda>(k, v). map_option (Pair (suffix_of k)) (moved_view now del v))"

lemma collect_element_view:
  assumes "ikey_parse k = Some p"
  shows "collect_element now t del k v (ctx, out) =
    (case moved_view now del v of
       None \<Rightarrow> ((ctx, out), True)
     | Some w \<Rightarrow> ((fst (shard_hlc_now now ctx),
          out @ [(tag_code t, suffix_of k, fresh_record (snd (shard_hlc_now now ctx)) (sh_node_id ctx) w)]), True))"
proof -
  obtain c h where t: "shard_hlc_now now ctx = (c, h)" by fastforce
  have "sh_node_id c = sh_node_id ctx" using tick_fields(1) [of now ctx] t by simp
  then show ?thesis
    by (auto simp: collect_element_def moved_view_def assms suffix_of_def fresh_record_def new_lww_def t split: option.split)
qed

lemma collect_elements:
  assumes "\<forall>(k, v)\<in>set xs. ikey_parse k \<noteq> None"
  shows "\<exists>ctx' ys. scan_loop (collect_element now t del) xs (ctx, out) = (ctx', out @ element_writes t ys) \<and>
    sh_data ctx' = sh_data ctx \<and> sh_node_id ctx' = sh_node_id ctx \<and>
    map (\<lambda>(suf, h, n, w). (suf, w)) ys = List.map_filter (item_view now del) xs"
  using assms
proof (induction xs arbitrary: ctx out)
  case Nil
  then show ?case by (auto simp: element_writes_def List.map_filter_simps)
next
  case (Cons x xs)
  obtain k v where x: "x = (k, v)" by (cases x)
  obtain p where p: "ikey_parse k = Some p" using Cons.prems by (auto simp: x)
  show ?case
  proof (cases "moved_view now del v")
    case None
    then show ?thesis
      using Cons.IH [of ctx out] Cons.prems
      by (simp add: x collect_element_view [OF p] item_view_def List.map_filter_simps)
  next
    case (Some w)
    let ?c = "fst (shard_hlc_now now ctx)"
    let ?y = "(suffix_of k, snd (shard_hlc_now now ctx), sh_node_id ctx, w)"
    obtain ctx' ys where IH: "scan_loop (collect_element now t del) xs (?c, out @ element_writes t [?y]) =
        (ctx', (out @ element_writes t [?y]) @ element_writes t ys)"
      "sh_data ctx' = sh_data ?c" "sh_node_id ctx' = sh_node_id ?c"
      "map (\<lambda>(suf, h, n, w). (suf, w)) ys = List.map_filter (item_view now del) xs"
      using Cons.IH [of ?c "out @ element_writes t [?y]"] Cons.prems by auto
    have "scan_loop (collect_element now t del) (x # xs) (ctx, out) = (ctx', out @ element_writes t (?y # ys))"
      using IH(1) by (simp add: x collect_element_view [OF p] Some element_writes_def)
    moreover have "map (\<lambda>(suf, h, n, w). (suf, w)) (?y # ys) = List.map_filter (item_view now del) (x # xs)"
      using IH(4) Some by (simp add: x item_view_def List.map_filter_simps)
    ultimately show ?thesis using IH(2,3) tick_fields by metis
  qed
qed

definition moved_items :: "u64 \<Rightarrow> tag \<Rightarrow> u64 \<Rightarrow> bytes \<Rightarrow> shard \<Rightarrow> (bytes \<times> view) list" where
  "moved_items now t del src ctx =
     List.map_filter (item_view now del) (scan_range (collection_prefix t src) (collection_prefix t src) ctx)"

lemma in_collection:
  "(k, v) \<in> set (scan_range (collection_prefix t uk) (collection_prefix t uk) ctx) \<longleftrightarrow>
     (\<exists>suf. k = prefixed t uk suf \<and> get_raw ctx k = Some v)"
  by (auto simp: in_scan_prefix collection_prefix_def prefixed_def prefix_def)

lemma parse_element:
  assumes "t \<notin> {Tag_String, Tag_List}" "short_key uk"
  shows "ikey_parse (prefixed t uk suf) = Some \<lparr>pk_pid = pid_of uk, pk_tag = tag_code t, pk_userkey = uk, pk_suffix = suf\<rparr>"
    "suffix_of (prefixed t uk suf) = suf"
  using parse_prefixed [OF assms [unfolded short_key_def]] by (simp_all add: suffix_of_def)

lemma item_view_iff: "item_view now del (k, v) = Some (suf, w) \<longleftrightarrow> suffix_of k = suf \<and> moved_view now del v = Some w"
  by (cases "moved_view now del v") (auto simp: item_view_def)

lemma in_moved_items:
  assumes "t \<notin> {Tag_String, Tag_List}" "short_key src"
  shows "(suf, w) \<in> set (moved_items now t del src ctx) \<longleftrightarrow>
    (\<exists>v. get_raw ctx (prefixed t src suf) = Some v \<and> moved_view now del v = Some w)"
proof -
  have "(suf, w) \<in> set (moved_items now t del src ctx) \<longleftrightarrow>
      (\<exists>k v. (\<exists>s. k = prefixed t src s) \<and> get_raw ctx k = Some v \<and> suffix_of k = suf \<and> moved_view now del v = Some w)"
    unfolding moved_items_def in_map_filter Bex_def split_paired_Ex item_view_iff in_collection by blast
  then show ?thesis using parse_element(2) [OF assms] by metis
qed

lemma distinct_moved_items:
  assumes "t \<notin> {Tag_String, Tag_List}" "short_key src"
  shows "distinct (map fst (moved_items now t del src ctx))"
proof -
  let ?r = "scan_range (collection_prefix t src) (collection_prefix t src) ctx"
  have "sorted_wrt (<) (map fst ?r)" using scan_range_sorted by (simp add: sorted_wrt_map)
  then have d: "distinct (map fst ?r)" using strict_sorted_iff by blast
  have inj: "inj_on suffix_of (fst ` set ?r)"
    using parse_element(2) [OF assms] by (auto simp: inj_on_def in_collection)
  have "distinct (map fst (List.map_filter (item_view now del) xs))"
    if "distinct (map fst xs)" "inj_on suffix_of (fst ` set xs)" for xs
    using that
  proof (induction xs)
    case (Cons x xs)
    have "suffix_of (fst x) \<notin> fst ` set (List.map_filter (item_view now del) xs)"
    proof
      assume "suffix_of (fst x) \<in> fst ` set (List.map_filter (item_view now del) xs)"
      then obtain k v w where "(k, v) \<in> set xs" "item_view now del (k, v) = Some (suffix_of (fst x), w)"
        by (auto simp: in_map_filter)
      then have "suffix_of k = suffix_of (fst x)" "k \<in> fst ` set xs" by (auto simp: item_view_iff rev_image_eqI)
      then show False using Cons.prems by (auto simp: inj_on_def)
    qed
    moreover have "fst y = suffix_of (fst x)" if "item_view now del x = Some y" for y
      using that by (cases x; cases y) (simp add: item_view_iff)
    ultimately show ?case using Cons by (auto simp: List.map_filter_simps simp del: split_paired_All split: option.split)
  qed (simp add: List.map_filter_simps)
  with d inj show ?thesis by (simp add: moved_items_def)
qed

lemma collect_collection_result:
  assumes "moved_tag ctype = Some t" "short_key src" "get_head ctx src = Some (henv, ct, del)"
    "Option.bind (get_raw ctx (head_key src)) envelope_decode = Some (henv, hpay)"
  shows "\<exists>ctx' h n ys. collect_collection now ctype src ctx =
      (ctx', Some ((77, [], encode_with (with_ttl (envelope_head h n) (ttl_deadline_ms henv)) hpay) # element_writes t ys)) \<and>
    sh_data ctx' = sh_data ctx \<and> sh_node_id ctx' = sh_node_id ctx \<and>
    map (\<lambda>(suf, h, n, w). (suf, w)) ys = moved_items now t del src ctx"
proof -
  obtain c h where t: "shard_hlc_now now ctx = (c, h)" by fastforce
  have c: "sh_data c = sh_data ctx" "sh_node_id c = sh_node_id ctx" using tick_fields [of now ctx] t by simp_all
  let ?out = "[(77, [], encode_with (with_ttl (envelope_head h (sh_node_id c)) (ttl_deadline_ms henv)) hpay)]"
  let ?r = "scan_range (collection_prefix t src) (collection_prefix t src) ctx"
  have "\<forall>(k, v)\<in>set ?r. ikey_parse k \<noteq> None"
    using parse_element(1) [OF moved_tags(2) [OF assms(1)] assms(2)] by (auto simp: in_collection)
  from collect_elements [OF this, of now t del c ?out]
  obtain ctx' ys where r: "scan_loop (collect_element now t del) ?r (c, ?out) = (ctx', ?out @ element_writes t ys)"
    "sh_data ctx' = sh_data c" "sh_node_id ctx' = sh_node_id c"
    "map (\<lambda>(suf, h, n, w). (suf, w)) ys = List.map_filter (item_view now del) ?r"
    by blast
  then have "collect_collection now ctype src ctx = (ctx', Some (?out @ element_writes t ys))"
    using assms t by (simp add: collect_collection_def scan_prefix_def)
  then show ?thesis using r(2-4) c by (auto simp: moved_items_def)
qed

section \<open>Moving a collection\<close>

lemma same_data:
  assumes "sh_data a = sh_data b"
  shows "get_raw a k = get_raw b k" "key_type now a uk = key_type now b uk"
proof -
  have raw: "get_raw a = get_raw b" using assms by (simp add: get_raw_def fun_eq_iff)
  have head: "get_head a = get_head b" by (simp add: get_head_def raw fun_eq_iff)
  have "scan_range s p a = scan_range s p b" for s p by (simp add: scan_range_def bounded_iter_def assms)
  then have coll: "collection_nonempty now a = collection_nonempty now b"
    by (simp add: collection_nonempty_def scan_prefix_def fun_eq_iff split: option.split)
  show "get_raw a k = get_raw b k" "key_type now a uk = key_type now b uk"
    by (simp_all only: key_type_def raw head coll)
qed

lemma get_del_key:
  "k \<noteq> string_key key \<Longrightarrow> k \<noteq> head_key key \<Longrightarrow> get_raw (fst (del_key now key ctx)) k = get_raw ctx k"
  by (cases "shard_hlc_now now ctx")
    (use get_raw_hlc [of now ctx k] in \<open>auto simp: del_key_def del_key_hlc_def shard_simps Let_def split: option.splits\<close>)

lemma head_key_inject: "short_key a \<Longrightarrow> short_key b \<Longrightarrow> head_key a = head_key b \<longleftrightarrow> a = b"
  using prefixed_inject [of a b Tag_Head "[]" Tag_Head "[]"] by (simp add: head_key_def short_key_def)

lemma write_head:
  "\<exists>h'. hlc_pack now 0 \<le> h' \<and>
    (\<forall>k. get_raw (write_record now dst 0 ctx (77, [], encode_with (with_ttl (envelope_head h n) ttl) pay)) k =
       (if k = head_key dst
        then Some (taken k (get_raw ctx k) (encode_with (with_ttl (envelope_head h' (sh_node_id ctx)) ttl) pay))
        else get_raw ctx k))"
proof -
  obtain c t where t: "shard_hlc_now now ctx = (c, t)" by fastforce
  have "sh_node_id c = sh_node_id ctx" "get_raw c = get_raw ctx" "hlc_pack now 0 \<le> t"
    using tick_fields [of now ctx] get_raw_hlc [of now ctx] tick_wall [of now ctx] t by (auto simp: fun_eq_iff)
  moreover have "is_head (with_ttl (envelope_head h n) ttl)" "ttl_deadline_ms (with_ttl (envelope_head h n) ttl) = ttl"
    by (simp_all add: is_head_def envelope_head_def with_ttl_def COLLECTION_HEAD_def)
  ultimately show ?thesis
    by (intro exI [of _ t])
      (simp add: write_record_def rebuild_ikey_def restamp_record_def t shard_simps merged_at_taken shadow_head_del_hlc_def)
qed

text \<open>Collecting the records of one key and writing them under another, on a shard where nothing is clobbered.\<close>

definition moved :: "u64 \<Rightarrow> tag \<Rightarrow> bytes \<Rightarrow> (bytes \<times> view) list \<Rightarrow> u64 \<Rightarrow> bytes \<Rightarrow> shard \<Rightarrow> shard \<Rightarrow> bool" where
  "moved now t dst items ttl hpay ctx ctx' \<longleftrightarrow>
     (\<exists>h n. hlc_pack now 0 \<le> h \<and> get_raw ctx' (head_key dst) =
        Some (taken (head_key dst) (get_raw ctx (head_key dst)) (encode_with (with_ttl (envelope_head h n) ttl) hpay))) \<and>
     (\<forall>suf w. (suf, w) \<in> set items \<longrightarrow>
        (\<exists>h n. hlc_pack now 0 \<le> h \<and> get_raw ctx' (prefixed t dst suf) =
           Some (taken (prefixed t dst suf) (get_raw ctx (prefixed t dst suf)) (fresh_record h n w)))) \<and>
     (\<forall>k. k \<notin> insert (head_key dst) (prefixed t dst ` fst ` set items) \<longrightarrow> get_raw ctx' k = get_raw ctx k)"

lemma write_collected:
  assumes type: "moved_tag ctype = Some t" and dst: "short_key dst" and small: "\<forall>(suf, h, n, w)\<in>set ys. small_view w"
    and dist: "distinct (map fst ys)"
  shows "moved now t dst (map (\<lambda>(suf, h, n, w). (suf, w)) ys) ttl hpay ctx
    (foldl (write_record now dst 0) ctx ((77, [], encode_with (with_ttl (envelope_head h1 n1) ttl) hpay) # element_writes t ys))"
proof -
  define c2 where "c2 = write_record now dst 0 ctx (77, [], encode_with (with_ttl (envelope_head h1 n1) ttl) hpay)"
  obtain h where h: "hlc_pack now 0 \<le> h" and c2: "\<And>k. get_raw c2 k = (if k = head_key dst
      then Some (taken k (get_raw ctx k) (encode_with (with_ttl (envelope_head h (sh_node_id ctx)) ttl) hpay)) else get_raw ctx k)"
    unfolding c2_def using write_head by blast
  have fst_ys: "fst ` set (map (\<lambda>(suf, h, n, w). (suf, w)) ys) = fst ` set ys" by force
  have elem: "prefixed t dst suf \<noteq> head_key dst" for suf
    using element_keys_of_tag [of t dst suf dst] moved_tags [OF type] by auto
  then have "head_key dst \<notin> prefixed t dst ` fst ` set ys" by (metis imageE)
  with write_elements [OF type dst small dist, of now c2 0] c2 h elem show ?thesis
    unfolding moved_def fst_ys foldl.simps c2_def [symmetric] written_def by auto metis+
qed

lemma rename_collection:
  assumes keys: "short_key src" "short_key dst" "src \<noteq> dst" "\<not> is_immutable_key src" "\<not> is_immutable_key dst"
    and type: "key_type now ctx src = Some ctype" "moved_tag ctype = Some t"
    and head: "get_head ctx src = Some (henv, ct, del)" "Option.bind (get_raw ctx (head_key src)) envelope_decode = Some (henv, hpay)"
    and absent: "key_type now ctx dst = None"
  shows "\<exists>ctx2. moved now t dst (moved_items now t del src ctx) (ttl_deadline_ms henv) hpay ctx ctx2 \<and>
    rename_cmd internal now nx src dst ctx = (fst (del_key now src ctx2), if nx then R_Int 1 else R_Simple ''OK'')"
proof -
  note tag = moved_tags [OF type(2)]
  obtain c1 h1 n1 ys where c1: "collect_collection now ctype src ctx =
      (c1, Some ((77, [], encode_with (with_ttl (envelope_head h1 n1) (ttl_deadline_ms henv)) hpay) # element_writes t ys))"
    "sh_data c1 = sh_data ctx" and ys: "map (\<lambda>(suf, h, n, w). (suf, w)) ys = moved_items now t del src ctx"
    using collect_collection_result [OF type(2) keys(1) head] by blast
  have t115: "ctype \<noteq> 115" "ctype \<noteq> CTYPE_BUDGET"
    using type(2) by (auto simp: moved_tag_def CTYPE_HASH_def CTYPE_SET_def CTYPE_ZSET_def CTYPE_STREAM_def CTYPE_HLL_def
        CTYPE_LIST_def CTYPE_BUDGET_def split: if_splits)
  have "map fst ys = map fst (moved_items now t del src ctx)" using ys [symmetric] by (simp add: case_prod_unfold comp_def)
  then have dist: "distinct (map fst ys)" using distinct_moved_items [OF tag(2) keys(1)] by simp
  have small: "\<forall>(suf, h, n, w)\<in>set ys. small_view w"
  proof clarify
    fix suf h n rt val ttl
    assume "(suf, h, n, rt, val, ttl) \<in> set ys"
    then have "(suf, (rt, val, ttl)) \<in> set (moved_items now t del src ctx)" unfolding ys [symmetric] by force
    then show "small_view (rt, val, ttl)" using in_moved_items [OF tag(2) keys(1)] moved_view_small by blast
  qed
  let ?recs = "(77, [], encode_with (with_ttl (envelope_head h1 n1) (ttl_deadline_ms henv)) hpay) # element_writes t ys"
  have "moved now t dst (moved_items now t del src ctx) (ttl_deadline_ms henv) hpay ctx (foldl (write_record now dst 0) c1 ?recs)"
    using write_collected [OF type(2) keys(2) small dist, of now "ttl_deadline_ms henv" hpay c1 h1 n1] same_data(1) [OF c1(2)]
    by (simp add: ys moved_def)
  moreover have "rename_cmd internal now nx src dst ctx =
      (fst (del_key now src (foldl (write_record now dst 0) c1 ?recs)), if nx then R_Int 1 else R_Simple ''OK'')"
    using keys type absent c1 t115 same_data(2) [OF c1(2), of now dst]
    by (simp add: rename_cmd_def guard_def budget_move_fence_def collect_key_records_def write_records_def del_key_hlc_def)
  ultimately show ?thesis by blast
qed

end
