(* ===== verification/Keyspace_Properties.thy ===== *)
theory Keyspace_Properties
  imports Keyspace_Laws
begin

text \<open>
  What the commands on keys do, and where they go wrong: cursors of SCAN, deadlines, and moved keys.
\<close>

section \<open>Cursors\<close>

lemma hex_value_digit: "n < 16 \<Longrightarrow> hex_value (hex_digit n) = Some n"
proof -
  assume "n < 16"
  then have "n \<in> set [0..<16]" by simp
  moreover have "\<forall>n\<in>set [0..<16]. hex_value (hex_digit n) = Some n" by code_simp
  ultimately show ?thesis by blast
qed

lemma hex_digit_ascii: "n < 16 \<Longrightarrow> hex_digit n < 128 \<and> hex_digit n \<noteq> 43"
proof -
  assume "n < 16"
  then have "n \<in> set [0..<16]" by simp
  moreover have "\<forall>n\<in>set [0..<16]. hex_digit n < 128 \<and> hex_digit n \<noteq> 43" by code_simp
  ultimately show ?thesis by blast
qed

lemma length_hex_encode: "length (hex_encode b) = 2 * length b"
  by (induction b) (simp_all add: hex_encode_def)

lemma hex_encode_nth:
  assumes "i < length b"
  shows "hex_encode b ! (2 * i) = hex_digit (unat (b ! i) div 16)"
    "hex_encode b ! (2 * i + 1) = hex_digit (unat (b ! i) mod 16)"
  using assms
proof (induction b arbitrary: i)
  case (Cons x b)
  { case 1 then show ?case using Cons.IH(1) [of "i - 1"] by (cases i) (simp_all add: hex_encode_def) }
  { case 2 then show ?case using Cons.IH(2) [of "i - 1"] by (cases i) (simp_all add: hex_encode_def) }
qed simp_all

lemma hex_encode_ascii: "list_all (\<lambda>c. c < 128) (hex_encode b)"
proof -
  have "unat x div 16 < 16" "unat x mod 16 < 16" for x :: u8
    using unat_bound(1) [of x] by (simp_all add: less_mult_imp_div_less)
  then show ?thesis by (induction b) (simp_all add: hex_encode_def hex_digit_ascii)
qed

lemma ascii_valid: "list_all (\<lambda>c. c < 128) s \<Longrightarrow> utf8_valid s"
  by (induction s) auto

lemma ascii_boundary: "list_all (\<lambda>c. c < 128) s \<Longrightarrow> i \<le> length s \<Longrightarrow> char_boundary s i"
  by (auto simp: char_boundary_def continuation_def list_all_length not_le)

lemma from_hex2_encode: "from_hex2 (hex_digit (unat x div 16)) (hex_digit (unat x mod 16)) = Some x" for x :: u8
proof -
  have d: "unat x div 16 < 16" "unat x mod 16 < 16"
    using unat_bound(1) [of x] by (simp_all add: less_mult_imp_div_less)
  then show ?thesis
    using hex_digit_ascii [OF d(1)] by (simp add: from_hex2_def hex_value_digit)
qed

lemma hex_pairs_encode:
  assumes "\<And>i. i \<in> set is \<Longrightarrow> i < length b"
  shows "hex_pairs (hex_encode b) (map (\<lambda>i. 2 * i) is) = Returns (Some (map ((!) b) is))"
  using assms
proof (induction "is")
  case (Cons i "is")
  have i: "i < length b" using Cons.prems by simp
  then have "char_boundary (hex_encode b) (2 * i)" "char_boundary (hex_encode b) (2 * i + 2)"
    by (simp_all add: ascii_boundary hex_encode_ascii length_hex_encode)
  then show ?case
    using Cons hex_encode_nth [OF i] from_hex2_encode [of "b ! i"] by simp
qed simp

lemma hex_roundtrip: "hex_decode (hex_encode b) = Returns (Some b)"
  using hex_pairs_encode [of "[0..<length b]" b]
  by (simp add: hex_decode_def length_hex_encode ascii_valid hex_encode_ascii map_nth)

lemma upt_split: "m < n \<Longrightarrow> [0..<n] = [0..<m] @ m # [Suc m..<n]"
  using upt_add_eq_append [of 0 m "n - m"] by (simp add: upt_conv_Cons)

lemma utf8_valid_append: "utf8_valid pre \<Longrightarrow> utf8_valid (pre @ s) \<Longrightarrow> utf8_valid s"
proof (induction pre rule: utf8_valid.induct)
  case (2 a bs)
  consider "a < 128" | "\<not> a < 128" "194 \<le> a \<and> a \<le> 223"
    | "\<not> a < 128" "\<not> (194 \<le> a \<and> a \<le> 223)" "224 \<le> a \<and> a \<le> 239"
    | "\<not> a < 128" "\<not> (194 \<le> a \<and> a \<le> 223)" "\<not> (224 \<le> a \<and> a \<le> 239)" "240 \<le> a \<and> a \<le> 244"
    using "2.prems"(1) by (auto split: if_splits)
  then show ?case
  proof cases
    case 1
    with 2 show ?thesis by simp
  next
    case 2
    then obtain b r where bs: "bs = b # r" "utf8_valid r" using "2.prems"(1) by (auto split: list.splits)
    with 2 "2.IH"(2) "2.prems"(2) show ?thesis by simp
  next
    case 3
    then obtain b c r where bs: "bs = b # c # r" "utf8_valid r" using "2.prems"(1) by (auto split: list.splits)
    then have "utf8_valid (r @ s)" using "2.prems"(2) 3 by (auto split: if_splits)
    with "2.IH"(3) [OF 3 bs(1) _ bs(2)] show ?thesis by simp
  next
    case 4
    then obtain b c d r where bs: "bs = b # c # d # r" "utf8_valid r" using "2.prems"(1) by (auto split: list.splits)
    then have "utf8_valid (r @ s)" using "2.prems"(2) 4 by (auto split: if_splits)
    with "2.IH"(4) [OF 4 bs(1) _ _ bs(2)] show ?thesis by simp
  qed
qed simp

lemma utf8_lead: "utf8_valid (lead # rest) \<Longrightarrow> 128 \<le> lead \<Longrightarrow> \<exists>b r. rest = b # r \<and> continuation b"
  by (auto simp: second_of_3_def second_of_4_def continuation_def word_le_nat_alt word_less_nat_alt split: if_splits list.splits)

lemma char_boundary_append:
  "char_boundary pre i \<Longrightarrow> i \<le> length pre \<Longrightarrow> char_boundary (pre @ s) (length pre) \<Longrightarrow> char_boundary (pre @ s) i"
  by (auto simp: char_boundary_def nth_append)

text \<open>The pairs of a prefix decode as they do alone; what follows decides.\<close>

lemma hex_pairs_append:
  assumes "hex_pairs pre is = Returns (Some k)" "\<forall>i\<in>set is. i + 2 \<le> length pre"
    "char_boundary (pre @ s) (length pre)" "hex_pairs (pre @ s) js = Panics"
  shows "hex_pairs (pre @ s) (is @ js) = Panics"
  using assms
proof (induction "is" arbitrary: k)
  case (Cons i "is")
  then have i: "i + 2 \<le> length pre" "char_boundary pre i" "char_boundary pre (i + 2)" by (auto split: if_splits)
  obtain x xs where x: "from_hex2 (pre ! i) (pre ! (i + 1)) = Some x" "hex_pairs pre is = Returns (Some xs)"
    using Cons.prems(1) i by (auto split: option.splits rust.splits)
  have "hex_pairs (pre @ s) (is @ js) = Panics" using Cons.IH [OF x(2)] Cons.prems by simp
  moreover have "char_boundary (pre @ s) i" "char_boundary (pre @ s) (i + 2)"
    using i Cons.prems(3) by (auto intro: char_boundary_append)
  ultimately show ?case using i x by (simp add: nth_append)
qed simp

text \<open>C36: a cursor that is not one can abort the process. The decoder of cursors slices the string two bytes at a
  time and stops at the first pair that is not hexadecimal. When the cursor is valid UTF-8 of even length, a
  beginning of it decodes, and the next pair ends inside a character (an ASCII byte followed by the first byte of
  a longer character), the slice panics, and the release profile turns a panic into an abort; the pair itself
  need not be hexadecimal. Cursors that the server has issued decode to the key they encode.\<close>

theorem scan_cursor_panics:
  assumes "hex_decode pre = Returns (Some k)" "a < 128" "128 \<le> lead" "even (length rest)"
    "utf8_valid (pre @ a # lead # rest)"
  shows "scan_cmd now (pre @ a # lead # rest) count pattern ctx = Panics \<and>
    hex_decode (hex_encode key) = Returns (Some key)"
proof -
  let ?s = "pre @ a # lead # rest"
  let ?m = "length pre div 2"
  have pre: "even (length pre)" "utf8_valid pre" "hex_pairs pre (map (\<lambda>i. 2 * i) [0..<?m]) = Returns (Some k)"
    using assms(1) by (auto simp: hex_decode_def split: if_splits)
  have m: "2 * ?m = length pre" using pre(1) by simp
  have "utf8_valid (lead # rest)"
    using utf8_valid_append [OF pre(2) assms(5)] assms(2) by (simp add: not_le [symmetric])
  then obtain b r where b: "rest = b # r" "continuation b" using utf8_lead assms(3) by blast
  have here: "char_boundary ?s (length pre)" using assms(2) by (simp add: char_boundary_def continuation_def not_le)
  have "\<not> char_boundary ?s (length pre + 2)" using b by (simp add: char_boundary_def nth_append)
  then have stop: "hex_pairs ?s (2 * ?m # js) = Panics" for js using m by simp
  have "length ?s div 2 = Suc ((length pre + length rest) div 2)" "?m \<le> (length pre + length rest) div 2"
    by (simp_all add: div_le_mono)
  then have "[0..<length ?s div 2] = [0..<?m] @ ?m # [Suc ?m..<length ?s div 2]" by (intro upt_split) simp
  then have "hex_pairs ?s (map (\<lambda>i. 2 * i) [0..<length ?s div 2]) = Panics"
    using hex_pairs_append [OF pre(3) _ here stop] m by simp
  then have "hex_decode ?s = Panics" using assms(4,5) pre(1) by (simp add: hex_decode_def)
  moreover have "?s \<noteq> [48]" by (cases pre) auto
  ultimately show ?thesis by (simp add: scan_cmd_def hex_roundtrip)
qed

theorem scan_cursor_panics_witness:
  "scan_cmd 0 [54, 49, 122, 195, 169, 98] 10 None (empty_shard 1) = Panics"
proof -
  have "hex_decode [54, 49] = Returns (Some [97])" "utf8_valid ([54, 49] @ 122 # 195 # [169, 98])" by code_simp+
  from scan_cursor_panics [OF this(1) _ _ _ this(2)] show ?thesis by simp
qed

section \<open>SCAN\<close>

lemma scan_range_all: "scan_range [] [] ctx = RBT.entries (sh_data ctx)"
  using scan_range_eq [of "[]" "[]" ctx] by simp

lemma scan_hit_key: "scan_hit now pattern seen k v = Some uk \<Longrightarrow> k \<noteq> []"
  by (auto simp: scan_hit_def ikey_parse_def split: option.splits)

lemma scan_visit_step:
  assumes "scan_visit now start limit pattern k v st = (st', go)" "sc_count st < unat (limit * 64)"
  shows "sc_count st' = Suc (sc_count st) \<and> (\<not> go \<longrightarrow> sc_next st' \<noteq> [])"
  using assms scan_hit_key [of now pattern _ k v]
  by (auto simp: scan_visit_def Let_def split: if_splits option.splits)

text \<open>A scan over more records than its budget stops at a record.\<close>

lemma scan_stops:
  assumes "unat (limit * 64) < sc_count st + length xs" "sc_count st \<le> unat (limit * 64)" "\<forall>(k, v)\<in>set (drop (unat (limit * 64) - sc_count st) xs). k \<noteq> []"
  shows "sc_next (scan_loop (scan_visit now start limit pattern) xs st) \<noteq> []"
  using assms
proof (induction xs arbitrary: st)
  case (Cons x xs)
  obtain k v where x: "x = (k, v)" by (cases x)
  show ?case
  proof (cases "sc_count st = unat (limit * 64)")
    case True
    then show ?thesis using Cons.prems(3) by (simp add: x scan_visit_def Let_def)
  next
    case False
    then have "\<forall>(k, v)\<in>set (drop (unat (limit * 64) - Suc (sc_count st)) xs). k \<noteq> []"
      using Cons.prems by (metis Suc_diff_Suc drop_Suc_Cons le_neq_implies_less)
    then have IH: "sc_next (scan_loop (scan_visit now start limit pattern) xs st') \<noteq> []"
      if "sc_count st' = Suc (sc_count st)" for st'
      using Cons.IH [of st'] Cons.prems(1,2) False that by simp
    obtain st' go where v: "scan_visit now start limit pattern k v st = (st', go)" by fastforce
    then show ?thesis
      using Cons.prems(2) False scan_visit_step [OF v] IH [of st'] by (simp add: x)
  qed
qed simp

lemma entries_key_nonempty:
  assumes "0 < n" "(k, v) \<in> set (drop n (RBT.entries (t :: (bytes, bytes) rbt)))"
  shows "k \<noteq> []"
proof -
  obtain j where j: "j < length (drop n (RBT.entries t))" "drop n (RBT.entries t) ! j = (k, v)"
    using assms(2) unfolding in_set_conv_nth by blast
  then have i: "n + j < length (RBT.entries t)" "RBT.entries t ! (n + j) = (k, v)" by simp_all
  have "fst (RBT.entries t ! 0) < fst (RBT.entries t ! (n + j))"
    using entries_strictly_sorted [of t] i(1) assms(1) by (simp add: sorted_wrt_iff_nth_less)
  then show ?thesis using i(2) by auto
qed

lemma scan_userkeys_next:
  assumes "0 < unat (limit * 64)" "unat (limit * 64) < length (RBT.entries (sh_data ctx))"
  shows "snd (scan_userkeys now start limit pattern ctx) \<noteq> []"
proof -
  have "\<forall>(k, v)\<in>set (drop (unat (limit * 64)) (RBT.entries (sh_data ctx))). k \<noteq> []"
    using entries_key_nonempty [OF assms(1)] by blast
  then show ?thesis
    using scan_stops [of limit "\<lparr>sc_out = [], sc_next = [], sc_count = 0\<rparr>" "RBT.entries (sh_data ctx)"] assms(2)
    by (simp add: scan_userkeys_def scan_prefix_def scan_range_all Let_def)
qed

text \<open>When the cursor is the first record past the budget, nothing is visited after it.\<close>

lemma scan_skips:
  assumes "sc_count st + length xs = unat (limit * 64)" "\<forall>(k, v)\<in>set xs. k \<le> c" "c \<noteq> []"
  shows "scan_loop (scan_visit now c limit pattern) (xs @ (c, v) # ys) st =
    st\<lparr>sc_count := Suc (unat (limit * 64)), sc_next := c\<rparr>"
  using assms
proof (induction xs arbitrary: st)
  case Nil
  then show ?case by (simp add: scan_visit_def Let_def)
next
  case (Cons x xs)
  obtain k w where x: "x = (k, w)" by (cases x)
  have "scan_visit now c limit pattern k w st = (st\<lparr>sc_count := Suc (sc_count st)\<rparr>, True)"
    using Cons.prems by (simp add: x scan_visit_def Let_def)
  then show ?case using Cons.IH [of "st\<lparr>sc_count := Suc (sc_count st)\<rparr>"] Cons.prems by (simp add: x)
qed

lemma scan_userkeys_stuck:
  assumes "0 < unat (limit * 64)" "unat (limit * 64) < length (RBT.entries (sh_data ctx))"
    "fst (RBT.entries (sh_data ctx) ! unat (limit * 64)) = c"
  shows "scan_userkeys now c limit pattern ctx = ([], c)"
proof -
  let ?es = "RBT.entries (sh_data ctx)" and ?n = "unat (limit * 64)"
  obtain v where v: "?es ! ?n = (c, v)" using assms(3) by (metis prod.collapse)
  have split: "?es = take ?n ?es @ (c, v) # drop (Suc ?n) ?es" using assms(2) v by (metis id_take_nth_drop)
  have "k \<le> c" if kw: "(k, w) \<in> set (take ?n ?es)" for k w
  proof -
    obtain i where "i < ?n" "?es ! i = (k, w)" using kw unfolding in_set_conv_nth by auto
    then show ?thesis
      using entries_strictly_sorted [of "sh_data ctx"] assms(2) v by (fastforce simp: sorted_wrt_iff_nth_less)
  qed
  moreover have "(c, v) \<in> set (drop ?n ?es)" using assms(2) v by (simp add: Cons_nth_drop_Suc [symmetric])
  then have "c \<noteq> []" by (rule entries_key_nonempty [OF assms(1)])
  ultimately have "scan_loop (scan_visit now c limit pattern) ?es \<lparr>sc_out = [], sc_next = [], sc_count = 0\<rparr> =
      \<lparr>sc_out = [], sc_next = c, sc_count = Suc ?n\<rparr>"
    using scan_skips [of "\<lparr>sc_out = [], sc_next = [], sc_count = 0\<rparr>" "take ?n ?es" limit c now pattern v "drop (Suc ?n) ?es"]
      assms(2) split by auto
  then show ?thesis by (simp add: scan_userkeys_def scan_prefix_def scan_range_all Let_def)
qed

lemma hex_encode_not_zero: "hex_encode b \<noteq> [48]"
proof
  assume "hex_encode b = [48]"
  then have "2 * length b = 1" using length_hex_encode [of b] by simp
  then show False by presburger
qed

text \<open>C37: SCAN does not end. Every call walks the records from the first one and counts those before the cursor
  against its budget of 64 records per requested key. In a store with more records than that no call
  returns the cursor 0, and the call at the first record past the budget returns no key and its own
  cursor, for ever.\<close>

theorem scan_never_ends:
  assumes "0 < unat (max count 1 * 64)" "unat (max count 1 * 64) < length (RBT.entries (sh_data ctx))"
  shows "(\<nexists>ks. scan_cmd now cursor count pattern ctx = Returns (R_Array [R_Bulk [48], ks])) \<and>
    (let c = hex_encode (fst (RBT.entries (sh_data ctx) ! unat (max count 1 * 64)))
     in scan_cmd now c count pattern ctx = Returns (R_Array [R_Bulk c, R_Array []]))"
proof
  show "\<nexists>ks. scan_cmd now cursor count pattern ctx = Returns (R_Array [R_Bulk [48], ks])"
    using scan_userkeys_next [OF assms] hex_encode_not_zero
    by (simp add: scan_cmd_def Let_def case_prod_unfold split: rust.split option.split)
  let ?c = "fst (RBT.entries (sh_data ctx) ! unat (max count 1 * 64))"
  have "snd (scan_userkeys now ?c (max count 1) pattern ctx) \<noteq> []" by (rule scan_userkeys_next [OF assms])
  then have "?c \<noteq> []" using scan_userkeys_stuck [OF assms refl] by simp
  then show "let c = hex_encode ?c in scan_cmd now c count pattern ctx = Returns (R_Array [R_Bulk c, R_Array []])"
    using scan_userkeys_stuck [OF assms refl] hex_encode_not_zero [of ?c]
    by (simp add: scan_cmd_def Let_def hex_roundtrip)
qed

lemma length_bulkload: "length (RBT.entries (RBT.bulkload xs)) = card (fst ` set xs)"
  for xs :: "(bytes \<times> bytes) list"
proof -
  let ?es = "RBT.entries (RBT.bulkload xs)"
  have "map_of ?es = map_of xs" using RBT.map_of_entries [of "RBT.bulkload xs"] by simp
  then have "fst ` set ?es = fst ` set xs" by (metis dom_map_of_conv_image_fst)
  then show ?thesis using distinct_card [OF RBT.distinct_entries, of "RBT.bulkload xs"] by simp
qed

definition many_keys :: shard where
  "many_keys = (empty_shard 1)\<lparr>sh_data := RBT.bulkload (map (\<lambda>n. (string_key [word_of_nat n], [])) [0..<70])\<rparr>"

lemma many_keys_length: "length (RBT.entries (sh_data many_keys)) = 70"
proof -
  have byte: "unat (word_of_nat n :: u8) = n" if "n < 70" for n using that by (simp add: unat_of_nat)
  have "inj_on (\<lambda>n :: nat. string_key [word_of_nat n]) {0..<70}"
  proof (rule inj_onI)
    fix x y assume xy: "x \<in> {0..<70}" "y \<in> {0..<70}" "string_key [word_of_nat x] = string_key [word_of_nat y]"
    have last: "last (string_key [b]) = b" for b by (simp only: string_key_def simple_def last_append) simp
    have "(word_of_nat x :: u8) = word_of_nat y"
      using arg_cong [OF xy(3), of last] by (simp only: last)
    then have "unat (word_of_nat x :: u8) = unat (word_of_nat y :: u8)" by (rule arg_cong)
    moreover have "x < 70" "y < 70" using xy(1,2) by simp_all
    ultimately show "x = y" by (simp only: byte)
  qed
  then have "card ((\<lambda>n :: nat. string_key [word_of_nat n]) ` {0..<70}) = 70" using card_image by fastforce
  moreover have "fst ` set (map (\<lambda>n. (string_key [word_of_nat n], [] :: bytes)) [0..<70]) = (\<lambda>n. string_key [word_of_nat n]) ` {0..<70}"
    by (simp only: set_map image_image set_upt fst_conv)
  moreover have "sh_data many_keys = RBT.bulkload (map (\<lambda>n. (string_key [word_of_nat n], [])) [0..<70])"
    by (simp only: many_keys_def empty_shard_def shard.update_convs shard.select_convs)
  ultimately show ?thesis by (simp only: length_bulkload)
qed

theorem scan_never_ends_witness:
  "(\<nexists>ks. scan_cmd 5 [48] 1 None many_keys = Returns (R_Array [R_Bulk [48], ks])) \<and>
    (let c = hex_encode (fst (RBT.entries (sh_data many_keys) ! unat (max 1 1 * 64 :: u64)))
     in scan_cmd 5 c 1 None many_keys = Returns (R_Array [R_Bulk c, R_Array []]))"
  by (rule scan_never_ends) (simp_all add: many_keys_length)

section \<open>Deadlines\<close>

text \<open>C38: a deadline far in the future deletes the key. The product of the seconds and 1000 wraps, so that EXPIRE
  with the greatest number of seconds computes a deadline one second before now and takes the branch that
  deletes at once.\<close>

theorem expire_wraps:
  assumes "\<not> is_immutable_key key" "key_type now ctx key \<noteq> Some CTYPE_BUDGET" "1000 \<le> now"
  shows "expire_cmd internal now key (2 ^ 63 - 1) 1000 False ctx =
    (fst (del_key now key ctx), R_Int (if snd (del_key now key ctx) then 1 else 0))"
proof -
  have "expire_deadline now (2 ^ 63 - 1) 1000 False = now - 1000"
  proof -
    have "\<not> (2 ^ 63 - 1 :: i64) \<le>s 0" by code_simp
    then show ?thesis by (simp add: expire_deadline_def)
  qed
  moreover have "now - 1000 \<le> now" using assms(3) word_sub_le by blast
  ultimately show ?thesis
    using assms(1,2) by (simp add: expire_cmd_def guard_def case_prod_unfold)
qed

definition one_string :: "bytes \<Rightarrow> bytes \<Rightarrow> shard" where
  "one_string key v = put_raw (string_key key) (encode_with (envelope_new RT_String 1 1) v) (empty_shard 1)"

lemma one_string_type: "key_type now (one_string key v) key = Some 115"
  by (simp add: one_string_def key_type_def lww_visible_def shard_simps visible_def is_tombstone_def is_expired_def
      envelope_new_def TOMBSTONE_def rtype_def from_bits_def is_head_def COLLECTION_HEAD_def)

theorem expire_wraps_witness:
  "\<exists>ctx'. expire_cmd False 5000 [107] (2 ^ 63 - 1) 1000 False (one_string [107] [118]) = (ctx', R_Int 1) \<and>
     ctx' = fst (del_key 5000 [107] (one_string [107] [118]))"
proof -
  have "snd (del_key 5000 [107] (one_string [107] [118]))"
    by (simp add: del_key_def del_key_hlc_def one_string_type case_prod_unfold Let_def)
  moreover have "\<not> is_immutable_key [107]" "(115 :: u8) \<noteq> CTYPE_BUDGET"
    by (simp_all add: is_immutable_key_def strip_prefix_def CTYPE_BUDGET_def)
  ultimately show ?thesis
    using expire_wraps [of "[107]" 5000 "one_string [107] [118]" False] by (simp add: one_string_type)
qed

section \<open>Moved sorted sets\<close>

lemma head_env_facts:
  "is_head (with_ttl (envelope_head h n) ttl)" "\<not> is_tombstone (with_ttl (envelope_head h n) ttl)"
  "ttl_deadline_ms (with_ttl (envelope_head h n) ttl) = ttl" "rtype (with_ttl (envelope_head h n) ttl) = RT_String"
  "env_version (with_ttl (envelope_head h n) ttl) = (h, n)" "is_expired (with_ttl (envelope_head h n) ttl) now = (ttl \<noteq> 0 \<and> ttl \<le> now)"
  by (simp_all add: is_head_def envelope_head_def with_ttl_def COLLECTION_HEAD_def is_tombstone_def TOMBSTONE_def rtype_def
      from_bits_def env_version_def is_expired_def)

lemma taken_head:
  assumes "short_key uk" "\<And>l e p. held = Some l \<Longrightarrow> envelope_decode l = Some (e, p) \<Longrightarrow> hlc e < h"
  shows "taken (head_key uk) held (encode_with (with_ttl (envelope_head h n) ttl) pay) =
    encode_with (with_ttl (envelope_head h n) ttl) pay"
proof (cases held)
  case (Some l)
  have "merge_outcome_for (head_key uk) l i = merge_values l i" for i
    using parse_element(1) [of Tag_Head uk "[]"] assms(1) by (simp add: merge_outcome_for_def head_key_def)
  moreover have "env_version e < (h, n)" if "envelope_decode l = Some (e, p)" for e p
    using assms(2) [OF Some that] by (simp add: env_version_def)
  ultimately show ?thesis
    using Some by (auto simp: taken_def merge_values_def merge_lww_def head_env_facts resolve_def split: option.split)
qed (simp add: taken_def)

lemma get_head_decode:
  assumes "get_head ctx uk = Some (env, ct, del)"
  obtains pay where "Option.bind (get_raw ctx (head_key uk)) envelope_decode = Some (env, pay)" "head_decode pay = Some (ct, del)"
  using assms by (auto simp: get_head_def split: option.splits)

lemma check_type_head:
  assumes "get_raw ctx (string_key uk) = None" "get_raw ctx (list_key uk) = None"
    "get_head ctx uk = Some (env, CTYPE_ZSET, del)" "\<not> is_tombstone env" "\<not> is_expired env now"
  shows "check_type now ctx uk CTYPE_ZSET = Some del"
  using assms by (simp add: check_type_def record_live_def head_del_def CTYPE_ZSET_def)

text \<open>The destination of a moved sorted set: its head, its members, and everything else as before.\<close>

lemma moved_zset:
  assumes "moved now Tag_ZsetMember dst (moved_items now Tag_ZsetMember ds src ctx) ttl hpay ctx ctx2"
    and keys: "short_key src" "short_key dst" "src \<noteq> dst"
    and hd: "head_decode hpay = Some (CTYPE_ZSET, ds)" and ttl: "\<not> (ttl \<noteq> 0 \<and> ttl \<le> now)"
    and old: "\<And>l e p. get_raw ctx (head_key dst) = Some l \<Longrightarrow> envelope_decode l = Some (e, p) \<Longrightarrow> hlc e < hlc_pack now 0"
    and plain: "get_raw ctx (string_key dst) = None" "get_raw ctx (list_key dst) = None"
  shows "check_type now (fst (del_key now src ctx2)) dst CTYPE_ZSET = Some ds"
    "t \<notin> {Tag_String, Tag_List, Tag_Head} \<Longrightarrow>
      get_raw (fst (del_key now src ctx2)) (prefixed t dst suf) = get_raw ctx2 (prefixed t dst suf)"
proof -
  let ?c = "fst (del_key now src ctx2)"
  obtain h n where h: "hlc_pack now 0 \<le> h" "get_raw ctx2 (head_key dst) =
      Some (taken (head_key dst) (get_raw ctx (head_key dst)) (encode_with (with_ttl (envelope_head h n) ttl) hpay))"
    and same: "\<And>k. k \<notin> insert (head_key dst) (prefixed Tag_ZsetMember dst ` fst ` set (moved_items now Tag_ZsetMember ds src ctx)) \<Longrightarrow>
      get_raw ctx2 k = get_raw ctx k"
    using assms(1) unfolding moved_def by blast
  have nk: "head_key dst \<noteq> head_key src" using head_key_inject keys by blast
  have "taken (head_key dst) (get_raw ctx (head_key dst)) (encode_with (with_ttl (envelope_head h n) ttl) hpay) =
      encode_with (with_ttl (envelope_head h n) ttl) hpay"
    by (rule taken_head [OF keys(2)]) (use old h(1) in \<open>auto intro: order_less_le_trans\<close>)
  then have gh: "get_head ?c dst = Some (with_ttl (envelope_head h n) ttl, CTYPE_ZSET, ds)"
    using nk other_keys(7) h(2) by (simp add: get_head_def get_del_key hd)
  have sk: "string_key dst \<noteq> string_key src" "string_key dst \<noteq> head_key src" "list_key dst \<noteq> string_key src" "list_key dst \<noteq> head_key src"
    using keys(3) other_keys(7,8) [of src dst]
    by (auto simp: string_key_def list_key_def simple_def ikey_base_def)
  have "string_key dst \<notin> insert (head_key dst) (prefixed Tag_ZsetMember dst ` S)"
    "list_key dst \<notin> insert (head_key dst) (prefixed Tag_ZsetMember dst ` S)" for S
    using element_keys_of_tag [of Tag_ZsetMember dst _ dst] other_keys(7,8) [of dst dst] by (force, force)
  then have plain': "get_raw ?c (string_key dst) = None" "get_raw ?c (list_key dst) = None"
    using sk same plain by (simp_all add: get_del_key)
  show "check_type now ?c dst CTYPE_ZSET = Some ds"
    by (rule check_type_head [OF plain' gh]) (use ttl in \<open>simp_all add: head_env_facts\<close>)
  show "get_raw ?c (prefixed t dst suf) = get_raw ctx2 (prefixed t dst suf)" if "t \<notin> {Tag_String, Tag_List, Tag_Head}"
    using element_keys_of_tag [OF that, of dst suf src] by (simp add: get_del_key)
qed




lemma unmoved_member:
  assumes "moved now Tag_ZsetMember dst items ttl hpay ctx ctx2" "short_key dst" "m \<notin> fst ` set items"
  shows "get_raw ctx2 (zset_member_key dst m) = get_raw ctx (zset_member_key dst m)"
proof -
  have "prefixed Tag_ZsetMember dst m \<notin> prefixed Tag_ZsetMember dst ` S" if "m \<notin> S" for S
    using that prefixed_inject [OF assms(2,2) [unfolded short_key_def]] by (metis imageE)
  then have "zset_member_key dst m \<notin> insert (head_key dst) (prefixed Tag_ZsetMember dst ` fst ` set items)"
    using assms(3) other_keys(1) [of dst m dst] by (simp add: zset_member_key_def)
  then show ?thesis using assms(1) unfolding moved_def by metis
qed






text \<open>A sorted set with one member, as ZADD leaves it.\<close>

definition zset_one :: "bytes \<Rightarrow> bytes \<Rightarrow> f64 \<Rightarrow> shard \<Rightarrow> shard" where
  "zset_one key m s ctx =
     put_raw (head_key key) (encode_with (envelope_head 1 1) (head_encode CTYPE_ZSET 0)) (one_member_shard key m s (2, 1) ctx)"

lemma scan_loop_found:
  assumes "(k, v) \<in> set xs" "envelope_decode v = Some (env, pay)" "visible env pay del now \<noteq> None"
  shows "scan_loop (\<lambda>_ v found. case envelope_decode v of
      Some (env, pay) \<Rightarrow> if visible env pay del now \<noteq> None then (True, False) else (found, True)
    | None \<Rightarrow> (found, True)) xs False"
  using assms by (induction xs) (auto split: option.split)

lemma zset_keys_tags: "zset_member_key uk m \<noteq> zset_score_key uk' e m'" "zset_score_key uk' e m' \<noteq> zset_member_key uk m"
  by (simp_all add: zset_member_key_def zset_score_key_def prefixed_def ikey_base_def)

lemma zset_one_get:
  "get_raw (zset_one key m s ctx) (head_key key) = Some (encode_with (envelope_head 1 1) (head_encode CTYPE_ZSET 0))"
  "get_raw (zset_one key m s ctx) (zset_member_key key m) = Some (member_record (2, 1) 0 (one_live (Dot 2 1) (be64 s)))"
  "get_raw (zset_one key m s ctx) (string_key k) = get_raw ctx (string_key k)"
  "get_raw (zset_one key m s ctx) (list_key k) = get_raw ctx (list_key k)"
  by (auto simp: zset_one_def one_member_shard_def shard_simps other_keys other_keys [symmetric] zset_keys_tags)

lemma zset_one_facts:
  assumes "get_raw ctx (string_key key) = None" "get_raw ctx (list_key key) = None" "short_key key"
  shows "get_head (zset_one key m s ctx) key = Some (envelope_head 1 1, CTYPE_ZSET, 0)"
    "key_type now (zset_one key m s ctx) key = Some CTYPE_ZSET"
    "check_type now (zset_one key m s ctx) key CTYPE_ZSET = Some 0"
proof -
  let ?c = "zset_one key m s ctx"
  have env: "\<not> is_tombstone (envelope_head 1 1)" "\<not> is_expired (envelope_head 1 1) now"
    by (simp_all add: is_tombstone_def envelope_head_def COLLECTION_HEAD_def TOMBSTONE_def is_expired_def)
  show gh: "get_head ?c key = Some (envelope_head 1 1, CTYPE_ZSET, 0)"
    by (simp add: get_head_def zset_one_get(1) head_encode_def head_decode_def slice_def)
  have "visible (element_env RT_ZsetMember (2, 1) 0 False) (state_encode (one_live (Dot 2 1) (be64 s))) 0 now \<noteq> None"
    by (simp add: visible_element)
  moreover have "(zset_member_key key m, member_record (2, 1) 0 (one_live (Dot 2 1) (be64 s))) \<in>
      set (scan_range (collection_prefix Tag_ZsetMember key) (collection_prefix Tag_ZsetMember key) ?c)"
    using zset_one_get(2) by (auto simp: in_collection zset_member_key_def)
  ultimately have "collection_nonempty now ?c CTYPE_ZSET key 0"
    using scan_loop_found member_record_decode(1) [OF stored_be64]
    by (auto simp: collection_nonempty_def collection_tag_def scan_prefix_def CTYPE_HASH_def CTYPE_SET_def CTYPE_ZSET_def)
  then show "key_type now ?c key = Some CTYPE_ZSET"
    using gh env by (simp add: key_type_def lww_visible_def zset_one_get assms)
  show "check_type now ?c key CTYPE_ZSET = Some 0"
    by (rule check_type_head [OF _ _ gh env]) (simp_all add: zset_one_get assms)
qed


section \<open>Deleted members that come back\<close>

lemma tombstone_absent:
  assumes "get_head ctx uk = Some (env, c, d)" "is_tombstone env"
    "get_raw ctx (string_key uk) = None" "get_raw ctx (list_key uk) = None"
  shows "key_type now ctx uk = None"
  using assms by (simp add: key_type_def lww_visible_def)

text \<open>C40: RENAME brings deleted members back. DEL of a collection writes a delete clock into its head and leaves the
  elements in place. RENAME onto the deleted key finds no key to clobber, and writes the head of the source
  with the source's delete clock: every member of the deleted set that is newer than that clock, and that
  the source does not have, is visible again.\<close>

theorem rename_resurrects:
  assumes "short_key src" "short_key dst" "src \<noteq> dst" "\<not> is_immutable_key src" "\<not> is_immutable_key dst"
    "key_type now ctx src = Some CTYPE_ZSET" "get_head ctx src = Some (henv, CTYPE_ZSET, ds)" "\<not> is_expired henv now"
    "get_head ctx dst = Some (denv, CTYPE_ZSET, dd)" "is_tombstone denv" "hlc denv < hlc_pack now 0"
    "get_raw ctx (string_key dst) = None" "get_raw ctx (list_key dst) = None"
    "get_raw ctx (zset_member_key dst m) = Some (member_record v 0 st)" "stored_state st" "state_score st = Some s"
    "fst v \<le> hlc denv" "ds < fst v" "get_raw ctx (zset_member_key src m) = None"
  shows "zscore now dst m ctx = R_Null \<and> zscore now dst m (fst (rename_cmd internal now False src dst ctx)) = R_Double s"
proof
  have "check_type now ctx dst CTYPE_ZSET = Some (head_del now denv dd)"
    using assms by (simp add: check_type_def record_live_def CTYPE_ZSET_def)
  moreover have "fst v \<le> head_del now denv dd" using assms(10,17) by (simp add: head_del_def Let_def le_max_iff_disj)
  ultimately show "zscore now dst m ctx = R_Null"
    by (simp add: zscore_def with_del_def zset_del_hlc_def member_score_record [OF assms(14,15)])
  obtain hpay where hp: "Option.bind (get_raw ctx (head_key src)) envelope_decode = Some (henv, hpay)"
    "head_decode hpay = Some (CTYPE_ZSET, ds)"
    using get_head_decode [OF assms(7)] by blast
  have mt: "moved_tag CTYPE_ZSET = Some Tag_ZsetMember" by (simp add: moved_tag_def CTYPE_HASH_def CTYPE_SET_def CTYPE_ZSET_def)
  obtain ctx2 where mv: "moved now Tag_ZsetMember dst (moved_items now Tag_ZsetMember ds src ctx) (ttl_deadline_ms henv) hpay ctx ctx2"
    and ren: "rename_cmd internal now False src dst ctx = (fst (del_key now src ctx2), R_Simple ''OK'')"
    using rename_collection [OF assms(1-6) mt assms(7) hp(1) tombstone_absent [OF assms(9,10,12,13)], of internal False] by auto
  let ?c = "fst (del_key now src ctx2)"
  have old: "hlc e < hlc_pack now 0" if "get_raw ctx (head_key dst) = Some l" "envelope_decode l = Some (e, p)" for l e p
    using that assms(9,11) by (auto simp: get_head_def split: option.splits)
  have ct: "check_type now ?c dst CTYPE_ZSET = Some ds"
    and same: "get_raw ?c (zset_member_key dst m) = get_raw ctx2 (zset_member_key dst m)"
    using moved_zset [OF mv assms(1-3) hp(2) _ old assms(12,13)] assms(8) by (auto simp: is_expired_def zset_member_key_def)
  have "m \<notin> fst ` set (moved_items now Tag_ZsetMember ds src ctx)"
    using in_moved_items [of Tag_ZsetMember src m _ now ds ctx] assms(1,19) by (auto simp: zset_member_key_def)
  then have "get_raw ctx2 (zset_member_key dst m) = get_raw ctx (zset_member_key dst m)"
    using unmoved_member [OF mv assms(2)] by blast
  then have "get_raw ?c (zset_member_key dst m) = Some (member_record v 0 st)" using same assms(14) by simp
  then show "zscore now dst m (fst (rename_cmd internal now False src dst ctx)) = R_Double s"
    using assms(16,18) by (simp add: ren zscore_def with_del_def zset_del_hlc_def ct member_score_record [OF _ assms(15)])
qed

text \<open>A sorted set with one member, as DEL leaves it.\<close>

definition deleted_zset :: "bytes \<Rightarrow> bytes \<Rightarrow> f64 \<Rightarrow> shard \<Rightarrow> shard" where
  "deleted_zset key m s ctx =
     put_raw (head_key key)
       (encode_with \<lparr>flags = or COLLECTION_HEAD TOMBSTONE, hlc = 3, origin = 1, ttl_deadline_ms = 0\<rparr> (head_encode CTYPE_ZSET 3))
       (one_member_shard key m s (2, 1) ctx)"

lemma deleted_zset_get:
  "get_raw (deleted_zset key m s ctx) (zset_member_key key m) = Some (member_record (2, 1) 0 (one_live (Dot 2 1) (be64 s)))"
  "get_raw (deleted_zset key m s ctx) (string_key k) = get_raw ctx (string_key k)"
  "get_raw (deleted_zset key m s ctx) (list_key k) = get_raw ctx (list_key k)"
  by (auto simp: deleted_zset_def one_member_shard_def shard_simps other_keys other_keys [symmetric] zset_keys_tags)

lemma zset_one_other:
  assumes "short_key a" "short_key b" "a \<noteq> b"
  shows "get_raw (zset_one a m s ctx) (head_key b) = get_raw ctx (head_key b)"
    "get_raw (zset_one a m s ctx) (zset_member_key b m') = get_raw ctx (zset_member_key b m')"
    "get_raw (deleted_zset a m s ctx) (zset_member_key b m') = get_raw ctx (zset_member_key b m')"
  using assms prefixed_inject [of b a]
  by (simp_all add: zset_one_def deleted_zset_def one_member_shard_def shard_simps short_key_def head_key_def
      zset_member_key_def zset_score_key_def)

theorem rename_resurrects_witness:
  "let ctx = zset_one [97] [109] 4607182418800017408 (deleted_zset [98] [110] 4611686018427387904 (empty_shard 1))
   in zscore 5 [98] [110] ctx = R_Null \<and>
      zscore 5 [98] [110] (fst (rename_cmd False 5 False [97] [98] ctx)) = R_Double 4611686018427387904"
proof -
  let ?d = "deleted_zset [98] [110] 4611686018427387904 (empty_shard 1)"
  let ?c = "zset_one [97] [109] 4607182418800017408 ?d"
  let ?env = "\<lparr>flags = or COLLECTION_HEAD TOMBSTONE, hlc = 3, origin = 1, ttl_deadline_ms = 0\<rparr>"
  have k: "short_key [97]" "short_key [98]" "[97 :: u8] \<noteq> [98]" by (simp_all add: short_key_def)
  have none: "get_raw ?d (string_key k) = None" "get_raw ?d (list_key k) = None" for k
    by (simp_all add: deleted_zset_get)
  note f = zset_one_facts [where m = "[109]" and s = 4607182418800017408, OF none k(1)]
  have head: "get_head ?c [98] = Some (?env, CTYPE_ZSET, 3)"
    by (simp add: get_head_def zset_one_other [OF k]) (simp add: deleted_zset_def shard_simps head_encode_def head_decode_def slice_def)
  have member: "get_raw ?c (zset_member_key [98] [110]) =
      Some (member_record (2, 1) 0 (one_live (Dot 2 1) (be64 4611686018427387904)))"
    by (simp add: zset_one_other [OF k] deleted_zset_get)
  have other: "get_raw ?c (zset_member_key [97] [110]) = None"
  proof -
    have "zset_member_key [97] [110] \<noteq> zset_member_key [97] [109]" by (simp add: zset_member_key_def prefixed_def)
    then have "get_raw ?c (zset_member_key [97] [110]) = get_raw ?d (zset_member_key [97] [110])"
      by (simp add: zset_one_def one_member_shard_def shard_simps other_keys zset_keys_tags)
    then show ?thesis by (simp add: zset_one_other(3) [OF k(2,1)])
  qed
  have "\<not> is_immutable_key [97]" "\<not> is_immutable_key [98]" by (simp_all add: is_immutable_key_def strip_prefix_def)
  moreover have "\<not> is_expired (envelope_head 1 1) 5" "(3 :: u64) < hlc_pack 5 0" "is_tombstone ?env"
    by (simp_all add: is_expired_def envelope_head_def hlc_pack_def is_tombstone_def TOMBSTONE_def COLLECTION_HEAD_def)
  ultimately show ?thesis
    using rename_resurrects [OF k _ _ f(2,1) _ head _ _ _ _ member stored_be64 state_score_one(1) _ _ other, where now = 5 and internal = False]
    by (simp add: zset_one_get none)
qed

end
