(* ===== verification/Json_Doc.thy ===== *)
theory Json_Doc
  imports Json_Core Merge Score Utf8
begin

text \<open>
  \<open>marekvs-core/src/json.rs\<close>, second part: the decomposition of a JSON value into records, one per node, and the
  materialisation of a document from the records of a key. The variants of a JSON value are those of
  \<open>serde_json::Value\<close>. Its numbers are opaque: the accessors and constructors the code calls are an argument.
  Its objects are \<open>BTreeMap\<close>s from strings, here association lists sorted by name.
\<close>

section \<open>JSON values\<close>

record 'n number_api =
  as_i64 :: "'n \<Rightarrow> i64 option"
  as_u64 :: "'n \<Rightarrow> u64 option"
  as_f64 :: "'n \<Rightarrow> f64 option"
  number_of_i64 :: "i64 \<Rightarrow> 'n"
  number_of_u64 :: "u64 \<Rightarrow> 'n"
  number_of_f64 :: "f64 \<Rightarrow> 'n option"

datatype 'n json =
    J_Null
  | J_Bool bool
  | J_Number 'n
  | J_String bytes
  | J_Array "'n json list"
  | J_Object "(bytes \<times> 'n json) list"

text \<open>Insertion into the ordered map of an object.\<close>

fun map_insert :: "bytes \<Rightarrow> 'a \<Rightarrow> (bytes \<times> 'a) list \<Rightarrow> (bytes \<times> 'a) list" where
  "map_insert k v [] = [(k, v)]"
| "map_insert k v ((k', v') # m) =
     (if k < k' then (k, v) # (k', v') # m else if k = k' then (k, v) # m else (k', v') # map_insert k v m)"

section \<open>Decomposition\<close>

datatype json_record = JR_Map bytes jval | JR_Arr bytes arr_elem

fun record_path :: "json_record \<Rightarrow> bytes" where
  "record_path (JR_Map p _) = p"
| "record_path (JR_Arr p _) = p"

definition jval_of :: "'n number_api \<Rightarrow> 'n json \<Rightarrow> jval" where
  "jval_of num v =
     (case v of
        J_Null \<Rightarrow> JV_Null
      | J_Bool b \<Rightarrow> JV_Bool b
      | J_Number n \<Rightarrow>
          (case as_i64 num n of
             Some i \<Rightarrow> JV_Int i
           | None \<Rightarrow>
               (case as_u64 num n of
                  Some i \<Rightarrow> JV_UInt i
                | None \<Rightarrow> JV_Float (case as_f64 num n of Some f \<Rightarrow> f | None \<Rightarrow> 0)))
      | J_String s \<Rightarrow> JV_Str s
      | J_Object _ \<Rightarrow> JV_Obj
      | J_Array _ \<Rightarrow> JV_Arr)"

text \<open>
  The source of element ids is a closure with its own state, called with the path of the array and the
  ordinal of the element. The loops over the fields of an object and the elements of an array are functions
  of their own.
\<close>

type_synonym 's fresh = "'s \<Rightarrow> bytes \<Rightarrow> nat \<Rightarrow> 's \<times> eid"

fun decompose_children :: "'n number_api \<Rightarrow> 's fresh \<Rightarrow> bytes \<Rightarrow> 'n json \<Rightarrow> 's \<times> json_record list \<Rightarrow> 's \<times> json_record list"
  and decompose_fields :: "'n number_api \<Rightarrow> 's fresh \<Rightarrow> bytes \<Rightarrow> (bytes \<times> 'n json) list \<Rightarrow> 's \<times> json_record list \<Rightarrow> 's \<times> json_record list"
  and decompose_elems :: "'n number_api \<Rightarrow> 's fresh \<Rightarrow> bytes \<Rightarrow> eid \<Rightarrow> nat \<Rightarrow> 'n json list \<Rightarrow> 's \<times> json_record list \<Rightarrow> 's \<times> json_record list"
where
  "decompose_children num fresh path (J_Object m) st = decompose_fields num fresh path m st"
| "decompose_children num fresh path (J_Array a) st = decompose_elems num fresh path EID_HEAD 0 a st"
| "decompose_children num fresh path J_Null st = st"
| "decompose_children num fresh path (J_Bool b) st = st"
| "decompose_children num fresh path (J_Number n) st = st"
| "decompose_children num fresh path (J_String s) st = st"
| "decompose_fields num fresh path [] st = st"
| "decompose_fields num fresh path ((k, child) # m) st =
     (let (s, out) = st; p = push_seg path (Field k)
      in decompose_fields num fresh path m (decompose_children num fresh p child (s, out @ [JR_Map p (jval_of num child)])))"
| "decompose_elems num fresh path left ordinal [] st = st"
| "decompose_elems num fresh path left ordinal (child # a) st =
     (let (s, out) = st; (s', e) = fresh s path ordinal; p = push_seg path (Elem e)
      in decompose_elems num fresh path e (ordinal + 1) a
           (decompose_children num fresh p child (s', out @ [JR_Arr p \<lparr>el_left = left, el_val = jval_of num child\<rparr>])))"

definition decompose_into :: "'n number_api \<Rightarrow> 's fresh \<Rightarrow> bytes \<Rightarrow> 'n json \<Rightarrow> 's \<times> json_record list \<Rightarrow> 's \<times> json_record list" where
  "decompose_into num fresh path v = (\<lambda>(s, out). decompose_children num fresh path v (s, out @ [JR_Map path (jval_of num v)]))"

definition decompose_with_paths :: "'n number_api \<Rightarrow> seg list \<Rightarrow> 'n json \<Rightarrow> 's fresh \<Rightarrow> 's \<Rightarrow> 's \<times> json_record list" where
  "decompose_with_paths num root v fresh s = decompose_into num fresh (encode_path root) v (s, [])"

definition decompose :: "'n number_api \<Rightarrow> seg list \<Rightarrow> 'n json \<Rightarrow> ('s \<Rightarrow> 's \<times> eid) \<Rightarrow> 's \<Rightarrow> 's \<times> json_record list" where
  "decompose num root v fresh s = decompose_into num (\<lambda>s _ _. fresh s) (encode_path root) v (s, [])"

definition decompose_children_at :: "'n number_api \<Rightarrow> bytes \<Rightarrow> 'n json \<Rightarrow> ('s \<Rightarrow> 's \<times> eid) \<Rightarrow> 's \<Rightarrow> 's \<times> json_record list" where
  "decompose_children_at num base_path v fresh s = decompose_children num (\<lambda>s _ _. fresh s) base_path v (s, [])"

section \<open>Materialisation\<close>

datatype node_in = NI_Map jval "dot list" | NI_Elem arr_elem bool

record arr_info =
  ai_order :: "eid list"
  ai_last :: "eid option"

record doc_index =
  map_dots :: "(bytes, dot list) fmap"
  arrays :: "(bytes, arr_info) fmap"

record 'n doc =
  doc_value :: "'n json"
  doc_index :: doc_index

type_synonym kids = "(bytes, (seg \<times> node_in) list) fmap"

definition add_kid :: "kids \<Rightarrow> bytes \<times> node_in \<Rightarrow> kids" where
  "add_kid kids = (\<lambda>(path, node).
     if path = [] then kids
     else case split_last path of
            None \<Rightarrow> kids
          | Some (parent, l) \<Rightarrow>
              let old = (case fmlookup kids parent of Some v \<Rightarrow> v | None \<Rightarrow> []) in fmupd parent (old @ [(l, node)]) kids)"

definition find_root :: "(bytes \<times> node_in) list \<Rightarrow> node_in option" where
  "find_root nodes = foldl (\<lambda>root (path, node). if path = [] then Some node else root) None nodes"

fun scalar_value :: "'n number_api \<Rightarrow> jval \<Rightarrow> 'n json" where
  "scalar_value num JV_Null = J_Null"
| "scalar_value num (JV_Bool b) = J_Bool b"
| "scalar_value num (JV_Int i) = J_Number (number_of_i64 num i)"
| "scalar_value num (JV_UInt i) = J_Number (number_of_u64 num i)"
| "scalar_value num (JV_Float f) = (case number_of_f64 num f of Some n \<Rightarrow> J_Number n | None \<Rightarrow> J_Null)"
| "scalar_value num (JV_Str s) = J_String (from_utf8_lossy s)"
| "scalar_value num JV_Obj = J_Null"
| "scalar_value num JV_Arr = J_Null"

text \<open>The last two cases are unreachable.\<close>

definition children_of :: "kids \<Rightarrow> bytes \<Rightarrow> (seg \<times> node_in) list" where
  "children_of kids path = (case fmlookup kids path of Some c \<Rightarrow> c | None \<Rightarrow> [])"

fun as_field :: "seg \<times> node_in \<Rightarrow> (bytes \<times> jval \<times> dot list) option" where
  "as_field (Field name, NI_Map val ds) = Some (name, val, ds)"
| "as_field _ = None"

fun as_elem :: "seg \<times> node_in \<Rightarrow> (eid \<times> arr_elem \<times> bool) option" where
  "as_elem (Elem e, NI_Elem el alive) = Some (e, el, alive)"
| "as_elem _ = None"

definition object_fields :: "kids \<Rightarrow> bytes \<Rightarrow> (bytes \<times> jval \<times> dot list) list" where
  "object_fields kids path = sort_key fst (List.map_filter as_field (children_of kids path))"

definition array_elems :: "kids \<Rightarrow> bytes \<Rightarrow> (eid \<times> arr_elem \<times> bool) list" where
  "array_elems kids path = List.map_filter as_elem (children_of kids path)"

definition element_order :: "(eid \<times> arr_elem \<times> bool) list \<Rightarrow> (eid \<times> bool) list" where
  "element_order elems = rga_order (map (\<lambda>(e, el, alive). (e, el_left el, alive)) elems)"

text \<open>The map by element id keeps the last record of an id; every id of the order has one.\<close>

definition by_eid :: "(eid \<times> arr_elem \<times> bool) list \<Rightarrow> eid \<Rightarrow> arr_elem option" where
  "by_eid elems e = map_option fst (map_of (rev elems) e)"

function materialize :: "'n number_api \<Rightarrow> kids \<Rightarrow> bytes \<Rightarrow> jval \<Rightarrow> doc_index \<Rightarrow> 'n json \<times> doc_index" where
  "materialize num kids path val index =
     (case val of
        JV_Obj \<Rightarrow>
          let (m, index') =
            foldl (\<lambda>(m, ix) (name, fval, ds).
                     let p = push_seg path (Field name);
                         (v, ix') = materialize num kids p fval (ix\<lparr>map_dots := fmupd p ds (map_dots ix)\<rparr>)
                     in (map_insert (from_utf8_lossy name) v m, ix'))
              ([], index) (object_fields kids path)
          in (J_Object m, index')
      | JV_Arr \<Rightarrow>
          let elems = array_elems kids path;
              ordered = element_order elems;
              (arr, order, index') =
                foldl (\<lambda>(arr, order, ix) (e, alive).
                         if \<not> alive then (arr, order, ix)
                         else case by_eid elems e of
                                None \<Rightarrow> (arr, order, ix)
                              | Some el \<Rightarrow>
                                  let (v, ix') = materialize num kids (push_seg path (Elem e)) (el_val el) ix
                                  in (arr @ [v], order @ [e], ix'))
                  ([], [], index) ordered;
              info = \<lparr>ai_order = order, ai_last = (if ordered = [] then None else Some (fst (last ordered)))\<rparr>
          in (J_Array arr, index'\<lparr>arrays := fmupd path info (arrays index')\<rparr>)
      | scalar \<Rightarrow> (scalar_value num scalar, index))"
  by pat_completeness auto

definition deeper :: "kids \<Rightarrow> bytes \<Rightarrow> nat" where
  "deeper kids path = fcard (ffilter (\<lambda>q. length path \<le> length q) (fmdom kids))"

lemma length_push_seg: "length path < length (push_seg path s)"
  by (cases s) (simp_all add: push_seg_def eid_encode_to_def)

lemma deeper_less: "children_of kids path \<noteq> [] \<Longrightarrow> deeper kids (push_seg path s) < deeper kids path"
proof -
  assume "children_of kids path \<noteq> []"
  then have "path |\<in>| fmdom kids" by (auto simp: children_of_def fmlookup_dom_iff split: option.splits)
  then have "path |\<in>| ffilter (\<lambda>q. length path \<le> length q) (fmdom kids)" by simp
  moreover have "path |\<notin>| ffilter (\<lambda>q. length (push_seg path s) \<le> length q) (fmdom kids)"
    using length_push_seg [of path s] by simp
  moreover have "ffilter (\<lambda>q. length (push_seg path s) \<le> length q) (fmdom kids) |\<subseteq>| ffilter (\<lambda>q. length path \<le> length q) (fmdom kids)"
    using length_push_seg [of path s] by auto
  ultimately show ?thesis unfolding deeper_def by (intro pfsubset_fcard_mono) blast
qed

lemma rga_order_Nil [simp]: "rga_order [] = []"
  by (simp add: rga_order_def rga_children_def rga_walk.simps Let_def)

termination materialize
proof (relation "measure (\<lambda>(_, kids, path, _, _). deeper kids path)", goal_cases)
  case 1
  show ?case by simp
next
  case (2 num kids path val index)
  then have "object_fields kids path \<noteq> []" by auto
  then have "children_of kids path \<noteq> []" by (auto simp: object_fields_def)
  then show ?case using 2 by (simp add: deeper_less)
next
  case (3 num kids path val index)
  then have "array_elems kids path \<noteq> []" by (auto simp: element_order_def)
  then have "children_of kids path \<noteq> []" by (auto simp: array_elems_def)
  then show ?case using 3 by (simp add: deeper_less)
qed

declare materialize.simps [simp del]

definition build_doc :: "'n number_api \<Rightarrow> (bytes \<times> node_in) list \<Rightarrow> 'n doc option" where
  "build_doc num nodes =
     (let kids = foldl add_kid fmempty nodes
      in case find_root nodes of
           Some (NI_Map val ds) \<Rightarrow>
             let (value, index) = materialize num kids [] val \<lparr>map_dots = fmupd [] ds fmempty, arrays = fmempty\<rparr>
             in Some \<lparr>doc_value = value, doc_index = index\<rparr>
         | _ \<Rightarrow> None)"

end
