(* ===== verification/Json_Doc_Laws.thy ===== *)
theory Json_Doc_Laws
  imports Json_Core_Laws Json_Doc "HOL-Library.Sublist"
begin

text \<open>
  A JSON value survives its decomposition into records: the document materialised from them, read in any
  order, is the value.
\<close>

section \<open>Well-formed values\<close>

text \<open>The accessor that reads a number and the constructor for what it returns give the number back.\<close>

definition number_ok :: "'n number_api \<Rightarrow> 'n \<Rightarrow> bool" where
  "number_ok num n \<longleftrightarrow>
     (case as_i64 num n of
        Some i \<Rightarrow> number_of_i64 num i = n
      | None \<Rightarrow>
          (case as_u64 num n of
             Some u \<Rightarrow> number_of_u64 num u = n
           | None \<Rightarrow> (\<exists>f. as_f64 num n = Some f \<and> number_of_f64 num f = Some n)))"

fun wf_json :: "'n number_api \<Rightarrow> 'n json \<Rightarrow> bool" where
  "wf_json num (J_Object m) \<longleftrightarrow>
     sorted_wrt (<) (map fst m) \<and> list_all (\<lambda>(k, c). utf8_valid k \<and> small_seg (Field k) \<and> wf_json num c) m"
| "wf_json num (J_Array a) \<longleftrightarrow> list_all (wf_json num) a"
| "wf_json num (J_String s) \<longleftrightarrow> utf8_valid s"
| "wf_json num (J_Number n) \<longleftrightarrow> number_ok num n"
| "wf_json num v \<longleftrightarrow> True"

fun scalar :: "'n json \<Rightarrow> bool" where
  "scalar (J_Object m) = False"
| "scalar (J_Array a) = False"
| "scalar v = True"

lemma scalar_roundtrip: "scalar v \<Longrightarrow> wf_json num v \<Longrightarrow> scalar_value num (jval_of num v) = v"
  apply (cases v)
  subgoal by (simp add: jval_of_def)
  subgoal by (simp add: jval_of_def)
  subgoal for n by (auto simp: jval_of_def number_ok_def split: option.splits)
  subgoal by (simp add: jval_of_def from_utf8_lossy_valid)
  by simp_all

lemma materialize_scalar: "scalar v \<Longrightarrow> materialize num kids path (jval_of num v) ix = (scalar_value num (jval_of num v), ix)"
proof -
  assume "scalar v"
  then have "jval_of num v \<noteq> JV_Obj" "jval_of num v \<noteq> JV_Arr" by (cases v; simp add: jval_of_def split: option.split)+
  then show ?thesis by (subst materialize.simps) (cases "jval_of num v"; simp)
qed

section \<open>Chains\<close>

text \<open>The elements of a decomposed array, each anchored to the one before it.\<close>

fun chain :: "eid \<Rightarrow> eid list \<Rightarrow> (eid \<times> eid \<times> bool) list" where
  "chain left [] = []"
| "chain left (e # es) = (e, left, True) # chain e es"

fun linked :: "(eid, (eid \<times> bool) list) fmap \<Rightarrow> eid list \<Rightarrow> bool" where
  "linked ch [] = True"
| "linked ch [e] = (fmlookup ch e = None)"
| "linked ch (e # f # es) = (fmlookup ch e = Some [(f, True)] \<and> linked ch (f # es))"

lemma linked_drop: "e \<notin> set es \<Longrightarrow> linked ch es \<Longrightarrow> linked (fmdrop e ch) es"
  by (induction ch es rule: linked.induct) auto

lemma walk_Nil: "rga_walk ch [] = []"
  by (simp add: rga_walk.simps)

lemma walk_linked: "linked ch (e # es) \<Longrightarrow> distinct (e # es) \<Longrightarrow> rga_walk ch [(e, True)] = map (\<lambda>e. (e, True)) (e # es)"
proof (induction es arbitrary: ch e)
  case Nil
  then show ?case by (simp add: rga_walk.simps)
next
  case (Cons f es)
  then have "linked (fmdrop e ch) (f # es)" using linked_drop [of e "f # es" ch] by simp
  then show ?case using Cons by (subst rga_walk.simps) simp
qed

lemma chain_eids [simp]: "map fst (chain l es) = es"
  by (induction es arbitrary: l) simp_all

lemma kids_of_chain_other: "a \<notin> set (l # es) \<Longrightarrow> set es \<subseteq> P \<Longrightarrow> l = EID_HEAD \<or> l \<in> P \<Longrightarrow> kids_of P (chain l es) a = []"
  by (induction es arbitrary: l) (auto simp: kids_of_def rga_anchor_def)

lemma kids_of_chain:
  assumes "distinct (l # es)" "set es \<subseteq> P" "l = EID_HEAD \<or> l \<in> P"
  shows "kids_of P (chain l es) l = (case es of [] \<Rightarrow> [] | e # _ \<Rightarrow> [(e, True)])"
proof (cases es)
  case (Cons e es')
  then have "kids_of P (chain e es') l = []" using assms by (intro kids_of_chain_other) auto
  then show ?thesis using assms Cons by (auto simp: kids_of_def rga_anchor_def)
qed (simp add: kids_of_def)

lemma kids_of_chain_Cons: "a \<noteq> l \<Longrightarrow> l = EID_HEAD \<or> l \<in> P \<Longrightarrow> kids_of P (chain l (e # es)) a = kids_of P (chain e es) a"
  by (auto simp: kids_of_def rga_anchor_def)

lemma linked_chain:
  assumes "distinct (l # es)" "set es \<subseteq> P" "l = EID_HEAD \<or> l \<in> P"
    "\<And>a. a \<in> set es \<Longrightarrow> fmlookup ch a = (if kids_of P (chain l es) a = [] then None else Some (sort_key fst (kids_of P (chain l es) a)))"
  shows "linked ch es"
  using assms
proof (induction es arbitrary: l)
  case (Cons e es)
  have k: "kids_of P (chain l (e # es)) a = kids_of P (chain e es) a" if "a \<in> set (e # es)" for a
    using Cons.prems that by (intro kids_of_chain_Cons) auto
  have e: "fmlookup ch e = (case es of [] \<Rightarrow> None | f # _ \<Rightarrow> Some [(f, True)])"
    using Cons.prems(4) [of e] k [of e] kids_of_chain [of e es P] Cons.prems(1,2) by (cases es) simp_all
  have IH: "linked ch es"
  proof (rule Cons.IH [of e])
    fix a assume a: "a \<in> set es"
    then show "fmlookup ch a = (if kids_of P (chain e es) a = [] then None else Some (sort_key fst (kids_of P (chain e es) a)))"
      using Cons.prems(4) [of a] k [of a] by simp
  qed (use Cons.prems in auto)
  then show ?case using e by (cases es) simp_all
qed simp

lemma rga_order_chain:
  assumes "mset xs = mset (chain EID_HEAD es)" "distinct es" "EID_HEAD \<notin> set es"
  shows "rga_order xs = map (\<lambda>e. (e, True)) es"
proof -
  have eids: "set (map fst (chain EID_HEAD es)) = set es" by (simp only: chain_eids)
  have d: "distinct (map fst xs)"
    using assms(2) mset_eq_imp_distinct_iff [of "map fst xs" "map fst (chain EID_HEAD es)"] assms(1)
    by (metis mset_map chain_eids)
  have ch: "rga_children xs = rga_children (chain EID_HEAD es)" by (rule rga_children_determined [OF assms(1) d])
  have look: "fmlookup (rga_children xs) a =
      (if kids_of (set es) (chain EID_HEAD es) a = [] then None else Some (sort_key fst (kids_of (set es) (chain EID_HEAD es) a)))" for a
    using lookup_rga_children [of "chain EID_HEAD es" a] by (simp only: ch eids)
  have dh: "distinct (EID_HEAD # es)" using assms by simp
  have "linked (fmdrop EID_HEAD (rga_children xs)) es"
    by (rule linked_drop [OF assms(3)], rule linked_chain [OF dh order_refl]) (simp_all add: look)
  moreover have "head_kids xs = (case es of [] \<Rightarrow> [] | e # _ \<Rightarrow> [(e, True)])"
    unfolding head_kids_def look kids_of_chain [OF dh order_refl disjI1 [OF refl]] by (cases es) simp_all
  ultimately show ?thesis
    using walk_linked assms(2) unfolding rga_order_walk by (cases es) (simp_all add: walk_Nil)
qed

section \<open>The records of a tree\<close>

text \<open>A node with its path as segments, and the children of a path.\<close>

type_synonym node = "seg list \<times> node_in"

definition kid :: "seg list \<Rightarrow> node \<Rightarrow> (seg \<times> node_in) option" where
  "kid ss = (\<lambda>(p, n). if p \<noteq> [] \<and> butlast p = ss then Some (last p, n) else None)"

definition kids_mset :: "node list \<Rightarrow> seg list \<Rightarrow> (seg \<times> node_in) multiset" where
  "kids_mset N ss = mset (List.map_filter (kid ss) N)"

lemma kids_mset_append [simp]: "kids_mset (A @ B) ss = kids_mset A ss + kids_mset B ss"
  by (simp add: kids_mset_def List.map_filter_def)

lemma kids_mset_Nil [simp]: "kids_mset [] ss = {#}"
  by (simp add: kids_mset_def List.map_filter_def)

lemma kids_mset_Cons: "kids_mset (x # B) ss = (case kid ss x of Some k \<Rightarrow> {#k#} | None \<Rightarrow> {#}) + kids_mset B ss"
  by (simp add: kids_mset_def List.map_filter_def split: option.split)

lemma kids_mset_perm: "mset A = mset B \<Longrightarrow> kids_mset A ss = kids_mset B ss"
  by (simp add: kids_mset_def List.map_filter_def mset_filter)

lemma kid_own [simp]: "kid ss (ss @ [s], n) = Some (s, n)"
  by (simp add: kid_def)

lemma kids_mset_none: "(\<And>p n. (p, n) \<in> set R \<Longrightarrow> p = [] \<or> butlast p \<noteq> ss) \<Longrightarrow> kids_mset R ss = {#}"
proof (induction R)
  case (Cons x R)
  then have "kids_mset R ss = {#}" "kid ss x = None" by (cases x, force simp: kid_def)+
  then show ?case by (simp add: kids_mset_Cons)
qed simp

text \<open>The records under one child do not show under another, nor as children of the parent.\<close>

lemma kids_mset_other:
  assumes "\<And>p. p \<in> fst ` set R \<Longrightarrow> prefix (ss @ [x]) p" "prefix (ss @ [y]) q" "x \<noteq> y"
  shows "kids_mset R q = {#}"
proof (rule kids_mset_none)
  fix p n assume "(p, n) \<in> set R"
  then have "prefix (ss @ [x]) p" using assms(1) by force
  then obtain r where p: "p = ss @ [x] @ r" by (auto simp: prefix_def)
  show "p = [] \<or> butlast p \<noteq> q"
  proof (cases r rule: rev_cases)
    case Nil
    then show ?thesis using p assms(2) by (auto simp: prefix_def)
  next
    case (snoc r' z)
    then show ?thesis using p assms(2,3) by (auto simp: prefix_def butlast_append)
  qed
qed

lemma kids_mset_parent:
  assumes "\<And>p. p \<in> fst ` set R \<Longrightarrow> strict_prefix (ss @ [x]) p"
  shows "kids_mset R ss = {#}"
proof (rule kids_mset_none)
  fix p n assume "(p, n) \<in> set R"
  then have "strict_prefix (ss @ [x]) p" using assms by force
  then obtain r where p: "p = ss @ [x] @ r" "r \<noteq> []" by (auto simp: strict_prefix_def prefix_def)
  then show "p = [] \<or> butlast p \<noteq> ss" by (cases r rule: rev_cases) (auto simp: butlast_append)
qed

section \<open>Trees\<close>

text \<open>The element records of an array with these ids.\<close>

fun elem_nodes :: "'n number_api \<Rightarrow> eid \<Rightarrow> eid list \<Rightarrow> 'n json list \<Rightarrow> (seg \<times> node_in) list" where
  "elem_nodes num left (e # es) (c # a) = (Elem e, NI_Elem \<lparr>el_left = left, el_val = jval_of num c\<rparr> True) # elem_nodes num e es a"
| "elem_nodes num left _ _ = []"

definition field_node :: "'n number_api \<Rightarrow> (bytes \<Rightarrow> dot list) \<Rightarrow> seg list \<Rightarrow> bytes \<times> 'n json \<Rightarrow> seg \<times> node_in" where
  "field_node num ds ss = (\<lambda>(k, c). (Field k, NI_Map (jval_of num c) (ds (encode_path (ss @ [Field k])))))"

text \<open>A value stands at a path when the records below it are those of its decomposition.\<close>

inductive stands :: "'n number_api \<Rightarrow> (bytes \<Rightarrow> dot list) \<Rightarrow> (seg list \<Rightarrow> (seg \<times> node_in) multiset) \<Rightarrow> seg list \<Rightarrow> 'n json \<Rightarrow> bool" for num ds K where
  leaf: "scalar v \<Longrightarrow> wf_json num v \<Longrightarrow> stands num ds K ss v"
| object: "K ss = mset (map (field_node num ds ss) m) \<Longrightarrow> sorted_wrt (<) (map fst m) \<Longrightarrow>
    (\<And>k c. (k, c) \<in> set m \<Longrightarrow> utf8_valid k \<and> small_seg (Field k)) \<Longrightarrow>
    (\<And>k c. (k, c) \<in> set m \<Longrightarrow> stands num ds K (ss @ [Field k]) c) \<Longrightarrow> stands num ds K ss (J_Object m)"
| array: "K ss = mset (elem_nodes num EID_HEAD es a) \<Longrightarrow> length es = length a \<Longrightarrow> distinct es \<Longrightarrow> EID_HEAD \<notin> set es \<Longrightarrow>
    (\<And>e c. (e, c) \<in> set (zip es a) \<Longrightarrow> stands num ds K (ss @ [Elem e]) c) \<Longrightarrow> stands num ds K ss (J_Array a)"

section \<open>A standing value is materialised\<close>

lemma sort_key_unique:
  assumes "mset xs = mset ys" "sorted_wrt (<) (map f ys)"
  shows "sort_key f xs = (ys :: 'a list)"
proof -
  have "sort_key f ys = ys" using assms(2) by (simp add: strict_sorted_imp_sorted sort_key_id_if_sorted)
  moreover have "sort_key f xs = sort_key f ys"
  proof (rule map_sorted_distinct_set_unique [of f])
    have d: "distinct (map f ys)" using assms(2) strict_sorted_iff by blast
    have set: "set xs = set ys" by (rule mset_eq_setD [OF assms(1)])
    show "inj_on f (set (sort_key f xs) \<union> set (sort_key f ys))" using d set by (simp add: distinct_map)
    show "sorted (map f (sort_key f xs))" "sorted (map f (sort_key f ys))" by simp_all
    have "mset (map f (sort_key f zs)) = mset (map f ys)" if "mset zs = mset ys" for zs
      using that by (simp only: mset_map mset_sort)
    then show "distinct (map f (sort_key f xs))" "distinct (map f (sort_key f ys))"
      using d assms(1) mset_eq_imp_distinct_iff by metis+
    show "set (sort_key f xs) = set (sort_key f ys)" by (simp add: set)
  qed
  ultimately show ?thesis by simp
qed

lemma mset_map_filter: "mset xs = mset ys \<Longrightarrow> mset (List.map_filter f xs) = mset (List.map_filter f ys)"
  by (simp add: List.map_filter_def mset_filter)

lemma map_insert_last: "(\<And>k'. k' \<in> fst ` set m \<Longrightarrow> k' < k) \<Longrightarrow> map_insert k v m = m @ [(k, v)]"
proof (induction m)
  case (Cons x m)
  then have "fst x < k" by simp
  then have "\<not> k < fst x" "k \<noteq> fst x" by auto
  then show ?case using Cons by (cases x) simp
qed simp

lemma object_fields_stands:
  assumes "mset (children_of kids path) = mset (map (field_node num ds ss) m)" "sorted_wrt (<) (map fst m)"
  shows "object_fields kids path = map (\<lambda>(k, c). (k, jval_of num c, ds (encode_path (ss @ [Field k])))) m"
  unfolding object_fields_def
proof (rule sort_key_unique)
  have "List.map_filter as_field (map (field_node num ds ss) m) =
      map (\<lambda>(k, c). (k, jval_of num c, ds (encode_path (ss @ [Field k])))) m"
    by (induction m) (simp_all add: List.map_filter_simps field_node_def split: prod.splits)
  then show "mset (List.map_filter as_field (children_of kids path)) =
      mset (map (\<lambda>(k, c). (k, jval_of num c, ds (encode_path (ss @ [Field k])))) m)"
    using mset_map_filter [OF assms(1), of as_field] by simp
  show "sorted_wrt (<) (map fst (map (\<lambda>(k, c). (k, jval_of num c, ds (encode_path (ss @ [Field k])))) m))"
    using assms(2) by (simp add: comp_def case_prod_beta)
qed

text \<open>A loop that appends one result per item.\<close>

lemma foldl_append:
  assumes "\<And>acc st x ys. I acc (x # ys) \<Longrightarrow> x \<in> set xs \<Longrightarrow> fst (F (acc, st) (g x)) = acc @ [h x] \<and> I (acc @ [h x]) ys" "I acc xs"
  shows "fst (foldl F (acc, st) (map g xs)) = acc @ map h xs"
  using assms
proof (induction xs arbitrary: acc st)
  case (Cons x xs)
  obtain st' where "F (acc, st) (g x) = (acc @ [h x], st')"
    using Cons.prems(1) [OF Cons.prems(2), of st] by (metis list.set_intros(1) prod.collapse)
  moreover have "I (acc @ [h x]) xs" using Cons.prems by simp
  ultimately show ?case using Cons.IH [of "acc @ [h x]" st'] Cons.prems(1) by simp
qed simp

lemma fold_fields:
  fixes num :: "'n number_api"
  assumes "\<And>k c ix. (k, c) \<in> set m \<Longrightarrow> fst (materialize num kids (push_seg path (Field k)) (jval_of num c) ix) = c"
    "\<And>k c. (k, c) \<in> set m \<Longrightarrow> utf8_valid k" "sorted_wrt (<) (map fst m)"
  shows "fst (foldl (\<lambda>(m, ix) (name, fval, ds).
            let p = push_seg path (Field name);
                (v, ix') = materialize num kids p fval (ix\<lparr>map_dots := fmupd p ds (map_dots ix)\<rparr>)
            in (map_insert (from_utf8_lossy name) v m, ix'))
          ([], ix) (map (\<lambda>(k, c). (k, jval_of num c, d k)) m)) = m" (is "fst (foldl ?F _ _) = _")
proof -
  have "fst (foldl ?F ([], ix) (map (\<lambda>(k, c). (k, jval_of num c, d k)) m)) = [] @ map id m"
  proof (rule foldl_append [where I = "\<lambda>acc ys. sorted_wrt (<) (map fst (acc @ ys))"])
    fix acc ys ix and x :: "bytes \<times> 'n json"
    assume a: "sorted_wrt (<) (map fst (acc @ x # ys))" "x \<in> set m"
    obtain k c where x: "x = (k, c)" by (cases x)
    have "map_insert k c acc = acc @ [(k, c)]" using a(1) by (intro map_insert_last) (auto simp: x sorted_wrt_append)
    moreover have "fst (materialize num kids (push_seg path (Field k)) (jval_of num c) ix) = c" for ix
      using assms(1) a(2) by (simp add: x)
    moreover have "from_utf8_lossy k = k" using assms(2) [of k c] a(2) by (simp add: x from_utf8_lossy_valid)
    ultimately show "fst (?F (acc, ix) (case x of (k, c) \<Rightarrow> (k, jval_of num c, d k))) = acc @ [id x] \<and>
        sorted_wrt (<) (map fst ((acc @ [id x]) @ ys))"
      using a(1) by (simp add: x Let_def case_prod_unfold)
  qed (simp add: assms(3))
  then show ?thesis by simp
qed

text \<open>The decoded elements of an array.\<close>

fun elem_items :: "'n number_api \<Rightarrow> eid \<Rightarrow> eid list \<Rightarrow> 'n json list \<Rightarrow> (eid \<times> arr_elem \<times> bool) list" where
  "elem_items num left (e # es) (c # a) = (e, \<lparr>el_left = left, el_val = jval_of num c\<rparr>, True) # elem_items num e es a"
| "elem_items num left _ _ = []"

lemma elem_items_nodes: "List.map_filter as_elem (elem_nodes num l es a) = elem_items num l es a"
  by (induction num l es a rule: elem_items.induct) (simp_all add: List.map_filter_simps)

lemma elem_items_chain: "length es = length a \<Longrightarrow> map (\<lambda>(e, el, alive). (e, el_left el, alive)) (elem_items num l es a) = chain l es"
  by (induction num l es a rule: elem_items.induct) auto

lemma elem_items_eids: "length es = length a \<Longrightarrow> map fst (elem_items num l es a) = es"
  by (induction num l es a rule: elem_items.induct) auto

lemma elem_items_value:
  "(e, c) \<in> set (zip es a) \<Longrightarrow> \<exists>el. (e, el, True) \<in> set (elem_items num l es a) \<and> el_val el = jval_of num c"
  by (induction num l es a rule: elem_items.induct) auto

lemma by_eid_stands:
  assumes "mset xs = mset (elem_items num l es a)" "length es = length a" "distinct es" "(e, c) \<in> set (zip es a)"
  shows "\<exists>el. by_eid xs e = Some el \<and> el_val el = jval_of num c"
proof -
  obtain el where el: "(e, el, True) \<in> set (elem_items num l es a)" "el_val el = jval_of num c"
    using elem_items_value [OF assms(4)] by blast
  have "mset (map fst xs) = mset es" using assms(1) elem_items_eids [OF assms(2)] by (metis mset_map)
  then have "distinct (map fst (rev xs))" using assms(3) by (metis distinct_rev mset_eq_imp_distinct_iff rev_map)
  moreover have "(e, el, True) \<in> set (rev xs)" using el(1) mset_eq_setD [OF assms(1)] by simp
  ultimately show ?thesis using el(2) by (simp add: by_eid_def)
qed

lemma fold_elems:
  assumes "length es = length a" "\<And>e c. (e, c) \<in> set (zip es a) \<Longrightarrow> \<exists>el. by_eid xs e = Some el \<and> el_val el = jval_of num c"
    "\<And>e c ix. (e, c) \<in> set (zip es a) \<Longrightarrow> fst (materialize num kids (push_seg path (Elem e)) (jval_of num c) ix) = c"
  shows "fst (foldl (\<lambda>(arr, order, ix) (e, alive).
            if \<not> alive then (arr, order, ix)
            else case by_eid xs e of
                   None \<Rightarrow> (arr, order, ix)
                 | Some el \<Rightarrow>
                     let (v, ix') = materialize num kids (push_seg path (Elem e)) (el_val el) ix
                     in (arr @ [v], order @ [e], ix'))
          ([], [], ix) (map (\<lambda>e. (e, True)) es)) = a" (is "fst (foldl ?F _ _) = _")
proof -
  have "fst (foldl ?F ([], [], ix) (map (\<lambda>(e, c). (e, True)) (zip es a))) = [] @ map snd (zip es a)"
  proof (rule foldl_append [where I = "\<lambda>_ _. True"])
    fix acc ys and st :: "eid list \<times> doc_index" and x
    assume "x \<in> set (zip es a)"
    then obtain e c where x: "x = (e, c)" "(e, c) \<in> set (zip es a)" by (metis prod.exhaust)
    then obtain el where "by_eid xs e = Some el" "el_val el = jval_of num c" using assms(2) by blast
    then show "fst (?F (acc, st) (case x of (e, c) \<Rightarrow> (e, True))) = acc @ [snd x] \<and> True"
      using assms(3) [OF x(2)] by (simp add: x(1) Let_def case_prod_unfold)
  qed simp
  moreover have "map (\<lambda>(e, c). (e, True)) (zip es a) = map (\<lambda>e. (e, True)) es"
    using assms(1) by (induction es a rule: list_induct2) simp_all
  ultimately show ?thesis using assms(1) by simp
qed

lemma materialize_object:
  "fst (materialize num kids path JV_Obj ix) =
     J_Object (fst (foldl (\<lambda>(m, ix) (name, fval, ds).
        let p = push_seg path (Field name);
            (v, ix') = materialize num kids p fval (ix\<lparr>map_dots := fmupd p ds (map_dots ix)\<rparr>)
        in (map_insert (from_utf8_lossy name) v m, ix')) ([], ix) (object_fields kids path)))"
  by (subst materialize.simps) (simp only: jval.case Let_def split_beta fst_conv)

lemma materialize_array:
  "fst (materialize num kids path JV_Arr ix) =
     J_Array (fst (foldl (\<lambda>(arr, order, ix) (e, alive).
        if \<not> alive then (arr, order, ix)
        else case by_eid (array_elems kids path) e of
               None \<Rightarrow> (arr, order, ix)
             | Some el \<Rightarrow>
                 let (v, ix') = materialize num kids (push_seg path (Elem e)) (el_val el) ix
                 in (arr @ [v], order @ [e], ix')) ([], [], ix) (element_order (array_elems kids path))))"
  by (subst materialize.simps) (simp only: jval.case Let_def split_beta fst_conv)

lemma materialize_stands:
  assumes "stands num ds K ss v" "\<And>ss. list_all small_seg ss \<Longrightarrow> mset (children_of kids (encode_path ss)) = K ss" "list_all small_seg ss"
  shows "fst (materialize num kids (encode_path ss) (jval_of num v) ix) = v"
  using assms
proof (induction arbitrary: ix rule: stands.induct)
  case (leaf v ss)
  then show ?case by (simp add: materialize_scalar scalar_roundtrip)
next
  case (object ss m)
  have "fst (materialize num kids (push_seg (encode_path ss) (Field k)) (jval_of num c) ix) = c" if "(k, c) \<in> set m" for k c ix
    using object.IH [OF that object.prems(1), of ix] object.prems(2) object.hyps(3) [OF that]
    by (simp add: push_seg_append)
  moreover have "object_fields kids (encode_path ss) = map (\<lambda>(k, c). (k, jval_of num c, ds (encode_path (ss @ [Field k])))) m"
    by (rule object_fields_stands) (simp_all add: object.prems object.hyps)
  moreover have "jval_of num (J_Object m) = JV_Obj" by (simp add: jval_of_def)
  ultimately show ?case
    using fold_fields [of m num kids "encode_path ss" ix "\<lambda>k. ds (encode_path (ss @ [Field k]))"] object.hyps(2,3)
    by (simp only: materialize_object)
next
  case (array ss es a)
  let ?xs = "array_elems kids (encode_path ss)"
  have "mset (children_of kids (encode_path ss)) = mset (elem_nodes num EID_HEAD es a)" using array.prems array.hyps(1) by simp
  then have xs: "mset ?xs = mset (elem_items num EID_HEAD es a)"
    using mset_map_filter [of "children_of kids (encode_path ss)" "elem_nodes num EID_HEAD es a" as_elem]
    by (simp only: array_elems_def elem_items_nodes)
  then have "mset (map (\<lambda>(e, el, alive). (e, el_left el, alive)) ?xs) = mset (chain EID_HEAD es)"
    unfolding elem_items_chain [OF array.hyps(2), of num EID_HEAD, symmetric] by (simp only: mset_map)
  then have order: "element_order ?xs = map (\<lambda>e. (e, True)) es"
    unfolding element_order_def using array.hyps by (intro rga_order_chain)
  have "fst (materialize num kids (push_seg (encode_path ss) (Elem e)) (jval_of num c) ix) = c" if "(e, c) \<in> set (zip es a)" for e c ix
    using array.IH [OF that array.prems(1), of ix] array.prems(2) by (simp add: push_seg_append)
  note fold = fold_elems [OF array.hyps(2) by_eid_stands [OF xs array.hyps(2,3)] this, of ix]
  have "jval_of num (J_Array a) = JV_Arr" by (simp add: jval_of_def)
  then show ?case using fold by (simp only: materialize_array order)
qed

section \<open>Decomposition makes a value stand\<close>

fun as_node :: "(bytes \<Rightarrow> dot list) \<Rightarrow> json_record \<Rightarrow> bytes \<times> node_in" where
  "as_node ds (JR_Map p v) = (p, NI_Map v (ds p))"
| "as_node ds (JR_Arr p el) = (p, NI_Elem el True)"

definition encoded :: "node \<Rightarrow> bytes \<times> node_in" where
  "encoded = (\<lambda>(p, n). (encode_path p, n))"

text \<open>No two records at one path, and no element with the id of the head.\<close>

definition fine :: "node list \<Rightarrow> bool" where
  "fine R \<longleftrightarrow> distinct (map fst R) \<and> (\<forall>p\<in>fst ` set R. last p \<noteq> Elem EID_HEAD)"

definition small_path :: "seg list \<Rightarrow> bool" where
  "small_path p = list_all small_seg p"

definition emits :: "'n number_api \<Rightarrow> (bytes \<Rightarrow> dot list) \<Rightarrow> seg list \<Rightarrow> 'n json \<Rightarrow> json_record list \<Rightarrow> node list \<Rightarrow> bool" where
  "emits num ds ss v recs R \<longleftrightarrow>
     map (as_node ds) recs = map encoded R \<and> (\<forall>p\<in>fst ` set R. strict_prefix ss p \<and> small_path p) \<and>
     (fine R \<longrightarrow> (\<forall>K. (\<forall>q. prefix ss q \<longrightarrow> K q = kids_mset R q) \<longrightarrow> stands num ds K ss v))"

text \<open>The same for a list of children, each with its own record.\<close>

definition emits_kids :: "'n number_api \<Rightarrow> (bytes \<Rightarrow> dot list) \<Rightarrow> seg list \<Rightarrow> (seg \<times> node_in \<times> 'n json) list \<Rightarrow> json_record list \<Rightarrow> node list \<Rightarrow> bool" where
  "emits_kids num ds ss ks recs R \<longleftrightarrow>
     map (as_node ds) recs = map encoded R \<and> (\<forall>(x, _)\<in>set ks. ss @ [x] \<in> fst ` set R) \<and>
     (\<forall>p\<in>fst ` set R. small_path p \<and> (\<exists>x\<in>fst ` set ks. prefix (ss @ [x]) p)) \<and>
     (fine R \<longrightarrow> kids_mset R ss = mset (map (\<lambda>(x, n, _). (x, n)) ks) \<and>
       (\<forall>(x, n, c)\<in>set ks. \<forall>K. (\<forall>q. prefix (ss @ [x]) q \<longrightarrow> K q = kids_mset R q) \<longrightarrow> stands num ds K (ss @ [x]) c))"

lemma emits_paths:
  assumes "emits num ds ss v recs R" "p \<in> fst ` set R"
  shows "strict_prefix ss p \<and> small_path p"
  using assms unfolding emits_def by blast

lemma emits_stands:
  "emits num ds ss v recs R \<Longrightarrow> fine R \<Longrightarrow> (\<And>q. prefix ss q \<Longrightarrow> K q = kids_mset R q) \<Longrightarrow> stands num ds K ss v"
  by (simp add: emits_def)

lemma fine_append: "fine (A @ B) \<Longrightarrow> fine A \<and> fine B \<and> fst ` set A \<inter> fst ` set B = {}"
  by (auto simp: fine_def)

lemma fine_Cons: "fine (x # B) \<Longrightarrow> fine B \<and> fst x \<notin> fst ` set B \<and> last (fst x) \<noteq> Elem EID_HEAD"
  by (auto simp: fine_def)

lemma emits_scalar: "scalar v \<Longrightarrow> wf_json num v \<Longrightarrow> emits num ds ss v [] []"
  by (simp add: emits_def stands.leaf)

lemma kids_own_child: "prefix (ss @ [x]) q \<Longrightarrow> kids_mset ((ss @ [x], n) # R) q = kids_mset R q"
  by (auto simp: kids_mset_Cons kid_def prefix_def)

lemma emits_child_paths: "emits num ds (ss @ [x]) v recs R \<Longrightarrow> p \<in> fst ` set ((ss @ [x], n) # R) \<Longrightarrow> prefix (ss @ [x]) p"
  using emits_paths [of num ds "ss @ [x]" v recs R p] by (auto intro: prefix_order.less_imp_le)

lemma kids_of_child:
  assumes "emits num ds (ss @ [x]) v recs R"
  shows "kids_mset ((ss @ [x], n) # R) ss = {#(x, n)#}"
  using kids_mset_parent [of R ss x] emits_paths [OF assms] by (simp add: kids_mset_Cons)

lemma emits_kids_Nil: "emits_kids num ds ss [] [] []"
  by (simp add: emits_kids_def)

lemma emits_kidsD:
  assumes "emits_kids num ds ss ks recs R" "fine R"
  shows "kids_mset R ss = mset (map (\<lambda>(x, n, _). (x, n)) ks)"
    "(x, n, c) \<in> set ks \<Longrightarrow> (\<And>q. prefix (ss @ [x]) q \<Longrightarrow> K q = kids_mset R q) \<Longrightarrow> stands num ds K (ss @ [x]) c"
proof -
  note d = assms(1) [unfolded emits_kids_def, THEN conjunct2, THEN conjunct2, THEN conjunct2, THEN mp, OF assms(2)]
  show "kids_mset R ss = mset (map (\<lambda>(x, n, _). (x, n)) ks)" by (rule d [THEN conjunct1])
  assume "(x, n, c) \<in> set ks" and K: "\<And>q. prefix (ss @ [x]) q \<Longrightarrow> K q = kids_mset R q"
  then show "stands num ds K (ss @ [x]) c" using bspec [OF d [THEN conjunct2], of "(x, n, c)"] by simp
qed

lemma emits_kids_paths:
  assumes "emits_kids num ds ss ks recs R"
  shows "p \<in> fst ` set R \<Longrightarrow> small_path p \<and> (\<exists>x\<in>fst ` set ks. prefix (ss @ [x]) p)" "x \<in> fst ` set ks \<Longrightarrow> ss @ [x] \<in> fst ` set R"
proof -
  note d = assms [unfolded emits_kids_def]
  show "p \<in> fst ` set R \<Longrightarrow> small_path p \<and> (\<exists>x\<in>fst ` set ks. prefix (ss @ [x]) p)"
    by (rule bspec [OF d [THEN conjunct2, THEN conjunct2, THEN conjunct1]])
  assume "x \<in> fst ` set ks"
  then obtain y where "(x, y) \<in> set ks" by (auto simp: image_iff)
  then show "ss @ [x] \<in> fst ` set R" using bspec [OF d [THEN conjunct2, THEN conjunct1], of "(x, y)"] by simp
qed

text \<open>Records under a child that is not among the others do not meet theirs.\<close>

lemma emits_kids_foreign:
  assumes "emits_kids num ds ss ks recs R" "x \<notin> fst ` set ks" "prefix (ss @ [x]) q"
  shows "kids_mset R q = {#}"
proof (rule kids_mset_none)
  fix p n assume "(p, n) \<in> set R"
  then obtain y where y: "y \<in> fst ` set ks" "prefix (ss @ [y]) p" using emits_kids_paths(1) [OF assms(1), of p] by force
  then have "kids_mset [(p, n)] q = {#}" using kids_mset_other [of "[(p, n)]" ss y x q] assms(2,3) by auto
  then show "p = [] \<or> butlast p \<noteq> q" by (auto simp: kids_mset_Cons kid_def split: if_splits)
qed

lemma emits_kids_Cons:
  assumes "emits num ds (ss @ [x]) c recs1 R1" "emits_kids num ds ss ks recs2 R2" "as_node ds r = encoded (ss @ [x], n)"
    "small_path (ss @ [x])"
  shows "emits_kids num ds ss ((x, n, c) # ks) (r # recs1 @ recs2) ((ss @ [x], n) # R1 @ R2)" (is "emits_kids num ds ss ?ks ?recs ?R")
  unfolding emits_kids_def
proof (intro conjI impI)
  let ?A = "(ss @ [x], n) # R1"
  show "map (as_node ds) ?recs = map encoded ?R" using assms(1-3) by (simp add: emits_def emits_kids_def)
  show "\<forall>(y, _)\<in>set ?ks. ss @ [y] \<in> fst ` set ?R"
  proof (intro ballI, clarify)
    fix y m d assume "(y, m, d) \<in> set ?ks"
    then have "y = x \<or> y \<in> fst ` set ks" by force
    then show "ss @ [y] \<in> fst ` set ?R" using emits_kids_paths(2) [OF assms(2), of y] by auto
  qed
  show "\<forall>p\<in>fst ` set ?R. small_path p \<and> (\<exists>y\<in>fst ` set ?ks. prefix (ss @ [y]) p)"
    using emits_kids_paths(1) [OF assms(2)] emits_paths [OF assms(1)] emits_child_paths [OF assms(1)] assms(4)
    by (simp add: ball_Un)
  assume fine: "fine ?R"
  then have f: "fine R1" "fine R2" "fst ` set ?A \<inter> fst ` set R2 = {}"
    using fine_append [of ?A R2] fine_Cons [of "(ss @ [x], n)" R1] by simp_all
  have new: "x \<notin> fst ` set ks" using f(3) emits_kids_paths(2) [OF assms(2), of x] by auto
  have split: "kids_mset ?R q = kids_mset ?A q + kids_mset R2 q" for q
    using kids_mset_append [of ?A R2 q] by simp
  show "kids_mset ?R ss = mset (map (\<lambda>(x, n, _). (x, n)) ?ks)"
    unfolding split kids_of_child [OF assms(1)] emits_kidsD(1) [OF assms(2) f(2)] by simp
  have own: "kids_mset ?R q = kids_mset R1 q" if "prefix (ss @ [x]) q" for q
    unfolding split using kids_own_child [OF that] emits_kids_foreign [OF assms(2) new that] by simp
  have others: "kids_mset ?R q = kids_mset R2 q" if "prefix (ss @ [y]) q" "y \<in> fst ` set ks" for q y
  proof -
    have "kids_mset ?A q = {#}" using new that by (intro kids_mset_other [OF emits_child_paths [OF assms(1)]]) auto
    then show ?thesis unfolding split by simp
  qed
  show "\<forall>(y, m, d)\<in>set ?ks. \<forall>K. (\<forall>q. prefix (ss @ [y]) q \<longrightarrow> K q = kids_mset ?R q) \<longrightarrow> stands num ds K (ss @ [y]) d"
  proof (intro ballI, clarify)
    fix y m d K
    assume y: "(y, m, d) \<in> set ?ks" and K: "\<forall>q. prefix (ss @ [y]) q \<longrightarrow> K q = kids_mset ?R q"
    show "stands num ds K (ss @ [y]) d"
    proof (cases "(y, m, d) = (x, n, c)")
      case True
      then show ?thesis using emits_stands [OF assms(1) f(1), of K] K own by simp
    next
      case False
      then have "(y, m, d) \<in> set ks" using y by auto
      moreover from this have "y \<in> fst ` set ks" by force
      ultimately show ?thesis using emits_kidsD(2) [OF assms(2) f(2), of y m d K] K others by simp
    qed
  qed
qed

lemma emits_object:
  assumes "emits_kids num ds ss (map (\<lambda>(k, c). (Field k, NI_Map (jval_of num c) (ds (encode_path (ss @ [Field k]))), c)) m) recs R"
    "wf_json num (J_Object m)"
  shows "emits num ds ss (J_Object m) recs R"
  unfolding emits_def
proof (intro conjI allI impI ballI)
  let ?ks = "map (\<lambda>(k, c). (Field k, NI_Map (jval_of num c) (ds (encode_path (ss @ [Field k]))), c)) m"
  show "map (as_node ds) recs = map encoded R" using assms(1) by (simp add: emits_kids_def)
  fix p assume "p \<in> fst ` set R"
  then obtain x where x: "small_path p" "prefix (ss @ [x]) p" using emits_kids_paths(1) [OF assms(1), of p] by blast
  then show "small_path p" "strict_prefix ss p" by (auto simp: strict_prefix_def prefix_def)
next
  let ?ks = "map (\<lambda>(k, c). (Field k, NI_Map (jval_of num c) (ds (encode_path (ss @ [Field k]))), c)) m"
  fix K assume fine: "fine R" and K: "\<forall>q. prefix ss q \<longrightarrow> K q = kids_mset R q"
  show "stands num ds K ss (J_Object m)"
  proof (rule stands.object)
    have "map (\<lambda>(x, n, _). (x, n)) ?ks = map (field_node num ds ss) m" by (simp add: field_node_def case_prod_unfold)
    then have "kids_mset R ss = mset (map (field_node num ds ss) m)" using emits_kidsD(1) [OF assms(1) fine] by (simp only:)
    then show "K ss = mset (map (field_node num ds ss) m)" using K by simp
    show "sorted_wrt (<) (map fst m)" using assms(2) by simp
    fix k c assume kc: "(k, c) \<in> set m"
    show "utf8_valid k \<and> small_seg (Field k)" using assms(2) kc by (auto simp: list_all_iff)
    have "(Field k, NI_Map (jval_of num c) (ds (encode_path (ss @ [Field k]))), c) \<in> set ?ks" using kc by force
    then show "stands num ds K (ss @ [Field k]) c"
      by (rule emits_kidsD(2) [OF assms(1) fine]) (use K in \<open>auto simp: prefix_def\<close>)
  qed
qed

text \<open>The children of an array.\<close>

fun elem_kids :: "'n number_api \<Rightarrow> eid \<Rightarrow> eid list \<Rightarrow> 'n json list \<Rightarrow> (seg \<times> node_in \<times> 'n json) list" where
  "elem_kids num left (e # es) (c # a) = (Elem e, NI_Elem \<lparr>el_left = left, el_val = jval_of num c\<rparr> True, c) # elem_kids num e es a"
| "elem_kids num left _ _ = []"

lemma elem_kids_nodes: "map (\<lambda>(x, n, _). (x, n)) (elem_kids num l es a) = elem_nodes num l es a"
  by (induction num l es a rule: elem_kids.induct) simp_all

lemma elem_kids_eids: "length es = length a \<Longrightarrow> fst ` set (elem_kids num l es a) = Elem ` set es"
  by (induction num l es a rule: elem_kids.induct) auto

lemma elem_kids_zip: "(e, c) \<in> set (zip es a) \<Longrightarrow> \<exists>n. (Elem e, n, c) \<in> set (elem_kids num l es a)"
  by (induction num l es a rule: elem_kids.induct) auto

lemma distinct_kids:
  assumes "emits_kids num ds ss ks recs R" "fine R"
  shows "distinct (map fst ks)"
proof -
  have "mset (map fst ks) = image_mset fst (kids_mset R ss)"
    using emits_kidsD(1) [OF assms] by (simp add: image_mset.compositionality comp_def case_prod_unfold)
  moreover have "distinct (map fst (List.map_filter (kid ss) R))"
    using assms(2) unfolding fine_def
  proof (elim conjE, induction R)
    case (Cons y R)
    show ?case
    proof (cases "kid ss y")
      case None
      then show ?thesis using Cons by (simp add: List.map_filter_simps)
    next
      case (Some z)
      then have y: "fst y = ss @ [fst z]" by (auto simp: kid_def split: prod.splits if_splits)
      have "fst z \<noteq> fst w" if w: "w \<in> set (List.map_filter (kid ss) R)" for w
      proof
        assume "fst z = fst w"
        moreover obtain v where v: "v \<in> set R" "kid ss v = Some w" using w unfolding in_map_filter by blast
        then have "fst v = ss @ [fst w]" by (auto simp: kid_def split: prod.splits if_splits)
        ultimately show False using y v(1) Cons.prems by (metis distinct.simps(2) image_eqI list.map(2) list.set_map)
      qed
      then show ?thesis using Some Cons by (auto simp: List.map_filter_simps)
    qed
  qed (simp add: List.map_filter_simps)
  ultimately show ?thesis unfolding kids_mset_def by (metis mset_eq_imp_distinct_iff mset_map)
qed

lemma emits_array:
  assumes "emits_kids num ds ss (elem_kids num EID_HEAD es a) recs R" "length es = length a"
  shows "emits num ds ss (J_Array a) recs R"
  unfolding emits_def
proof (intro conjI allI impI ballI)
  show "map (as_node ds) recs = map encoded R" using assms(1) by (simp add: emits_kids_def)
  fix p assume "p \<in> fst ` set R"
  then obtain x where x: "small_path p" "prefix (ss @ [x]) p" using emits_kids_paths(1) [OF assms(1), of p] by blast
  then show "small_path p" "strict_prefix ss p" by (auto simp: strict_prefix_def prefix_def)
next
  fix K assume fine: "fine R" and K: "\<forall>q. prefix ss q \<longrightarrow> K q = kids_mset R q"
  have eids: "map fst (elem_kids num l es a) = map Elem es" if "length es = length a" for l es a
    using that by (induction num l es a rule: elem_kids.induct) auto
  show "stands num ds K ss (J_Array a)"
  proof (rule stands.array)
    show "length es = length a" by (rule assms(2))
    show "K ss = mset (elem_nodes num EID_HEAD es a)"
      using emits_kidsD(1) [OF assms(1) fine] K by (simp add: elem_kids_nodes)
    show "distinct es" using distinct_kids [OF assms(1) fine] eids [OF assms(2)] by (simp add: distinct_map)
    show "EID_HEAD \<notin> set es"
    proof
      assume "EID_HEAD \<in> set es"
      then have "ss @ [Elem EID_HEAD] \<in> fst ` set R"
        using emits_kids_paths(2) [OF assms(1)] elem_kids_eids [OF assms(2)] by simp
      then show False using fine unfolding fine_def by fastforce
    qed
    fix e c assume "(e, c) \<in> set (zip es a)"
    then obtain n where "(Elem e, n, c) \<in> set (elem_kids num EID_HEAD es a)" using elem_kids_zip by blast
    then show "stands num ds K (ss @ [Elem e]) c"
      by (rule emits_kidsD(2) [OF assms(1) fine]) (use K in \<open>auto simp: prefix_def\<close>)
  qed
qed

lemma push_path: "push_seg (encode_path ss) s = encode_path (ss @ [s])"
  by (simp add: push_seg_append)

text \<open>The loops: the records so far are kept, and the new ones are those of the children.\<close>

definition adds_children :: "'n number_api \<Rightarrow> (bytes \<Rightarrow> dot list) \<Rightarrow> 's fresh \<Rightarrow> seg list \<Rightarrow> 'n json \<Rightarrow> 's \<times> json_record list \<Rightarrow> bool" where
  "adds_children num ds fresh ss v st \<longleftrightarrow>
     (\<exists>recs R. snd (decompose_children num fresh (encode_path ss) v st) = snd st @ recs \<and> emits num ds ss v recs R)"

definition field_kids :: "'n number_api \<Rightarrow> (bytes \<Rightarrow> dot list) \<Rightarrow> seg list \<Rightarrow> (bytes \<times> 'n json) list \<Rightarrow> (seg \<times> node_in \<times> 'n json) list" where
  "field_kids num ds ss m = map (\<lambda>(k, c). (Field k, NI_Map (jval_of num c) (ds (encode_path (ss @ [Field k]))), c)) m"

definition adds_fields :: "'n number_api \<Rightarrow> (bytes \<Rightarrow> dot list) \<Rightarrow> 's fresh \<Rightarrow> seg list \<Rightarrow> (bytes \<times> 'n json) list \<Rightarrow> 's \<times> json_record list \<Rightarrow> bool" where
  "adds_fields num ds fresh ss m st \<longleftrightarrow>
     (\<exists>recs R. snd (decompose_fields num fresh (encode_path ss) m st) = snd st @ recs \<and> emits_kids num ds ss (field_kids num ds ss m) recs R)"

definition adds_elems :: "'n number_api \<Rightarrow> (bytes \<Rightarrow> dot list) \<Rightarrow> 's fresh \<Rightarrow> seg list \<Rightarrow> eid \<Rightarrow> nat \<Rightarrow> 'n json list \<Rightarrow> 's \<times> json_record list \<Rightarrow> bool" where
  "adds_elems num ds fresh ss left ord a st \<longleftrightarrow>
     (\<exists>recs R es. snd (decompose_elems num fresh (encode_path ss) left ord a st) = snd st @ recs \<and> length es = length a \<and>
        emits_kids num ds ss (elem_kids num left es a) recs R)"

lemma fields_step:
  fixes num ss k c s out
  defines "p \<equiv> encode_path (ss @ [Field k])"
  defines "st' \<equiv> (s, out @ [JR_Map p (jval_of num c)])"
  assumes "adds_children num ds fresh (ss @ [Field k]) c st'" "adds_fields num ds fresh ss m (decompose_children num fresh p c st')"
    "small_path (ss @ [Field k])"
  shows "adds_fields num ds fresh ss ((k, c) # m) (s, out)"
proof -
  obtain recs1 R1 where c: "snd (decompose_children num fresh p c st') = snd st' @ recs1" "emits num ds (ss @ [Field k]) c recs1 R1"
    using assms(3) unfolding adds_children_def p_def by blast
  obtain recs2 R2 where m: "snd (decompose_fields num fresh (encode_path ss) m (decompose_children num fresh p c st')) =
      snd (decompose_children num fresh p c st') @ recs2" "emits_kids num ds ss (field_kids num ds ss m) recs2 R2"
    using assms(4) unfolding adds_fields_def by blast
  have "as_node ds (JR_Map p (jval_of num c)) = encoded (ss @ [Field k], NI_Map (jval_of num c) (ds p))"
    by (simp only: p_def as_node.simps encoded_def split)
  note kids = emits_kids_Cons [OF c(2) m(2) this assms(5)]
  have "snd (decompose_fields num fresh (encode_path ss) ((k, c) # m) (s, out)) =
      snd (decompose_fields num fresh (encode_path ss) m (decompose_children num fresh p c st'))"
    by (simp add: Let_def push_path p_def st'_def del: encode_path_simps)
  also have "\<dots> = snd (s, out) @ JR_Map p (jval_of num c) # recs1 @ recs2" unfolding m(1) c(1) by (simp add: st'_def)
  finally show ?thesis
    using kids unfolding adds_fields_def field_kids_def p_def list.map split by blast
qed

lemma elems_step:
  fixes num ss e c s' out left
  defines "p \<equiv> encode_path (ss @ [Elem e])"
  defines "st' \<equiv> (s', out @ [JR_Arr p \<lparr>el_left = left, el_val = jval_of num c\<rparr>])"
  assumes "fresh s (encode_path ss) ord = (s', e)" "adds_children num ds fresh (ss @ [Elem e]) c st'"
    "adds_elems num ds fresh ss e (ord + 1) a (decompose_children num fresh p c st')" "small_path (ss @ [Elem e])"
  shows "adds_elems num ds fresh ss left ord (c # a) (s, out)"
proof -
  let ?el = "\<lparr>el_left = left, el_val = jval_of num c\<rparr>"
  obtain recs1 R1 where c: "snd (decompose_children num fresh p c st') = snd st' @ recs1" "emits num ds (ss @ [Elem e]) c recs1 R1"
    using assms(4) unfolding adds_children_def p_def by blast
  obtain recs2 R2 es where a: "snd (decompose_elems num fresh (encode_path ss) e (ord + 1) a (decompose_children num fresh p c st')) =
      snd (decompose_children num fresh p c st') @ recs2" "length es = length a" "emits_kids num ds ss (elem_kids num e es a) recs2 R2"
    using assms(5) unfolding adds_elems_def by blast
  have "as_node ds (JR_Arr p ?el) = encoded (ss @ [Elem e], NI_Elem ?el True)"
    by (simp only: p_def as_node.simps encoded_def split)
  note kids = emits_kids_Cons [OF c(2) a(3) this assms(6)]
  have "snd (decompose_elems num fresh (encode_path ss) left ord (c # a) (s, out)) =
      snd (decompose_elems num fresh (encode_path ss) e (ord + 1) a (decompose_children num fresh p c st'))"
    by (simp add: Let_def push_path p_def st'_def assms(3) del: encode_path_simps)
  also have "\<dots> = snd (s, out) @ JR_Arr p ?el # recs1 @ recs2" unfolding a(1) c(1) by (simp add: st'_def)
  finally show ?thesis
    using kids a(2) unfolding adds_elems_def elem_kids.simps(1) [of num left e es c a, symmetric] by (metis length_Cons)
qed

lemma adds_scalar: "scalar v \<Longrightarrow> wf_json num v \<Longrightarrow> adds_children num ds fresh ss v st"
  using emits_scalar [of v num ds ss] by (cases v) (auto simp: adds_children_def)

lemma adds_Nil: "adds_fields num ds fresh ss [] st" "adds_elems num ds fresh ss left ord [] st"
  using emits_kids_Nil [of num ds ss] by (auto simp: adds_fields_def adds_elems_def field_kids_def)

lemma decompose_emits:
  "path = encode_path ss \<Longrightarrow> wf_json num v \<Longrightarrow> small_path ss \<Longrightarrow> adds_children num ds fresh ss v st"
  "path = encode_path ss \<Longrightarrow> list_all (\<lambda>(k, c). small_seg (Field k) \<and> wf_json num c) m \<Longrightarrow> small_path ss \<Longrightarrow>
    adds_fields num ds fresh ss m st"
  "path = encode_path ss \<Longrightarrow> list_all (wf_json num) a \<Longrightarrow> small_path ss \<Longrightarrow> adds_elems num ds fresh ss left ord a st"
proof (induction num fresh path v st and num fresh path m st and num fresh path left ord a st
    arbitrary: ss and ss and ss rule: decompose_children_decompose_fields_decompose_elems.induct)
  case (1 num fresh path m st)
  have "list_all (\<lambda>(k, c). small_seg (Field k) \<and> wf_json num c) m" using "1.prems"(2) by (auto simp: list_all_iff)
  from "1.IH" [OF "1.prems"(1) this "1.prems"(3)] show ?case
    using emits_object [OF _ "1.prems"(2), of ds ss, folded field_kids_def]
    unfolding adds_children_def adds_fields_def decompose_children.simps by blast
next
  case (2 num fresh path a st)
  then have "adds_elems num ds fresh ss EID_HEAD 0 a st" by simp
  then show ?case using emits_array by (fastforce simp: adds_children_def adds_elems_def)
next
  case (8 num fresh path k c m st)
  obtain s out where st: "(s, out) = st" by (cases st) auto
  have p: "push_seg path (Field k) = encode_path (ss @ [Field k])" and small: "small_path (ss @ [Field k])" "wf_json num c"
    and m: "list_all (\<lambda>(k, c). small_seg (Field k) \<and> wf_json num c) m"
    using "8.prems" by (simp_all add: push_seg_append small_path_def)
  note IH = "8.IH"(1) [OF refl st refl p small(2,1)] "8.IH"(2) [OF refl st refl "8.prems"(1) m "8.prems"(3)]
  show ?case using fields_step [OF IH [unfolded p] small(1)] by (simp only: st)
next
  case (10 num fresh path left ordinal c a st)
  obtain s out where st: "(s, out) = st" by (cases st) auto
  obtain s' e where e: "(s', e) = fresh s path ordinal" by (cases "fresh s path ordinal") auto
  have p: "push_seg path (Elem e) = encode_path (ss @ [Elem e])" and small: "small_path (ss @ [Elem e])" "wf_json num c" "list_all (wf_json num) a"
    using "10.prems" by (simp_all add: push_seg_append small_path_def)
  note IH = "10.IH"(1) [OF refl st refl e refl p small(2,1)] "10.IH"(2) [OF refl st refl e refl "10.prems"(1) small(3) "10.prems"(3)]
  show ?case using elems_step [OF e [symmetric, unfolded "10.prems"(1)] IH [unfolded p] small(1)] by (simp only: st)
qed (simp_all add: adds_scalar adds_Nil)

section \<open>The document of a value\<close>

definition byte_kid :: "bytes \<Rightarrow> bytes \<times> node_in \<Rightarrow> (seg \<times> node_in) option" where
  "byte_kid path = (\<lambda>(p, n).
     if p = [] then None
     else case split_last p of Some (par, l) \<Rightarrow> if par = path then Some (l, n) else None | None \<Rightarrow> None)"

lemma children_add_kid:
  "children_of (add_kid kids x) path = children_of kids path @ (case byte_kid path x of Some k \<Rightarrow> [k] | None \<Rightarrow> [])"
  by (cases x) (auto simp: children_of_def add_kid_def byte_kid_def Let_def split: option.splits)

lemma children_of_fold: "children_of (foldl add_kid kids nodes) path = children_of kids path @ List.map_filter (byte_kid path) nodes"
  by (induction nodes arbitrary: kids) (simp_all add: children_add_kid List.map_filter_simps split: option.split)

lemma byte_kid_encoded:
  assumes "small_path p" "small_path ss"
  shows "byte_kid (encode_path ss) (encoded (p, n)) = kid ss (p, n)"
proof (cases p rule: rev_cases)
  case (snoc q x)
  then have small: "list_all small_seg q" "small_seg x" "list_all small_seg ss" using assms by (simp_all add: small_path_def)
  show ?thesis
    by (simp add: snoc byte_kid_def encoded_def kid_def split_last_encode [OF small(1,2), simplified] encode_path_inject [OF small(1,3)])
qed (simp add: byte_kid_def encoded_def kid_def)

lemma kids_encoded:
  assumes "\<And>p. p \<in> fst ` set N \<Longrightarrow> small_path p" "small_path ss"
  shows "List.map_filter (byte_kid (encode_path ss)) (map encoded N) = List.map_filter (kid ss) N"
  using assms by (induction N) (auto simp: List.map_filter_simps byte_kid_encoded split: option.split)

lemma foldl_root:
  assumes "\<And>m. ([], m) \<in> set nodes \<Longrightarrow> m = n"
  shows "foldl (\<lambda>root (path, node). if path = [] then Some node else root) r nodes =
    (if ([], n) \<in> set nodes then Some n else r)"
  using assms
proof (induction nodes arbitrary: r)
  case (Cons x nodes)
  obtain p m where x: "x = (p, m)" by (cases x)
  have IH: "foldl (\<lambda>root (path, node). if path = [] then Some node else root) r nodes =
      (if ([], n) \<in> set nodes then Some n else r)" for r
    by (rule Cons.IH, rule Cons.prems) simp
  have "m = n" if "p = []" using Cons.prems [of m] that by (simp add: x)
  then show ?case by (cases "p = []") (simp_all add: x IH)
qed simp

lemma find_root_unique:
  assumes "([], n) \<in> set nodes" "\<And>m. ([], m) \<in> set nodes \<Longrightarrow> m = n"
  shows "find_root nodes = Some n"
  using foldl_root [OF assms(2), of nodes None] assms(1) by (simp add: find_root_def)

lemma build_doc_stands:
  assumes "emits num ds [] v recs R" "fine R" "mset nodes = mset ((([], NI_Map (jval_of num v) (ds [])) # map (as_node ds) recs))"
  shows "\<exists>d. build_doc num nodes = Some d \<and> doc_value d = v"
proof -
  let ?kids = "foldl add_kid fmempty nodes" and ?root = "([], NI_Map (jval_of num v) (ds []))"
  have recs: "map (as_node ds) recs = map encoded R" using assms(1) by (simp add: emits_def)
  have set: "set nodes = insert ?root (encoded ` set R)" using mset_eq_setD [OF assms(3)] recs by simp
  have "encode_path p \<noteq> []" if "(p, n) \<in> set R" for p n
    using emits_paths [OF assms(1), of p] that by (cases p) (force, simp)
  then have "([], m) \<notin> encoded ` set R" for m by (fastforce simp: encoded_def)
  then have "find_root nodes = Some (NI_Map (jval_of num v) (ds []))"
    by (intro find_root_unique) (simp_all add: set)
  moreover have "mset (children_of ?kids (encode_path ss)) = kids_mset R ss" if "list_all small_seg ss" for ss
  proof -
    have "mset (children_of ?kids (encode_path ss)) = mset (List.map_filter (byte_kid (encode_path ss)) nodes)"
      by (simp add: children_of_fold) (simp add: children_of_def)
    also have "\<dots> = mset (List.map_filter (byte_kid (encode_path ss)) (?root # map encoded R))"
      by (rule mset_map_filter) (simp only: assms(3) recs)
    also have "\<dots> = kids_mset R ss"
      using kids_encoded [of R ss] emits_paths [OF assms(1)] that
      by (simp add: List.map_filter_simps byte_kid_def kids_mset_def small_path_def)
    finally show ?thesis .
  qed
  then have "fst (materialize num ?kids (encode_path []) (jval_of num v) ix) = v" for ix
    using materialize_stands [OF emits_stands [OF assms(1,2) refl], of ?kids ix] by simp
  ultimately show ?thesis by (simp add: build_doc_def Let_def case_prod_unfold)
qed

lemma record_path_node: "fst (as_node ds r) = record_path r"
  by (cases r) simp_all

text \<open>C12: a JSON value survives storage. The document built from the records of a decomposed value, in whatever
  order they are read and with whatever dots they carry, is the value again, provided that no two records
  have the same path and no element has the id of the head of arrays.\<close>

theorem json_document_roundtrip:
  assumes "wf_json num v" "recs = snd (decompose num [] v fresh s)" "distinct (map record_path recs)"
    "\<And>ss. encode_path (ss @ [Elem EID_HEAD]) \<notin> record_path ` set recs" "mset nodes = mset (map (as_node ds) recs)"
  shows "\<exists>d. build_doc num nodes = Some d \<and> doc_value d = v"
proof -
  have "adds_children num ds (\<lambda>s _ _. fresh s) [] v (s, [JR_Map [] (jval_of num v)])"
    by (rule decompose_emits(1) [OF refl assms(1)]) (simp add: small_path_def)
  then obtain rest R where R: "recs = JR_Map [] (jval_of num v) # rest" "emits num ds [] v rest R"
    unfolding assms(2) adds_children_def by (auto simp: decompose_def decompose_into_def)
  have "map record_path rest = map (fst \<circ> as_node ds) rest" by (simp add: record_path_node)
  also have "\<dots> = map (encode_path \<circ> fst) R"
    using R(2) by (simp add: emits_def flip: map_map) (simp add: encoded_def case_prod_unfold comp_def)
  finally have paths: "map record_path rest = map encode_path (map fst R)" by simp
  have "distinct (map fst R)" using assms(3) paths R(1) distinct_map [of encode_path "map fst R"] by (metis distinct.simps(2) list.simps(9))
  moreover have "last p \<noteq> Elem EID_HEAD" if "p \<in> fst ` set R" for p
  proof
    assume "last p = Elem EID_HEAD"
    moreover have "p \<noteq> []" using emits_paths [OF R(2) that] by auto
    ultimately have "p = butlast p @ [Elem EID_HEAD]" by (metis append_butlast_last_id)
    moreover have "encode_path p \<in> record_path ` set recs"
      using that arg_cong [OF paths, of set] by (auto simp: R(1))
    ultimately show False using assms(4) by metis
  qed
  ultimately have "fine R" by (simp add: fine_def)
  then show ?thesis using build_doc_stands [OF R(2)] assms(5) R(1) by simp
qed

text \<open>Numbers that are non-negative, negative or floating, and an object with an array of them, decomposed with ids
  from a counter.\<close>

datatype number = PosInt u64 | NegInt i64 | Double f64

definition plain_numbers :: "number number_api" where
  "plain_numbers =
     \<lparr>as_i64 = (\<lambda>n. case n of PosInt u \<Rightarrow> if u \<le> 2 ^ 63 - 1 then Some u else None | NegInt i \<Rightarrow> Some i | Double f \<Rightarrow> None),
      as_u64 = (\<lambda>n. case n of PosInt u \<Rightarrow> Some u | _ \<Rightarrow> None),
      as_f64 = (\<lambda>n. case n of PosInt u \<Rightarrow> Some (f64_make False (f64_round_mag (unat u * 2 ^ 1074)))
        | NegInt i \<Rightarrow> Some (f64_make True (f64_round_mag (nat (- sint i) * 2 ^ 1074))) | Double f \<Rightarrow> Some f),
      number_of_i64 = (\<lambda>i. if i <s 0 then NegInt i else PosInt i),
      number_of_u64 = PosInt,
      number_of_f64 = (\<lambda>f. if f64_mag f < f64_infinity then Some (Double f) else None)\<rparr>"

definition tick_eid :: "u64 \<Rightarrow> u64 \<times> eid" where
  "tick_eid s = (s + 1, Eid (s + 1) 1)"

definition sample_json :: "number json" where
  "sample_json = J_Object [([97], J_Array [J_Number (PosInt 1), J_Number (PosInt (2 ^ 63))])]"

lemma sample_records:
  "snd (decompose plain_numbers [] sample_json tick_eid 0) =
     [JR_Map [] JV_Obj, JR_Map (encode_path [Field [97]]) JV_Arr,
      JR_Arr (encode_path [Field [97], Elem (Eid 1 1)]) \<lparr>el_left = EID_HEAD, el_val = JV_Int 1\<rparr>,
      JR_Arr (encode_path [Field [97], Elem (Eid 2 1)]) \<lparr>el_left = Eid 1 1, el_val = JV_UInt (2 ^ 63)\<rparr>]"
  by (simp add: decompose_def decompose_into_def sample_json_def tick_eid_def jval_of_def plain_numbers_def push_seg_append Let_def)

theorem json_document_roundtrip_witness:
  "\<exists>d. build_doc plain_numbers (rev (map (as_node (\<lambda>_. [])) (snd (decompose plain_numbers [] sample_json tick_eid 0)))) = Some d \<and> doc_value d = sample_json"
proof (rule json_document_roundtrip [OF _ refl])
  let ?recs = "snd (decompose plain_numbers [] sample_json tick_eid 0)"
  have "utf8_valid [97]" by simp
  moreover have "\<not> (1 :: i64) <s 0" by code_simp
  ultimately show "wf_json plain_numbers sample_json" by (simp add: sample_json_def number_ok_def plain_numbers_def)
  have small: "list_all small_seg [Field [97]]" "list_all small_seg [Field [97], Elem e]" for e by simp_all
  show "distinct (map record_path ?recs)"
    unfolding sample_records
    by (simp add: encode_path_inject [OF small(1) small(2), simplified] encode_path_inject [OF small(2) small(2), simplified] seg_bytes_def push_seg_def eid_encode_to_def)
  show "encode_path (ss @ [Elem EID_HEAD]) \<notin> record_path ` set ?recs" for ss
  proof -
    have be: "be16 0 = [0, 0]" "be16 1 = [0, 1]" by code_simp+
    have "last (encode_path (ss @ [Elem EID_HEAD])) = 0"
      by (simp add: seg_bytes_def push_seg_def eid_encode_to_def EID_HEAD_def be)
    moreover have "last (encode_path [Field [97]]) = 97" "last (encode_path [Field [97], Elem (Eid h 1)]) = 1" for h
      by (simp_all add: seg_bytes_def push_seg_def eid_encode_to_def be)
    moreover have "encode_path (ss @ [Elem EID_HEAD]) \<noteq> []" "(0 :: u8) \<noteq> 97" "(0 :: u8) \<noteq> 1" by simp_all
    ultimately have "encode_path (ss @ [Elem EID_HEAD]) \<notin> {[], encode_path [Field [97]], encode_path [Field [97], Elem (Eid h 1)]}" for h
      by (metis insertE singletonD)
    then show ?thesis unfolding sample_records by (simp del: encode_path_simps)
  qed
  show "mset (rev (map (as_node (\<lambda>_. [])) ?recs)) = mset (map (as_node (\<lambda>_. [])) ?recs)" by simp
qed

end
