(* ===== verification/Spec2Isabelle.thy ===== *)
theory Spec2Isabelle
  imports Partition Hlc Merge_Properties Ikey Budget_Record_Laws Json_Core_Laws Lane_Properties Pubsub Anti_Entropy_Properties Keyspace_Properties Json_Doc_Laws
begin

text \<open>
  marekvs is a replicated key-value store that speaks the Redis protocol. Every node keeps records in an
  ordered store; a record is a value behind a 19-byte envelope (type, hybrid logical clock, origin, deadline).
  Writes are merged into the store, pushed to the peers that want them through a bounded ring and one lane per
  peer, and repaired by Merkle anti-entropy. Commands read and write the records of one key through a shard.
  Paths below are relative to \<open>src/crates\<close>.

  \<^bold>\<open>Model.\<close> Bytes are lists of 8-bit words and integers keep their width, so that arithmetic wraps where the
  release build wraps. The store is a red-black tree from keys to values, hash maps are association lists,
  floating-point scores are their 64 bits. Clocks and system time are arguments. Code that is not part of the
  repository (the hash xxh3, parsers of socket addresses, the numbers of the JSON library) is an argument of the definitions that use it.

  \<^bold>\<open>Parts.\<close>
  \<^item> Records, \<open>marekvs-core\<close>: \<open>Partition\<close> (CRC-16 slots and hash tags), \<open>Hlc\<close>, \<open>Envelope\<close>, \<open>Counter\<close> (PN counters),
    \<open>Merge\<close> (observed-remove elements, counters, registers, last writer wins), \<open>Ikey\<close> (layout of keys),
    \<open>Budget_Records\<close>, \<open>Json_Core\<close> and \<open>Json_Doc\<close> (JSON documents as records), \<open>Score\<close>, with the codecs \<open>Varint\<close>,
    \<open>Decimal\<close> and \<open>Utf8\<close>. The laws are in \<open>Merge_Laws\<close>, \<open>Budget_Record_Laws\<close>, \<open>Json_Core_Laws\<close> and
    \<open>Json_Doc_Laws\<close> (a value survives its decomposition into records, in whatever order they are read); \<open>Convergence\<close> is the contract between replication and the record
    types, a join on the records that may meet, and each record type is an interpretation of it.
    \<open>Merge_Properties\<close> shows that replicas converge whatever the order and number of deliveries, that a removal
    takes effect exactly on what it observed, and where the caps on stored dots and counter fields break this.
  \<^item> Membership, \<open>marekvs-cluster\<close>: \<open>Placement\<close> (rendezvous hashing with zones, views, the join gate): owners are
    complete, distinct and spread over zones, and a change of members moves only what it must, with and without
    zone spreading.
  \<^item> Replication, \<open>marekvs-repl\<close>: \<open>Ring\<close> refines an unbounded log, \<open>Interest\<close> refines a set of leases, \<open>Lane\<close> is a
    step relation of sender, receiver and connection: a pump pass is three steps (its two locks and the send
    between them), connection events are handled later by the event tasks of the two sides, and what arrived
    before a connection was lost is handled after it. \<open>Lane_Properties\<close> shows that nothing is lost silently as
    long as no ring gap is reported and every pass that sends begins after a resume message and ends before the
    next connection loss, a run in which a pass does not wait and a record is skipped for good, and that an
    undisturbed lane drains.
  \<^item> Anti-entropy: \<open>Anti_Entropy\<close> models digests, comparison and the message handlers; \<open>Anti_Entropy_Laws\<close> follows an
    exchange key by key through the locale \<open>repairable\<close>; \<open>Anti_Entropy_Properties\<close> shows what is repaired and that
    HyperLogLog registers are not.
  \<^item> Storage and commands, \<open>marekvs-engine\<close>: \<open>Store\<close> (reads, merged writes, scans, heads, pop cursors), \<open>Zset\<close>
    (sorted sets and their score index), \<open>Keyspace\<close> (DEL, TTL and EXPIRE, SCAN, RENAME, COPY), \<open>Glob\<close> and \<open>Pubsub\<close>.
    The index of a sorted set follows its members through ZADD, ZINCRBY, delivered records and removals within the
    caps, and ranges are exact while it does; RENAME, COPY and a removal at the cap break it, which theorems show.
    The glob matcher is equivalent to its recursive meaning on patterns without backslashes, and publishing
    reaches exactly the table of subscriptions.

  \<^bold>\<open>Locales.\<close> \<open>convergent_merge\<close> (a join on a set of records) is interpreted on counters, elements, registers,
  last-writer-wins records, slot ledgers and tokens; \<open>counted_retain\<close> on the levels of the interest table;
  \<open>repairable\<close> on elements, counters and last-writer-wins records.

  \<^bold>\<open>Termination.\<close> Every definition is total. The loop of the glob matcher is a partial function with an option
  result, and a theorem shows that it returns. The walks over paths, over array order and over the
  records of a document have their own termination proofs. No fuel is used.

  \<^bold>\<open>Bounds.\<close> Positions in a buffer are natural numbers in the decoders of elements, keys and path segments, and a
  length close to \<open>2 ^ 64\<close>, which no encoder writes, is refused; in the release build the sum of position and
  length wraps there and the slice panics. A lane has one connection at a time, and one that is replaced while
  still registered is lost first. Sequence numbers do not reach \<open>2 ^ 64\<close>. The keys of RENAME and COPY are on one
  shard, and no other command runs between the jobs of one move.

  \<^bold>\<open>Not modelled.\<close> Sockets, timers, threads and asynchronous orchestration (sessions, fetches, bootstrap, expiry
  sweeps, the server process, the operator's requests); parsing of command arguments; the commands of
  strings, hashes, sets, lists, streams, JSON and protobuf values beyond their records; Lua scripts; the document
  diff; static tables, metrics and the documentation generator. Each is an entry of the manifest.
\<close>

end
